(* ===== verification/Bitype_Prelude.thy ===== *)
theory Bitype_Prelude
  imports Main "HOL-Library.List_Lexorder" "HOL-Library.Char_ord"
begin

text \<open>
  Shared vocabulary of the development: the C++ standard containers the program keeps its state
  in (\<open>std::map\<close> and \<open>std::set\<close>, ordered by key), loops whose body may leave the function,
  and the generic lemmas about them. A \<open>std::map\<close> is an association list kept in the order of
  its keys, because the program iterates over its maps and writes what it meets to files;
  \<open>map_insert\<close> is \<open>std::map::insert\<close>, which keeps the old value of a key already present,
  and \<open>map_put\<close> is an assignment through an iterator or \<open>operator[]\<close>.
\<close>

named_theorems smap_simps \<open>look-ups in ordered maps and membership in ordered sets\<close>

section \<open>Ordered maps and sets\<close>

type_synonym ('k, 'v) smap = "('k \<times> 'v) list"
type_synonym 'a sset = "'a list"

definition map_insert :: "'k::linorder \<Rightarrow> 'v \<Rightarrow> ('k, 'v) smap \<Rightarrow> ('k, 'v) smap" where
  "map_insert k v m = (if k \<in> fst ` set m then m else insort_key fst (k, v) m)"

fun map_put :: "'k::linorder \<Rightarrow> 'v \<Rightarrow> ('k, 'v) smap \<Rightarrow> ('k, 'v) smap" where
  "map_put k v [] = [(k, v)]"
| "map_put k v ((a, b) # m) =
     (if k < a then (k, v) # (a, b) # m
      else if k = a then (k, v) # m else (a, b) # map_put k v m)"

abbreviation map_find :: "('k, 'v) smap \<Rightarrow> 'k \<Rightarrow> 'v option" where
  "map_find \<equiv> map_of"

abbreviation map_has :: "('k, 'v) smap \<Rightarrow> 'k \<Rightarrow> bool" where
  "map_has m k \<equiv> map_of m k \<noteq> None"

definition smap_ok :: "('k::linorder, 'v) smap \<Rightarrow> bool" where
  "smap_ok m \<longleftrightarrow> sorted_wrt (<) (map fst m)"

definition set_insert :: "'a::linorder \<Rightarrow> 'a sset \<Rightarrow> 'a sset" where
  "set_insert x s = (if x \<in> set s then s else insort x s)"

definition sset_ok :: "'a::linorder sset \<Rightarrow> bool" where
  "sset_ok s \<longleftrightarrow> sorted_wrt (<) s"

lemma map_of_insort_key:
  "k \<notin> fst ` set m \<Longrightarrow> map_of (insort_key fst (k, v) m) = (map_of m)(k \<mapsto> v)"
proof (induction m)
  case (Cons p m)
  then show ?case by (cases p) (rule ext, auto)
qed simp

lemma map_of_map_insert [smap_simps]:
  "map_of (map_insert k v m) = (if map_has m k then map_of m else (map_of m)(k \<mapsto> v))"
  by (auto simp: map_insert_def map_of_insort_key map_of_eq_None_iff)

lemma map_insert_Some [simp]:
  "map_of m k = Some w \<Longrightarrow> map_insert k v m = m"
  by (auto simp: map_insert_def map_of_eq_None_iff dest: map_of_SomeD intro: rev_image_eqI)

lemma map_of_map_put [smap_simps]:
  "smap_ok m \<Longrightarrow> map_of (map_put k v m) = (map_of m)(k \<mapsto> v)"
proof (induction m)
  case (Cons p m)
  obtain a b where p: "p = (a, b)" by force
  from Cons.prems have ok: "smap_ok m" and gt: "\<forall>x \<in> fst ` set m. a < x"
    by (auto simp: smap_ok_def p)
  show ?case
  proof (cases "k < a")
    case True
    with gt have "k \<notin> fst ` set m" by force
    with True show ?thesis by (auto simp: p fun_eq_iff)
  next
    case False
    with Cons.IH[OF ok] show ?thesis by (auto simp: p fun_eq_iff)
  qed
qed simp

lemma fst_set_insort_key [simp]:
  "fst ` set (insort_key fst (k, v) m) = insert k (fst ` set m)"
  by (simp add: set_insort_key)

lemma dom_map_insert [simp]: "fst ` set (map_insert k v m) = insert k (fst ` set m)"
  by (auto simp: map_insert_def)

lemma sorted_insort_fst:
  "sorted_wrt (<) (map fst m) \<Longrightarrow> k \<notin> fst ` set m
     \<Longrightarrow> sorted_wrt (<) (map fst (insort_key fst (k, v) m))"
  by (induction m) (auto simp: set_insort_key)

lemma smap_ok_Nil [simp, intro]: "smap_ok []"
  by (simp add: smap_ok_def)

lemma smap_ok_insert [simp, intro]: "smap_ok m \<Longrightarrow> smap_ok (map_insert k v m)"
  by (auto simp: smap_ok_def map_insert_def sorted_insort_fst)

lemma dom_map_put: "fst ` set (map_put k v m) = insert k (fst ` set m)"
  by (induction k v m rule: map_put.induct) auto

lemma smap_ok_put [simp, intro]: "smap_ok m \<Longrightarrow> smap_ok (map_put k v m)"
proof (induction m)
  case (Cons p m)
  obtain a b where p: "p = (a, b)" by force
  from Cons.prems have ok: "smap_ok m" and gt: "\<forall>x \<in> fst ` set m. a < x"
    by (auto simp: smap_ok_def p)
  from Cons.IH[OF ok] have "smap_ok (map_put k v m)" .
  moreover have "\<not> k < a \<Longrightarrow> k \<noteq> a \<Longrightarrow> \<forall>x \<in> fst ` set (map_put k v m). a < x"
    using gt by (auto simp: dom_map_put)
  ultimately show ?case using ok gt
    by (auto simp: p smap_ok_def)
qed (simp add: smap_ok_def)

lemma smap_ok_distinct: "smap_ok m \<Longrightarrow> distinct (map fst m)"
  unfolding smap_ok_def by (simp add: strict_sorted_iff)

lemma smap_ok_map_of_iff:
  "smap_ok m \<Longrightarrow> map_of m k = Some v \<longleftrightarrow> (k, v) \<in> set m"
  by (simp add: smap_ok_distinct)

lemma smap_eqI:
  assumes "smap_ok m" "smap_ok m'" "map_of m = map_of m'"
  shows "m = m'"
proof (rule map_sorted_distinct_set_unique [where f = fst])
  show "inj_on fst (set m \<union> set m')"
  proof (rule inj_onI)
    fix p q assume pq: "p \<in> set m \<union> set m'" "q \<in> set m \<union> set m'" "fst p = fst q"
    have "map_of m (fst r) = Some (snd r)" if "r \<in> set m \<union> set m'" for r
    proof (cases "r \<in> set m")
      case True
      with assms(1) show ?thesis by (simp add: smap_ok_map_of_iff)
    next
      case False
      with that have "r \<in> set m'" by simp
      with assms(2) have "map_of m' (fst r) = Some (snd r)" by (simp add: smap_ok_map_of_iff)
      with assms(3) show ?thesis by simp
    qed
    from this[OF pq(1)] this[OF pq(2)] pq(3) show "p = q" by (simp add: prod_eq_iff)
  qed
  show "sorted (map fst m)" "sorted (map fst m')" "distinct (map fst m)" "distinct (map fst m')"
    using assms(1,2) by (auto simp: smap_ok_def strict_sorted_iff)
  show "set m = set m'"
  proof (rule set_eqI)
    fix p :: "'a \<times> 'b"
    have "p \<in> set m \<longleftrightarrow> map_of m (fst p) = Some (snd p)"
      using assms(1) by (simp add: smap_ok_map_of_iff)
    also have "\<dots> \<longleftrightarrow> p \<in> set m'"
      using assms(2,3) by (simp add: smap_ok_map_of_iff)
    finally show "p \<in> set m \<longleftrightarrow> p \<in> set m'" .
  qed
qed

lemma map_of_map_vals:
  "map_of (map (\<lambda>(k, v). (k, g k v)) m) k = map_option (g k) (map_of m k)"
  by (induction m) auto

lemma map_of_filter_distinct:
  "distinct (map fst m) \<Longrightarrow> map_of (filter (\<lambda>(k, v). P k v) m) k =
     (case map_of m k of None \<Rightarrow> None | Some v \<Rightarrow> if P k v then Some v else None)"
proof (induction m)
  case (Cons x m)
  obtain a b where x: "x = (a, b)" by force
  with Cons.prems have a: "map_of m a = None" by (simp add: map_of_eq_None_iff)
  from Cons show ?case by (auto simp: x a)
qed simp

lemma set_set_insert [smap_simps, simp]: "set (set_insert x s) = insert x (set s)"
  by (auto simp: set_insert_def set_insort_key)

lemma sset_ok_Nil [simp, intro]: "sset_ok []"
  by (simp add: sset_ok_def)

lemma sset_ok_insert [simp, intro]: "sset_ok s \<Longrightarrow> sset_ok (set_insert x s)"
  by (auto simp: sset_ok_def set_insert_def strict_sorted_iff sorted_insort distinct_insort)

lemma sset_ok_distinct: "sset_ok s \<Longrightarrow> distinct s"
  by (simp add: sset_ok_def strict_sorted_iff)

section \<open>The contract of a first-wins map\<close>

text \<open>
  Every file reader of the program fills a map by \<open>insert\<close>, one line after the other, and every
  later stage only looks entries up. What they rely on is that the first line of a key is the one
  that stays.
\<close>

locale first_wins =
  fixes empty :: 'm
    and ins :: "'k \<Rightarrow> 'v \<Rightarrow> 'm \<Rightarrow> 'm"
    and look :: "'m \<Rightarrow> 'k \<Rightarrow> 'v option"
  assumes look_empty: "look empty k = None"
    and look_same: "look (ins k v m) k = (case look m k of None \<Rightarrow> Some v | Some w \<Rightarrow> Some w)"
    and look_other: "k \<noteq> k' \<Longrightarrow> look (ins k v m) k' = look m k'"
begin

lemma look_fold:
  "look (fold (\<lambda>(k, v). ins k v) kvs m) k =
     (case look m k of None \<Rightarrow> map_of kvs k | Some w \<Rightarrow> Some w)"
proof (induction kvs arbitrary: m)
  case Nil
  then show ?case by (simp split: option.split)
next
  case (Cons p kvs)
  obtain a b where p: "p = (a, b)" by force
  show ?case
  proof (cases "a = k")
    case True
    then show ?thesis using Cons.IH by (simp add: p look_same split: option.split)
  next
    case False
    then show ?thesis using Cons.IH by (simp add: p look_other split: option.split)
  qed
qed

lemma look_build: "look (fold (\<lambda>(k, v). ins k v) kvs empty) k = map_of kvs k"
  by (simp add: look_fold look_empty)

end

interpretation std_map: first_wins "[]" map_insert map_of
  by unfold_locales (auto simp: map_of_map_insert split: option.split)

lemma map_of_fold_insert:
  "map_of (fold (\<lambda>(k, v). map_insert k v) kvs []) = map_of kvs"
  by (rule ext) (rule std_map.look_build)

lemma smap_ok_fold_insert:
  "smap_ok m \<Longrightarrow> smap_ok (fold (\<lambda>(k, v). map_insert k v) kvs m)"
  by (induction kvs arbitrary: m) auto

lemma fold_insert_id:
  assumes "smap_ok m"
  shows "fold (\<lambda>(k, v). map_insert k v) m [] = m"
  by (rule smap_eqI) (simp_all add: assms smap_ok_fold_insert map_of_fold_insert)

section \<open>Loops that may leave the function\<close>

text \<open>
  A \<open>for\<close> loop over a container whose body can abort (an \<open>exit\<close>, a trap) threads its state
  through a sum: \<open>Inl\<close> is how the program ended.
\<close>

fun foldR :: "('a \<Rightarrow> 's \<Rightarrow> 'e + 's) \<Rightarrow> 'a list \<Rightarrow> 's \<Rightarrow> 'e + 's" where
  "foldR f [] s = Inr s"
| "foldR f (x # xs) s = (case f x s of Inl e \<Rightarrow> Inl e | Inr s' \<Rightarrow> foldR f xs s')"

definition bindR :: "'e + 'a \<Rightarrow> ('a \<Rightarrow> 'e + 'b) \<Rightarrow> 'e + 'b" where
  "bindR r f = (case r of Inl e \<Rightarrow> Inl e | Inr a \<Rightarrow> f a)"

lemma bindR_simps [simp]: "bindR (Inl e) f = Inl e" "bindR (Inr a) f = f a"
  by (simp_all add: bindR_def)

lemma bindR_Inr_iff: "bindR r f = Inr b \<longleftrightarrow> (\<exists>a. r = Inr a \<and> f a = Inr b)"
  by (cases r) auto

lemma foldR_append:
  "foldR f (xs @ ys) s = (case foldR f xs s of Inl e \<Rightarrow> Inl e | Inr s' \<Rightarrow> foldR f ys s')"
  by (induction xs arbitrary: s) (auto split: sum.split)

lemma foldR_inv:
  assumes "foldR f xs s = Inr t" and "P s"
    and "\<And>x u v. x \<in> set xs \<Longrightarrow> P u \<Longrightarrow> f x u = Inr v \<Longrightarrow> P v"
  shows "P t"
  using assms
proof (induction xs arbitrary: s)
  case (Cons x xs)
  from Cons.prems(1) obtain u where u: "f x s = Inr u" "foldR f xs u = Inr t"
    by (auto split: sum.splits)
  from Cons.prems(2,3) u(1) have "P u" by auto
  from Cons.IH[OF u(2) this] Cons.prems(3) show ?case by auto
qed simp

lemma foldR_total:
  assumes "P s" and "\<And>x u. x \<in> set xs \<Longrightarrow> P u \<Longrightarrow> \<exists>v. f x u = Inr v \<and> P v"
  shows "\<exists>t. foldR f xs s = Inr t \<and> P t"
  using assms
proof (induction xs arbitrary: s)
  case (Cons x xs)
  then obtain u where "f x s = Inr u" "P u" by (metis list.set_intros(1))
  with Cons.IH[OF this(2)] Cons.prems(2) show ?case by (metis list.set_intros(2) foldR.simps(2) sum.case(2))
qed simp

lemma foldR_all_Inr:
  assumes "\<And>x u. x \<in> set xs \<Longrightarrow> f x u = Inr (g x u)"
  shows "foldR f xs s = Inr (fold g xs s)"
  using assms by (induction xs arbitrary: s) auto

text \<open>The loops of the compiler passes: \<open>None\<close> is a compiler that does not come out of the body.\<close>

fun foldO :: "('x \<Rightarrow> 's \<Rightarrow> 's option) \<Rightarrow> 'x list \<Rightarrow> 's \<Rightarrow> 's option" where
  "foldO f [] s = Some s"
| "foldO f (x # xs) s = Option.bind (f x s) (foldO f xs)"

lemma foldO_inv:
  assumes "foldO f xs s = Some s'" "P s" "\<And>x s t. x \<in> set xs \<Longrightarrow> f x s = Some t \<Longrightarrow> P s \<Longrightarrow> P t"
  shows "P s'"
  using assms by (induction xs arbitrary: s) (auto simp: bind_eq_Some_conv)

text \<open>An element's own effects are in the result: every step keeps what it got.\<close>

lemma foldO_member:
  assumes "foldO f xs s = Some s'" "x \<in> set xs" "\<And>x s t. f x s = Some t \<Longrightarrow> set (fst s) \<subseteq> set (fst t)"
  shows "\<exists>t u. f x t = Some u \<and> set (fst u) \<subseteq> set (fst s')"
  using assms(1,2)
proof (induction xs arbitrary: s)
  case (Cons y xs)
  from Cons.prems(1) obtain t where t: "f y s = Some t" "foldO f xs t = Some s'" by (auto simp: bind_eq_Some_conv)
  have "set (fst t) \<subseteq> set (fst s')"
    by (rule foldO_inv[where P = "\<lambda>u. set (fst t) \<subseteq> set (fst u)", OF t(2)]) (use assms(3) in blast)+
  with t(1) have "x = y \<Longrightarrow> ?case" by blast
  with Cons.IH[OF t(2)] Cons.prems(2) show ?case by auto
qed simp

lemma foldO_all:
  assumes "foldO f xs s = Some s'" "P s"
    "\<And>x s t. x \<in> set xs \<Longrightarrow> f x s = Some t \<Longrightarrow> P s \<Longrightarrow> P t \<and> Q x t \<and> (\<forall>y. Q y s \<longrightarrow> Q y t)"
  shows "P s' \<and> (\<forall>x\<in>set xs. Q x s') \<and> (\<forall>y. Q y s \<longrightarrow> Q y s')"
  using assms
proof (induction xs arbitrary: s)
  case (Cons x xs)
  from Cons.prems(1) obtain t where t: "f x s = Some t" "foldO f xs t = Some s'" by (auto simp: bind_eq_Some_conv)
  from Cons.prems(3)[OF _ t(1) Cons.prems(2)] have x: "P t" "Q x t" "\<forall>y. Q y s \<longrightarrow> Q y t" by simp_all
  have "P s' \<and> (\<forall>x\<in>set xs. Q x s') \<and> (\<forall>y. Q y t \<longrightarrow> Q y s')"
    by (rule Cons.IH[OF t(2) x(1)]) (rule Cons.prems(3), simp_all)
  with x(2,3) show ?case by simp
qed simp

section \<open>The first element of a list with a property\<close>

lemma find_SomeD: "find P xs = Some x \<Longrightarrow> P x \<and> x \<in> set xs"
  by (induction xs) (auto split: if_splits)

lemma find_distinct: "distinct (map f xs) \<Longrightarrow> x \<in> set xs \<Longrightarrow> find (\<lambda>y. f y = f x) xs = Some x"
  by (induction xs) auto

lemma find_append: "find P (xs @ ys) = (case find P xs of None \<Rightarrow> find P ys | Some x \<Rightarrow> Some x)"
  by (induction xs) auto

section \<open>Numbers in decimal\<close>

text \<open>\<open>to_string\<close> and \<open>operator<<\<close> of a non-negative number.\<close>

fun digits_of :: "nat \<Rightarrow> string" where
  "digits_of n = (if n < 10 then [char_of (48 + n)]
     else digits_of (n div 10) @ [char_of (48 + n mod 10)])"

declare digits_of.simps [simp del]

end
