(* ===== verification/Runtime.thy ===== *)
theory Runtime
  imports Bitype_Prelude "HOL-Library.Word"
begin

unbundle bit_operations_syntax

text \<open>
  The run-time library, \<open>projects/compiler-rt/lib/bitype/bitype.{h,cpp}\<close>, on x86-64.
  The library keeps, for every 8-byte slot of the program's address space, a pair of 8-byte words
  in a two-level table: the address of the safe-cast code of the object that starts there, and a
  \<open>size_offset\<close> structure. The model keeps the table the way the code does, as words in memory
  (\<open>cells\<close>, the contents of the mapped words by address), so that two tables overlapping would be
  visible. \<open>mmap\<close> belongs to the operating system and is the parameter \<open>os\<close>: the address the
  n-th call returns, \<open>None\<close> for \<open>MAP_FAILED\<close>. The code arrays are constants of the instrumented
  module, so their bytes are a parameter (\<open>rodata\<close>) and not part of the state. What the library
  prints is kept as the list of reported debug indices; its progress messages are left out.
\<close>

section \<open>Constants and state\<close>

type_synonym addr = "64 word"
type_synonym u64 = "64 word"
type_synonym u32 = "32 word"
type_synonym u8 = "8 word"

definition L1_BITS :: u64 where "L1_BITS = push_bit 22 1"
definition L2_BITS :: u64 where "L2_BITS = push_bit 23 1"
definition L1_MASK :: u64 where "L1_MASK = push_bit 22 1 - 1"
definition L2_MASK :: u64 where "L2_MASK = push_bit 23 1 - 1"
definition L2_NUM :: nat where "L2_NUM = 26"

datatype alloc_type = STACKALLOC | HEAPALLOC | GLOBALALLOC | REALLOC | PLACEMENTNEW | REINTERPRET

text \<open>Indices of \<open>count_index\<close>.\<close>

definition numGloUp :: nat where "numGloUp = 0"
definition numStackUp :: nat where "numStackUp = 1"
definition numHeapUp :: nat where "numHeapUp = 3"

definition BITYPE_ERROR :: int where "BITYPE_ERROR = -10"
definition BitypePageNum :: u64 where "BitypePageNum = 10"

text \<open>\<open>mmap_size\<close> is in bytes, \<open>added_memory_size\<close> in pointers.\<close>

definition mmap_size :: u64 where "mmap_size = L2_BITS * 8 * BitypePageNum * 2"
definition added_memory_size :: u64 where "added_memory_size = L2_BITS * BitypePageNum * 2"
definition init_len :: u64 where
  "init_len = L1_BITS * 8 + L2_BITS * 8 * BitypePageNum * 2"

definition debugArray_size :: int where "debugArray_size = 10000"

text \<open>How a call can end without returning: \<open>exit\<close>, or an access outside an array.\<close>

datatype rt_error = Exit int | OutOfBounds

record runtime =
  cells :: "addr \<Rightarrow> u64"
  LookupStart :: addr
  SecondLevelStart :: addr
  SecondLevelEnd :: addr
  mmaps :: nat
  debugArray :: "nat \<Rightarrow> bool"
  reports :: "int list"
  count_index :: "nat \<Rightarrow> u64"

type_synonym os = "nat \<Rightarrow> addr option"

text \<open>
  \<open>struct size_offset\<close> in one word, little endian: \<open>size\<close> in the low half, \<open>offset\<close> in the high
  half.
\<close>

definition so_pack :: "u32 \<Rightarrow> u32 \<Rightarrow> u64" where
  "so_pack sz off = (push_bit 32 (ucast off) OR ucast sz)"

definition so_size :: "u64 \<Rightarrow> u32" where
  "so_size c = ucast c"

definition so_offset :: "u64 \<Rightarrow> u32" where
  "so_offset c = ucast (drop_bit 32 c)"

section \<open>Memory and the two-level index\<close>

definition l1_index :: "addr \<Rightarrow> u64" where
  "l1_index a = (drop_bit L2_NUM a AND L1_MASK)"

definition l2_index :: "addr \<Rightarrow> u64" where
  "l2_index a = (drop_bit 3 a AND L2_MASK)"

text \<open>The same index where the code keeps it in an \<open>unsigned\<close>.\<close>

definition l2_index32 :: "addr \<Rightarrow> u32" where
  "l2_index32 a = ucast (drop_bit 3 a AND L2_MASK)"

definition read_l1 :: "runtime \<Rightarrow> u64 \<Rightarrow> addr" where
  "read_l1 s idx1 = cells s (LookupStart s + 8 * idx1)"

definition write_cell :: "addr \<Rightarrow> u64 \<Rightarrow> u64 \<Rightarrow> runtime \<Rightarrow> runtime" where
  "write_cell level2 idx v s = s\<lparr>cells := (cells s)(level2 + 8 * idx := v)\<rparr>"

definition read_cell :: "addr \<Rightarrow> u64 \<Rightarrow> runtime \<Rightarrow> u64" where
  "read_cell level2 idx s = cells s (level2 + 8 * idx)"

definition write_size :: "addr \<Rightarrow> u64 \<Rightarrow> u32 \<Rightarrow> runtime \<Rightarrow> runtime" where
  "write_size level2 idx sz s =
     write_cell level2 idx (so_pack sz (so_offset (read_cell level2 idx s))) s"

definition write_offset :: "addr \<Rightarrow> u64 \<Rightarrow> u32 \<Rightarrow> runtime \<Rightarrow> runtime" where
  "write_offset level2 idx off s =
     write_cell level2 idx (so_pack (so_size (read_cell level2 idx s)) off) s"

text \<open>An anonymous mapping is filled with zeros.\<close>

definition zero_fill :: "addr \<Rightarrow> u64 \<Rightarrow> (addr \<Rightarrow> u64) \<Rightarrow> addr \<Rightarrow> u64" where
  "zero_fill base len m = (\<lambda>a. if a - base < len then 0 else m a)"

definition bitype_mmap :: "os \<Rightarrow> u64 \<Rightarrow> runtime \<Rightarrow> rt_error + addr \<times> runtime" where
  "bitype_mmap os len s =
     (case os (mmaps s) of
        None \<Rightarrow> Inl (Exit BITYPE_ERROR)
      | Some a \<Rightarrow> Inr (a, s\<lparr>cells := zero_fill a len (cells s), mmaps := Suc (mmaps s)\<rparr>))"

definition bitypeInitialization :: "os \<Rightarrow> runtime \<Rightarrow> rt_error + runtime" where
  "bitypeInitialization os s =
     bindR (bitype_mmap os init_len s) (\<lambda>(a, s).
       Inr (s\<lparr>LookupStart := a,
              SecondLevelStart := a + 8 * L1_BITS,
              SecondLevelEnd := a + 8 * (init_len div 8)\<rparr>))"

definition bitype_malloc_new_space :: "os \<Rightarrow> runtime \<Rightarrow> rt_error + runtime" where
  "bitype_malloc_new_space os s =
     bindR (bitype_mmap os mmap_size s) (\<lambda>(a, s).
       Inr (s\<lparr>SecondLevelStart := a, SecondLevelEnd := a + 8 * added_memory_size\<rparr>))"

text \<open>
  The block every update starts with: the second-level table of an index, taken from the pool (and
  the pool refilled) when the index has none.
\<close>

definition level2_or_new :: "os \<Rightarrow> u64 \<Rightarrow> runtime \<Rightarrow> rt_error + addr \<times> runtime" where
  "level2_or_new os idx1 s =
     (let level2 = read_l1 s idx1 in
      if level2 \<noteq> 0 then Inr (level2, s)
      else bindR (if SecondLevelStart s \<ge> SecondLevelEnd s
                  then bitype_malloc_new_space os s else Inr s)
        (\<lambda>s. let tmp = SecondLevelStart s in
           Inr (tmp, (write_cell (LookupStart s) idx1 tmp s)
                       \<lparr>SecondLevelStart := tmp + 8 * (L2_BITS * 2)\<rparr>)))"

section \<open>Updates\<close>

definition bitype_update_arraySize :: "os \<Rightarrow> addr \<Rightarrow> u32 \<Rightarrow> runtime \<Rightarrow> rt_error + runtime" where
  "bitype_update_arraySize os thisPtr ArraySize s =
     (if thisPtr = 0 then Inr s
      else bindR (level2_or_new os (l1_index thisPtr) s) (\<lambda>(level22, s).
        let idx22 = push_bit 1 (l2_index32 thisPtr) + 1
        in Inr (write_size level22 (ucast idx22) ArraySize s)))"

definition bitype_direct_updateObjTrace ::
  "os \<Rightarrow> addr \<Rightarrow> addr \<Rightarrow> u32 \<Rightarrow> runtime \<Rightarrow> rt_error + runtime" where
  "bitype_direct_updateObjTrace os thisPtr referenceAddr offset s =
     (let idx1 = l1_index thisPtr;
          idx2 = push_bit 1 (l2_index thisPtr);
          idx22 = idx2 + 1
      in bindR (level2_or_new os idx1 s) (\<lambda>(level2, s).
           Inr (write_offset level2 idx22 offset
                 (write_size level2 idx22 0
                   (write_cell level2 idx2 referenceAddr s)))))"

text \<open>One round of the loop of \<open>__bitype_updateObjTrace\<close>; \<open>TypeSize * i\<close> is a 32-bit product.\<close>

definition updateObjTrace_round ::
  "os \<Rightarrow> addr \<Rightarrow> addr \<Rightarrow> u32 \<Rightarrow> u32 \<Rightarrow> u32 \<Rightarrow> runtime \<Rightarrow> rt_error + runtime" where
  "updateObjTrace_round os thisPtr referenceAddr TypeSize offset i s =
     (let addr = thisPtr + ucast (TypeSize * i);
          idx1 = l1_index addr;
          idx2 = push_bit 1 (l2_index32 addr);
          idx22 = idx2 + 1
      in bindR (level2_or_new os idx1 s) (\<lambda>(level2, s).
           Inr (write_offset level2 (ucast idx22) offset
                 (write_size level2 (ucast idx22) 0
                   (write_cell level2 (ucast idx2) referenceAddr s)))))"

function updateObjTrace_loop ::
  "os \<Rightarrow> addr \<Rightarrow> addr \<Rightarrow> u32 \<Rightarrow> u32 \<Rightarrow> u32 \<Rightarrow> u32 \<Rightarrow> runtime \<Rightarrow> rt_error + runtime" where
  "updateObjTrace_loop os thisPtr referenceAddr TypeSize ArraySize offset i s =
     (if i < ArraySize
      then (case updateObjTrace_round os thisPtr referenceAddr TypeSize offset i s of
              Inl e \<Rightarrow> Inl e
            | Inr s' \<Rightarrow>
                updateObjTrace_loop os thisPtr referenceAddr TypeSize ArraySize offset (i + 1) s')
      else Inr s)"
  by pat_completeness auto
termination
proof (relation "measure (\<lambda>(os, t, r, ts, n, off, i, s). unat (n - i))", goal_cases)
  case 1
  show ?case by simp
next
  case (2 os t r ts n off i s s')
  then have "n - i \<noteq> 0" by auto
  then have "unat (n - i - 1) < unat (n - i)" by (rule measure_unat)
  then show ?case by (simp add: diff_diff_add)
qed

definition bitype_updateObjTrace ::
  "os \<Rightarrow> addr \<Rightarrow> addr \<Rightarrow> u32 \<Rightarrow> u32 \<Rightarrow> u32 \<Rightarrow> runtime \<Rightarrow> rt_error + runtime" where
  "bitype_updateObjTrace os thisPtr referenceAddr TypeSize ArraySize offset s =
     updateObjTrace_loop os thisPtr referenceAddr TypeSize ArraySize offset 0 s"

definition bitype_handle_reinterpret_cast ::
  "os \<Rightarrow> addr \<Rightarrow> addr \<Rightarrow> u32 \<Rightarrow> runtime \<Rightarrow> rt_error + runtime" where
  "bitype_handle_reinterpret_cast os thisPtr referenceAddr offset s =
     (let idx1 = l1_index thisPtr;
          idx2 = push_bit 1 (l2_index thisPtr)
      in bindR (level2_or_new os idx1 s) (\<lambda>(level2, s).
        let idx22 = idx2 + 1 in
        if read_cell level2 idx2 s \<noteq> 0 \<and> so_offset (read_cell level2 idx22 s) \<noteq> -1 then Inr s
        else Inr (write_offset level2 idx22 (-1)
                   (write_size level2 idx22 0
                     (write_cell level2 idx2 referenceAddr s)))))"

section \<open>Erasures\<close>

definition bitype_direct_eraseObj :: "addr \<Rightarrow> runtime \<Rightarrow> runtime" where
  "bitype_direct_eraseObj thisPtr s =
     (let idx1 = l1_index thisPtr;
          idx2 = push_bit 1 (l2_index thisPtr);
          level2 = read_l1 s idx1
      in if level2 \<noteq> 0 then write_cell level2 (idx2 + 1) 0 (write_cell level2 idx2 0 s) else s)"

definition bitype_direct_eraseArraySize :: "addr \<Rightarrow> runtime \<Rightarrow> runtime" where
  "bitype_direct_eraseArraySize thisPtr s =
     (if thisPtr = 0 then s
      else let idx1 = l1_index thisPtr;
               idx2 = push_bit 1 (l2_index thisPtr) + 1;
               level2 = read_l1 s idx1
           in if level2 \<noteq> 0 then write_cell level2 idx2 0 s else s)"

definition eraseObj_round :: "addr \<Rightarrow> u32 \<Rightarrow> u32 \<Rightarrow> runtime \<Rightarrow> runtime" where
  "eraseObj_round thisPtr TypeSize i s =
     (let addr = thisPtr + ucast (TypeSize * i);
          idx1 = l1_index addr;
          idx2 = push_bit 1 (l2_index addr);
          level2 = read_l1 s idx1
      in if level2 \<noteq> 0 then write_cell level2 idx2 0 s else s)"

text \<open>
  The loop counter is a \<open>uint32_t\<close> and the bound an \<open>unsigned long\<close>: for a bound of
  \<open>2 ^ 32\<close> or more the counter wraps and the loop never ends. \<open>None\<close> is not returning.
\<close>

partial_function (option) eraseObj_loop ::
  "addr \<Rightarrow> u32 \<Rightarrow> u64 \<Rightarrow> u32 \<Rightarrow> runtime \<Rightarrow> runtime option" where
  "eraseObj_loop thisPtr TypeSize ArraySize i s =
     (if ucast i < ArraySize
      then eraseObj_loop thisPtr TypeSize ArraySize (i + 1) (eraseObj_round thisPtr TypeSize i s)
      else Some s)"

definition bitype_eraseObj ::
  "addr \<Rightarrow> addr \<Rightarrow> u32 \<Rightarrow> u64 \<Rightarrow> alloc_type \<Rightarrow> runtime \<Rightarrow> runtime option" where
  "bitype_eraseObj thisPtr objAddr TypeSize ArraySize AllocType s =
     (if AllocType = HEAPALLOC \<or> AllocType = REALLOC
      then let level2 = read_l1 s (l1_index objAddr) in
           if level2 = 0 then Some s
           else let sized = so_size (read_cell level2 (push_bit 1 (l2_index objAddr) + 1) s);
                    n = (if sized \<noteq> 0 then ucast sized else 1)
                in eraseObj_loop thisPtr TypeSize n 0 s
      else eraseObj_loop thisPtr TypeSize ArraySize 0 s)"

section \<open>Reports and the verification of a cast\<close>

definition printTypeConfusion :: "int \<Rightarrow> runtime \<Rightarrow> runtime" where
  "printTypeConfusion index s = s\<lparr>reports := reports s @ [index]\<rparr>"

text \<open>\<open>print_confusion_inline\<close>: a non-negative location is reported once.\<close>

definition print_confusion_inline :: "int \<Rightarrow> runtime \<Rightarrow> rt_error + runtime" where
  "print_confusion_inline debug s =
     (if debug < 0 then Inr (printTypeConfusion debug s)
      else if debug \<ge> debugArray_size then Inl OutOfBounds
      else if \<not> debugArray s (nat debug)
      then Inr (printTypeConfusion debug (s\<lparr>debugArray := (debugArray s)(nat debug := True)\<rparr>))
      else Inr s)"

text \<open>The exported function with the same body, which inlined checks call.\<close>

definition bitype_print_type_confusion :: "int \<Rightarrow> runtime \<Rightarrow> rt_error + runtime" where
  "bitype_print_type_confusion debug s =
     (if debug < 0 then Inr (printTypeConfusion debug s)
      else if debug \<ge> debugArray_size then Inl OutOfBounds
      else if \<not> debugArray s (nat debug)
      then Inr (printTypeConfusion debug (s\<lparr>debugArray := (debugArray s)(nat debug := True)\<rparr>))
      else Inr s)"

definition confusion :: "int \<Rightarrow> runtime \<Rightarrow> rt_error + addr \<times> runtime" where
  "confusion debugIndex s = bindR (print_confusion_inline debugIndex s) (\<lambda>s. Inr (0, s))"

text \<open>The final test of a cast against the code array of the object.\<close>

definition check_code ::
  "(addr \<Rightarrow> u8) \<Rightarrow> addr \<Rightarrow> addr \<Rightarrow> u32 \<Rightarrow> u8 \<Rightarrow> int \<Rightarrow> runtime \<Rightarrow> rt_error + addr \<times> runtime" where
  "check_code rodata thisPtr referenceAddr index code debugIndex s =
     (let tempChar = rodata (referenceAddr + ucast index) in
      if (tempChar XOR code) > tempChar then confusion debugIndex s
      else Inr (thisPtr, s))"

definition bitype_verify_cast ::
  "(addr \<Rightarrow> u8) \<Rightarrow> addr \<Rightarrow> addr \<Rightarrow> u32 \<Rightarrow> u8 \<Rightarrow> int \<Rightarrow> runtime \<Rightarrow> rt_error + addr \<times> runtime" where
  "bitype_verify_cast rodata sourcePtr thisPtr index code debugIndex s =
     (if sourcePtr = 0 then Inr (0, s)
      else let index = index + 2;
               level2 = read_l1 s (l1_index sourcePtr)
        in if level2 = 0 then Inr (sourcePtr, s)
      else let idx2 = push_bit 1 (l2_index32 sourcePtr);
               referenceAddr = read_cell level2 (ucast idx2) s
        in if referenceAddr = 0 then Inr (sourcePtr, s)
      else if sourcePtr \<noteq> thisPtr
      then let OffsetTmp = so_offset (read_cell level2 (ucast (idx2 + 1)) s);
               OffsetTmp = (if OffsetTmp = -1 then 0 else OffsetTmp);
               offset = thisPtr - (sourcePtr - scast OffsetTmp)
        in if sint offset < 0 then confusion debugIndex s
        else let level2 = read_l1 s (l1_index thisPtr)
        in if level2 = 0 then confusion debugIndex s
        else let referenceAddr = read_cell level2 (ucast (push_bit 1 (l2_index32 thisPtr))) s
        in if referenceAddr = 0 then confusion debugIndex s
        else check_code rodata thisPtr referenceAddr index code debugIndex s
      else check_code rodata thisPtr referenceAddr index code debugIndex s)"

definition bitype_cast_verification ::
  "(addr \<Rightarrow> u8) \<Rightarrow> addr \<Rightarrow> addr \<Rightarrow> u32 \<Rightarrow> u8 \<Rightarrow> int \<Rightarrow> runtime \<Rightarrow> rt_error + runtime" where
  "bitype_cast_verification rodata sourcePtr thisPtr index code debugIndex s =
     bindR (bitype_verify_cast rodata sourcePtr thisPtr index code debugIndex s) (\<lambda>(_, s). Inr s)"

definition bitype_dynamic_cast_verification ::
  "(addr \<Rightarrow> u8) \<Rightarrow> addr \<Rightarrow> u32 \<Rightarrow> u8 \<Rightarrow> runtime \<Rightarrow> rt_error + addr \<times> runtime" where
  "bitype_dynamic_cast_verification rodata thisPtr index code s =
     bitype_verify_cast rodata thisPtr thisPtr index code (-1) s"

section \<open>Statistics\<close>

text \<open>\<open>IncVal\<close> takes its count as an \<open>int\<close> and adds it, sign-extended, to an \<open>unsigned long\<close>.\<close>

definition IncVal :: "nat \<Rightarrow> u32 \<Rightarrow> runtime \<Rightarrow> runtime" where
  "IncVal index count s =
     s\<lparr>count_index := (count_index s)(index := count_index s index + scast count)\<rparr>"

fun obj_update_count :: "alloc_type \<Rightarrow> u64 \<Rightarrow> runtime \<Rightarrow> runtime" where
  "obj_update_count STACKALLOC vla s = IncVal numStackUp (ucast vla) s"
| "obj_update_count GLOBALALLOC vla s = IncVal numGloUp (ucast vla) s"
| "obj_update_count HEAPALLOC vla s = IncVal numHeapUp (ucast vla) s"
| "obj_update_count REALLOC vla s = IncVal numHeapUp (ucast vla) s"
| "obj_update_count _ vla s = s"

end
