(* ===== verification/RuntimeTables.thy ===== *)
theory RuntimeTables
  imports Runtime
begin

unbundle bit_operations_syntax

text \<open>
  The two-level table of the run-time library: what the operating system has to promise about
  \<open>mmap\<close>, the invariant that keeps the second-level tables apart, and the abstraction of the table
  to two functions on slots, \<open>ref_of\<close> (the code array of the object at a slot) and \<open>meta_of\<close>
  (its \<open>size_offset\<close> word). Every update and erasure keeps the invariant and is described by what
  it does to the two functions.
\<close>

declare updateObjTrace_loop.simps [simp del]
declare push_bit_Suc [simp del] One_nat_def [simp del]

named_theorems rt_defs \<open>definitions of the run-time operations\<close>

section \<open>What mmap promises\<close>

definition region_len :: "nat \<Rightarrow> nat" where
  "region_len i = (if i = 0 then 2 ^ 25 + 10 * 2 ^ 27 else 10 * 2 ^ 27)"

text \<open>
  Documented behaviour of \<open>mmap\<close> with \<open>MAP_PRIVATE | MAP_ANONYMOUS\<close> in a process that never unmaps:
  a mapping is not at address 0, lies below the end of the address space, and does not meet an
  earlier one.
\<close>

definition os_ok :: "os \<Rightarrow> bool" where
  "os_ok os \<longleftrightarrow>
     (\<forall>i a. os i = Some a \<longrightarrow> a \<noteq> 0 \<and> unat a + region_len i < 2 ^ 64) \<and>
     (\<forall>i j a b. i \<noteq> j \<longrightarrow> os i = Some a \<longrightarrow> os j = Some b \<longrightarrow>
        unat a + region_len i \<le> unat b \<or> unat b + region_len j \<le> unat a)"

text \<open>Second-level tables are cut from the pools in order; table \<open>c\<close> lies at \<open>chunk_pos os c\<close>.\<close>

definition pool_pos :: "os \<Rightarrow> nat \<Rightarrow> nat" where
  "pool_pos os i = unat (the (os i)) + (if i = 0 then 2 ^ 25 else 0)"

definition chunk_pos :: "os \<Rightarrow> nat \<Rightarrow> nat" where
  "chunk_pos os c = pool_pos os (c div 10) + 2 ^ 27 * (c mod 10)"

abbreviation mapped :: "os \<Rightarrow> nat \<Rightarrow> bool" where
  "mapped os n \<equiv> \<forall>i<n. os i \<noteq> None"

section \<open>Words as numbers\<close>

lemma sizes [simp]:
  "L1_BITS = 0x400000" "L2_BITS = 0x800000" "L1_MASK = 0x3FFFFF" "L2_MASK = 0x7FFFFF"
  "mmap_size = 0x50000000" "init_len = 0x52000000" "added_memory_size = 0xA000000"
  by (simp_all add: L1_BITS_def L2_BITS_def L1_MASK_def L2_MASK_def mmap_size_def init_len_def
      added_memory_size_def BitypePageNum_def)

lemma unat_cell:
  fixes t i :: u64
  assumes "unat t + 8 * unat i < 2 ^ 64"
  shows "unat (t + 8 * i) = unat t + 8 * unat i"
proof -
  have "unat (8 * i) = 8 * unat i" using assms by (simp add: unat_word_ariths)
  with assms show ?thesis by (simp add: unat_word_ariths)
qed

lemma unat_of_nat64: "n < 2 ^ 64 \<Longrightarrow> unat (of_nat n :: u64) = n"
  by (simp add: unsigned_of_nat take_bit_nat_eq_self)

lemma l1_index_less: "unat (l1_index a) < 2 ^ 22"
proof -
  have "l1_index a = take_bit 22 (drop_bit 26 a)"
    by (simp add: l1_index_def L2_NUM_def take_bit_eq_mask mask_eq_exp_minus_1)
  then show ?thesis
    using take_bit_nat_less_exp[of 22 "unat (drop_bit 26 a)"] by (simp add: unsigned_take_bit_eq)
qed

lemma l2_index_take: "l2_index a = take_bit 23 (drop_bit 3 a)"
  by (simp add: l2_index_def take_bit_eq_mask mask_eq_exp_minus_1)

lemma l1_index_take: "l1_index a = take_bit 22 (drop_bit 26 a)"
  by (simp add: l1_index_def L2_NUM_def take_bit_eq_mask mask_eq_exp_minus_1)

lemma l2_index_less: "unat (l2_index a) < 2 ^ 23"
  using take_bit_nat_less_exp[of 23 "unat (drop_bit 3 a)"]
  by (simp add: l2_index_take unsigned_take_bit_eq)

lemma unat_idx2:
  "unat (push_bit 1 (l2_index a)) = 2 * unat (l2_index a)"
  "unat (push_bit 1 (l2_index a) + 1) = 2 * unat (l2_index a) + 1"
proof -
  have "push_bit 1 (l2_index a) = 2 * l2_index a" by (simp add: push_bit_eq_mult)
  then show *: "unat (push_bit 1 (l2_index a)) = 2 * unat (l2_index a)"
    using l2_index_less[of a] by (simp add: unat_word_ariths)
  show "unat (push_bit 1 (l2_index a) + 1) = 2 * unat (l2_index a) + 1"
    using l2_index_less[of a] unfolding unat_word_ariths * by simp
qed

lemma idx2_less:
  "unat (push_bit 1 (l2_index a)) < 2 ^ 24" "unat (push_bit 1 (l2_index a) + 1) < 2 ^ 24"
  unfolding unat_idx2 using l2_index_less[of a] by simp_all

lemma idx2_inj:
  "push_bit 1 (l2_index a) = push_bit 1 (l2_index b) \<longleftrightarrow> l2_index a = l2_index b"
  "push_bit 1 (l2_index a) + 1 = push_bit 1 (l2_index b) + 1 \<longleftrightarrow> l2_index a = l2_index b"
  "push_bit 1 (l2_index a) \<noteq> push_bit 1 (l2_index b) + 1"
  "push_bit 1 (l2_index a) + 1 \<noteq> push_bit 1 (l2_index b)"
proof -
  show "push_bit 1 (l2_index a) = push_bit 1 (l2_index b) \<longleftrightarrow> l2_index a = l2_index b"
    by (metis unat_idx2(1) mult_left_cancel zero_neq_numeral word_unat_eq_iff)
  then show "push_bit 1 (l2_index a) + 1 = push_bit 1 (l2_index b) + 1 \<longleftrightarrow> l2_index a = l2_index b"
    by simp
  have "even (unat (push_bit 1 (l2_index c)))" "odd (unat (push_bit 1 (l2_index c) + 1))" for c
    unfolding unat_idx2 by simp_all
  then show "push_bit 1 (l2_index a) \<noteq> push_bit 1 (l2_index b) + 1"
    "push_bit 1 (l2_index a) + 1 \<noteq> push_bit 1 (l2_index b)" by metis+
qed

text \<open>The 32-bit variants of the index lose nothing.\<close>

lemma unat_l2_index32: "unat (l2_index32 a) = unat (l2_index a)"
proof -
  have "unat (l2_index32 a) = unat (l2_index a) mod 2 ^ 32"
    by (simp add: l2_index32_def l2_index_def unsigned_ucast_eq take_bit_eq_mod)
  then show ?thesis using l2_index_less[of a] by simp
qed

lemma ucast_idx2 [simp]:
  "(ucast (push_bit 1 (l2_index32 a)) :: u64) = push_bit 1 (l2_index a)"
  "(ucast (push_bit 1 (l2_index32 a) + 1) :: u64) = push_bit 1 (l2_index a) + 1"
proof -
  have p: "push_bit 1 (l2_index32 a) = 2 * l2_index32 a" by (simp add: push_bit_eq_mult)
  have u: "unat (push_bit 1 (l2_index32 a)) = 2 * unat (l2_index a)"
    unfolding p using l2_index_less[of a] by (simp add: unat_word_ariths unat_l2_index32)
  have v: "unat (push_bit 1 (l2_index32 a) + 1) = 2 * unat (l2_index a) + 1"
    using l2_index_less[of a] unfolding unat_word_ariths u by simp
  have up: "unat (ucast x :: u64) = unat x" for x :: u32
    by (simp add: unsigned_ucast_eq take_bit_nat_eq_self order_less_le_trans [OF unsigned_less])
  show "(ucast (push_bit 1 (l2_index32 a)) :: u64) = push_bit 1 (l2_index a)"
    "(ucast (push_bit 1 (l2_index32 a) + 1) :: u64) = push_bit 1 (l2_index a) + 1"
    unfolding word_unat_eq_iff up u v unat_idx2 by simp_all
qed

section \<open>The size_offset word\<close>

lemma so_size_pack [simp]: "so_size (so_pack sz off) = sz"
  by (rule bit_word_eqI) (simp add: so_size_def so_pack_def bit_simps)

lemma so_offset_pack [simp]: "so_offset (so_pack sz off) = off"
  by (rule bit_word_eqI) (auto simp: so_offset_def so_pack_def bit_simps dest: bit_imp_le_length)

lemma so_pack_eta [simp]: "so_pack (so_size c) (so_offset c) = c"
  by (rule bit_word_eqI)
    (auto simp: so_size_def so_offset_def so_pack_def bit_simps)

lemma so_pack_0 [simp]: "so_pack 0 0 = 0" "so_size 0 = 0" "so_offset 0 = 0"
  by (simp_all add: so_pack_def so_size_def so_offset_def)

section \<open>Where the tables lie\<close>

lemma os_okD:
  assumes "os_ok os" "os i = Some a"
  shows "unat a + region_len i < 2 ^ 64" "a \<noteq> 0" "0 < unat a"
  using assms by (auto simp: os_ok_def unat_gt_0)

lemma os_ok_disjoint:
  assumes "os_ok os" "os i = Some a" "os j = Some b" "i \<noteq> j"
  shows "unat a + region_len i \<le> unat b \<or> unat b + region_len j \<le> unat a"
  using assms unfolding os_ok_def by blast

lemma pool_in_region:
  assumes "os i = Some a" "x \<le> 10 * 2 ^ 27"
  shows "unat a \<le> pool_pos os i + x" "pool_pos os i + x \<le> unat a + region_len i"
    "i = 0 \<Longrightarrow> unat a + 2 ^ 25 \<le> pool_pos os i + x"
  using assms by (auto simp: pool_pos_def region_len_def)

lemma chunk_end: "2 ^ 27 * (c mod 10) + 2 ^ 27 \<le> (10 * 2 ^ 27 :: nat)"
proof -
  have "c mod 10 + 1 \<le> 10" using mod_less_divisor[of 10 c] by linarith
  then show ?thesis by simp
qed

lemma cell_offset:
  assumes "k < (2 ^ 24 :: nat)"
  shows "2 ^ 27 * (c mod 10) + 8 * k < (10 * 2 ^ 27 :: nat)"
  using assms chunk_end[of c] by simp

lemma chunk_cell:
  assumes "os_ok os" "mapped os n" "c < 10 * n" "unat (k :: u64) < 2 ^ 24"
  shows "unat (of_nat (chunk_pos os c) + 8 * k :: u64) = chunk_pos os c + 8 * unat k"
    "unat (of_nat (chunk_pos os c) :: u64) = chunk_pos os c"
    "(of_nat (chunk_pos os c) :: u64) \<noteq> 0"
proof -
  let ?i = "c div 10"
  have "?i < n" using assms(3) by simp
  with assms(2) obtain a where a: "os ?i = Some a" by blast
  have "chunk_pos os c + 8 * unat k \<le> unat a + region_len ?i"
    using pool_in_region(2)[of os ?i a "2 ^ 27 * (c mod 10) + 8 * unat k", OF a] cell_offset[OF assms(4), of c]
    by (simp add: chunk_pos_def add.assoc)
  with os_okD(1)[OF assms(1) a] have lt: "chunk_pos os c + 8 * unat k < 2 ^ 64" by linarith
  then show u: "unat (of_nat (chunk_pos os c) :: u64) = chunk_pos os c"
    by (simp add: unat_of_nat64)
  show "unat (of_nat (chunk_pos os c) + 8 * k :: u64) = chunk_pos os c + 8 * unat k"
    using unat_cell[of "of_nat (chunk_pos os c)" k] u lt by simp
  have "0 < chunk_pos os c"
    using os_okD(3)[OF assms(1) a] a by (simp add: chunk_pos_def pool_pos_def)
  with u show "(of_nat (chunk_pos os c) :: u64) \<noteq> 0" by (metis unat_0 less_irrefl)
qed

lemma l1_cell:
  assumes "os_ok os" "os 0 = Some L" "unat (i :: u64) < 2 ^ 22"
  shows "unat (L + 8 * i) = unat L + 8 * unat i"
  by (rule unat_cell) (use os_okD(1)[OF assms(1,2)] assms(3) in \<open>simp add: region_len_def\<close>)

lemma l1_cell_inj:
  assumes "os_ok os" "os 0 = Some L" "unat (i :: u64) < 2 ^ 22" "unat (j :: u64) < 2 ^ 22"
  shows "L + 8 * i = L + 8 * j \<longleftrightarrow> i = j"
  using l1_cell[OF assms(1,2,3)] l1_cell[OF assms(1,2,4)]
  by (metis add_left_cancel mult_left_cancel zero_neq_numeral word_unat_eq_iff)

lemma l1_not_chunk:
  assumes "os_ok os" "mapped os n" "os 0 = Some L" "unat (i :: u64) < 2 ^ 22"
    "c < 10 * n" "unat (k :: u64) < 2 ^ 24"
  shows "L + 8 * i \<noteq> of_nat (chunk_pos os c) + 8 * k"
proof
  assume eq: "L + 8 * i = of_nat (chunk_pos os c) + 8 * k"
  let ?r = "c div 10"
  have "?r < n" using assms(5) by simp
  with assms(2) obtain a where a: "os ?r = Some a" by blast
  have "unat L + 8 * unat i = chunk_pos os c + 8 * unat k"
    using arg_cong[OF eq, of unat] chunk_cell(1)[OF assms(1,2,5,6)] l1_cell[OF assms(1,3,4)] by simp
  then have e: "unat L + 8 * unat i = pool_pos os ?r + (2 ^ 27 * (c mod 10) + 8 * unat k)"
    by (simp add: chunk_pos_def)
  have off: "2 ^ 27 * (c mod 10) + 8 * unat k < 10 * 2 ^ 27" by (rule cell_offset[OF assms(6)])
  show False
  proof (cases "?r = 0")
    case True
    with a assms(3) have "a = L" by simp
    with True e assms(4) a show False by (simp add: pool_pos_def)
  next
    case False
    with os_ok_disjoint[OF assms(1) assms(3) a]
    have "unat L + region_len 0 \<le> unat a \<or> unat a + region_len ?r \<le> unat L" by simp
    with e a False off assms(4) show False by (auto simp: pool_pos_def region_len_def)
  qed
qed

lemma chunk_inj:
  assumes "os_ok os" "mapped os n" "c < 10 * n" "d < 10 * n"
    "unat (k :: u64) < 2 ^ 24" "unat (l :: u64) < 2 ^ 24"
  shows "of_nat (chunk_pos os c) + 8 * k = of_nat (chunk_pos os d) + 8 * l \<longleftrightarrow> c = d \<and> k = l"
proof
  assume eq: "of_nat (chunk_pos os c) + 8 * k = of_nat (chunk_pos os d) + 8 * l"
  let ?i = "c div 10" and ?j = "d div 10"
  have "?i < n" "?j < n" using assms(3,4) by simp_all
  with assms(2) obtain a b where a: "os ?i = Some a" and b: "os ?j = Some b" by blast
  let ?x = "2 ^ 27 * (c mod 10) + 8 * unat k" and ?y = "2 ^ 27 * (d mod 10) + 8 * unat l"
  have off: "?x < 10 * 2 ^ 27" "?y < 10 * 2 ^ 27"
    by (rule cell_offset[OF assms(5)], rule cell_offset[OF assms(6)])
  have e: "pool_pos os ?i + ?x = pool_pos os ?j + ?y"
    using arg_cong[OF eq, of unat] chunk_cell(1)[OF assms(1,2,3,5)] chunk_cell(1)[OF assms(1,2,4,6)]
    by (simp add: chunk_pos_def)
  have ij: "?i = ?j"
  proof (rule ccontr)
    assume "?i \<noteq> ?j"
    with os_ok_disjoint[OF assms(1) a b]
    have "unat a + region_len ?i \<le> unat b \<or> unat b + region_len ?j \<le> unat a" by simp
    moreover have "unat a \<le> pool_pos os ?i + ?x" "pool_pos os ?i + ?x < unat a + region_len ?i"
      "unat b \<le> pool_pos os ?j + ?y" "pool_pos os ?j + ?y < unat b + region_len ?j"
      using off a b by (auto simp: pool_pos_def region_len_def)
    ultimately show False using e by linarith
  qed
  with e have xy: "?x = ?y" by simp
  have "?x div 2 ^ 27 = c mod 10" "?y div 2 ^ 27 = d mod 10"
    using assms(5,6) by simp_all
  with xy have m: "c mod 10 = d mod 10" by metis
  with ij have "c = d" by (metis div_mult_mod_eq)
  moreover from xy m have "unat k = unat l" by simp
  ultimately show "c = d \<and> k = l" by (simp add: word_unat_eq_iff)
qed simp

section \<open>The invariant\<close>

text \<open>
  \<open>C\<close> is the number of second-level tables handed out. Each index of the first level is 0 or holds
  one of them, no two the same; the tables not handed out yet are the rest of the last pool, and
  are still zero.
\<close>

definition rt_inv_at :: "os \<Rightarrow> nat \<Rightarrow> runtime \<Rightarrow> bool" where
  "rt_inv_at os C s \<longleftrightarrow>
     0 < mmaps s \<and> mapped os (mmaps s) \<and> os 0 = Some (LookupStart s) \<and>
     10 * (mmaps s - 1) \<le> C \<and> C \<le> 10 * mmaps s \<and>
     unat (SecondLevelStart s) = pool_pos os (mmaps s - 1) + 2 ^ 27 * (C - 10 * (mmaps s - 1)) \<and>
     unat (SecondLevelEnd s) = pool_pos os (mmaps s - 1) + 10 * 2 ^ 27 \<and>
     (\<forall>i. unat i < 2 ^ 22 \<longrightarrow> read_l1 s i = 0 \<or>
        (\<exists>c<C. read_l1 s i = of_nat (chunk_pos os c))) \<and>
     (\<forall>i j. unat i < 2 ^ 22 \<longrightarrow> unat j < 2 ^ 22 \<longrightarrow> read_l1 s i = read_l1 s j \<longrightarrow>
        read_l1 s i \<noteq> 0 \<longrightarrow> i = j) \<and>
     (\<forall>c k. C \<le> c \<longrightarrow> c < 10 * mmaps s \<longrightarrow> unat k < 2 ^ 24 \<longrightarrow>
        cells s (of_nat (chunk_pos os c) + 8 * k) = 0)"

definition rt_inv :: "os \<Rightarrow> runtime \<Rightarrow> bool" where
  "rt_inv os s \<longleftrightarrow> (\<exists>C. rt_inv_at os C s)"

lemma rt_inv_atD:
  assumes "rt_inv_at os C s"
  shows "0 < mmaps s" "mapped os (mmaps s)" "os 0 = Some (LookupStart s)"
    "10 * (mmaps s - 1) \<le> C" "C \<le> 10 * mmaps s"
    "unat (SecondLevelStart s) = pool_pos os (mmaps s - 1) + 2 ^ 27 * (C - 10 * (mmaps s - 1))"
    "unat (SecondLevelEnd s) = pool_pos os (mmaps s - 1) + 10 * 2 ^ 27"
  using assms by (auto simp: rt_inv_at_def)

lemma rt_inv_at_table:
  assumes "rt_inv_at os C s" "unat i < 2 ^ 22" "read_l1 s i \<noteq> 0"
  obtains c where "c < C" "read_l1 s i = of_nat (chunk_pos os c)"
  using assms by (auto simp: rt_inv_at_def)

lemma rt_inv_at_inj:
  assumes "rt_inv_at os C s" "unat i < 2 ^ 22" "unat j < 2 ^ 22"
    "read_l1 s i = read_l1 s j" "read_l1 s i \<noteq> 0"
  shows "i = j"
  using assms unfolding rt_inv_at_def by blast

lemma rt_inv_at_zero:
  assumes "rt_inv_at os C s" "C \<le> c" "c < 10 * mmaps s" "unat k < 2 ^ 24"
  shows "cells s (of_nat (chunk_pos os c) + 8 * k) = 0"
  using assms unfolding rt_inv_at_def by blast

section \<open>Writing into a table\<close>

lemma write_cell_sel [simp]:
  "LookupStart (write_cell t k v s) = LookupStart s"
  "SecondLevelStart (write_cell t k v s) = SecondLevelStart s"
  "SecondLevelEnd (write_cell t k v s) = SecondLevelEnd s"
  "mmaps (write_cell t k v s) = mmaps s"
  "debugArray (write_cell t k v s) = debugArray s"
  "reports (write_cell t k v s) = reports s"
  "count_index (write_cell t k v s) = count_index s"
  by (simp_all add: write_cell_def)

lemma read_l1_write_table:
  assumes "os_ok os" "rt_inv_at os C s" "unat i < 2 ^ 22" "read_l1 s i \<noteq> 0"
    "unat k < 2 ^ 24" "unat j < 2 ^ 22"
  shows "read_l1 (write_cell (read_l1 s i) k v s) j = read_l1 s j"
proof -
  obtain c where c: "c < C" "read_l1 s i = of_nat (chunk_pos os c)"
    using rt_inv_at_table[OF assms(2-4)] .
  note inv = rt_inv_atD[OF assms(2)]
  have "c < 10 * mmaps s" using c(1) inv(5) by simp
  then have "LookupStart s + 8 * j \<noteq> read_l1 s i + 8 * k"
    unfolding c(2) using l1_not_chunk[OF assms(1) inv(2,3) assms(6) _ assms(5)] by blast
  then show ?thesis by (simp add: read_l1_def write_cell_def)
qed

lemma read_cell_write_table:
  assumes "os_ok os" "rt_inv_at os C s" "unat i < 2 ^ 22" "read_l1 s i \<noteq> 0"
    "unat k < 2 ^ 24" "unat j < 2 ^ 22" "read_l1 s j \<noteq> 0" "unat l < 2 ^ 24"
  shows "read_cell (read_l1 s j) l (write_cell (read_l1 s i) k v s)
    = (if i = j \<and> k = l then v else read_cell (read_l1 s j) l s)"
proof -
  obtain c where c: "c < C" "read_l1 s i = of_nat (chunk_pos os c)"
    using rt_inv_at_table[OF assms(2-4)] .
  obtain d where d: "d < C" "read_l1 s j = of_nat (chunk_pos os d)"
    using rt_inv_at_table[OF assms(2,6,7)] .
  note inv = rt_inv_atD[OF assms(2)]
  have "c < 10 * mmaps s" "d < 10 * mmaps s" using c(1) d(1) inv(5) by simp_all
  then have "read_l1 s j + 8 * l = read_l1 s i + 8 * k \<longleftrightarrow> d = c \<and> l = k"
    unfolding c(2) d(2) using chunk_inj[OF assms(1) inv(2) _ _ assms(8) assms(5)] by blast
  moreover have "d = c \<longleftrightarrow> i = j"
    using rt_inv_at_inj[OF assms(2,3,6)] assms(4) c(2) d(2)
      chunk_inj[OF assms(1) inv(2) \<open>d < 10 * mmaps s\<close> \<open>c < 10 * mmaps s\<close>, of 0 0] by auto
  ultimately show ?thesis by (auto simp: read_cell_def write_cell_def)
qed

lemma rt_inv_write_table:
  assumes "os_ok os" "rt_inv_at os C s" "unat i < 2 ^ 22" "read_l1 s i \<noteq> 0" "unat k < 2 ^ 24"
  shows "rt_inv_at os C (write_cell (read_l1 s i) k v s)"
proof -
  obtain c where c: "c < C" "read_l1 s i = of_nat (chunk_pos os c)"
    using rt_inv_at_table[OF assms(2-4)] .
  note inv = rt_inv_atD[OF assms(2)]
  have cn: "c < 10 * mmaps s" using c(1) inv(5) by simp
  have z: "cells (write_cell (read_l1 s i) k v s) (of_nat (chunk_pos os d) + 8 * l) = 0"
    if "C \<le> d" "d < 10 * mmaps s" "unat l < 2 ^ 24" for d l
  proof -
    have "of_nat (chunk_pos os d) + 8 * l \<noteq> read_l1 s i + 8 * k"
      unfolding c(2) using chunk_inj[OF assms(1) inv(2) that(2) cn that(3) assms(5)] that(1) c(1)
      by simp
    with rt_inv_at_zero[OF assms(2) that] show ?thesis by (simp add: write_cell_def)
  qed
  have r: "read_l1 (write_cell (read_l1 s i) k v s) j = read_l1 s j" if "unat j < 2 ^ 22" for j
    by (rule read_l1_write_table[OF assms that])
  show ?thesis
    using assms(2) z unfolding rt_inv_at_def by (auto simp: r)
qed

section \<open>Initialisation and refilling the pool\<close>

lemma zero_fill_hit: "unat a \<le> unat x \<Longrightarrow> unat x < unat a + unat len \<Longrightarrow> zero_fill a len m x = 0"
  by (auto simp: zero_fill_def word_less_nat_alt unat_sub word_le_nat_alt)

lemma zero_fill_miss:
  assumes "unat x < unat a \<or> unat a + unat len \<le> unat x" "unat a + unat len < 2 ^ 64"
  shows "zero_fill a len m x = m x"
proof -
  have "\<not> x - a < len"
  proof (cases "unat x < unat a")
    case True
    then have "unat (x - a) = 2 ^ 64 + unat x - unat a"
      by (simp add: unat_sub_if' word_less_nat_alt word_le_nat_alt)
    then show ?thesis using assms(2) by (simp add: word_less_nat_alt)
  next
    case False
    with assms(1) show ?thesis by (simp add: word_less_nat_alt unat_sub word_le_nat_alt)
  qed
  then show ?thesis by (simp add: zero_fill_def)
qed

lemma unat_lens: "unat mmap_size = 10 * 2 ^ 27" "unat init_len = 2 ^ 25 + 10 * 2 ^ 27"
  by simp_all

lemma bitypeInitialization_inv:
  assumes "os_ok os" "mmaps s = 0" "bitypeInitialization os s = Inr s'"
  shows "rt_inv_at os 0 s'" "\<And>i. unat i < 2 ^ 22 \<Longrightarrow> read_l1 s' i = 0"
proof -
  obtain a where a: "os 0 = Some a"
    using assms by (auto simp: bitypeInitialization_def bitype_mmap_def bindR_def split: option.splits)
  with assms have s': "s' = s\<lparr>cells := zero_fill a init_len (cells s), mmaps := 1, LookupStart := a,
      SecondLevelStart := a + 8 * L1_BITS, SecondLevelEnd := a + 8 * (init_len div 8)\<rparr>"
    by (simp add: bitypeInitialization_def bitype_mmap_def One_nat_def)
  note b = os_okD[OF assms(1) a]
  have z: "cells s' x = 0" if "unat a \<le> unat x" "unat x < unat a + region_len 0" for x
    using that unat_lens(2) by (simp add: s' zero_fill_hit region_len_def del: sizes)
  show r: "read_l1 s' i = 0" if "unat i < 2 ^ 22" for i
    using z[of "a + 8 * i"] l1_cell[OF assms(1) a that] that
    by (simp add: read_l1_def region_len_def) (simp add: s')
  have m: "mapped os (mmaps s')" by (simp add: s' a)
  have c0: "cells s' (of_nat (chunk_pos os c) + 8 * k) = 0" if "c < 10" "unat k < 2 ^ 24" for c k
  proof (rule z)
    have "unat (of_nat (chunk_pos os c) + 8 * k :: u64) = chunk_pos os c + 8 * unat k"
      using chunk_cell(1)[OF assms(1) m _ that(2)] that(1) by (simp add: s')
    moreover have "chunk_pos os c = unat a + 2 ^ 25 + 2 ^ 27 * c"
      using that(1) a by (simp add: chunk_pos_def pool_pos_def)
    ultimately show "unat a \<le> unat (of_nat (chunk_pos os c) + 8 * k :: u64)"
      "unat (of_nat (chunk_pos os c) + 8 * k :: u64) < unat a + region_len 0"
      using that by (simp_all add: region_len_def)
  qed
  have "unat (a + 8 * L1_BITS) = unat a + 2 ^ 25"
    using unat_cell[of a L1_BITS] b(1) by (simp add: region_len_def)
  moreover have "unat (a + 8 * (init_len div 8)) = unat a + (2 ^ 25 + 10 * 2 ^ 27)"
    using unat_cell[of a "init_len div 8"] b(1) by (simp add: region_len_def)
  ultimately show "rt_inv_at os 0 s'"
    using r c0 a unfolding rt_inv_at_def by (auto simp: s' pool_pos_def simp del: sizes)
qed

lemma malloc_new_space_inv:
  assumes os: "os_ok os" and inv: "rt_inv_at os C s" and full: "SecondLevelStart s \<ge> SecondLevelEnd s"
    and ret: "bitype_malloc_new_space os s = Inr s'"
  shows "rt_inv_at os C s'" "SecondLevelStart s' < SecondLevelEnd s'" "C < 10 * mmaps s'"
    "C = 10 * mmaps s" "mmaps s' = Suc (mmaps s)" "LookupStart s' = LookupStart s"
    "\<And>i. unat i < 2 ^ 22 \<Longrightarrow> read_l1 s' i = read_l1 s i"
    "\<And>i k. unat i < 2 ^ 22 \<Longrightarrow> read_l1 s i \<noteq> 0 \<Longrightarrow> unat k < 2 ^ 24 \<Longrightarrow>
       read_cell (read_l1 s i) k s' = read_cell (read_l1 s i) k s"
proof -
  let ?n = "mmaps s"
  note d = rt_inv_atD[OF inv]
  obtain a where a: "os ?n = Some a"
    using ret by (auto simp: bitype_malloc_new_space_def bitype_mmap_def bindR_def split: option.splits)
  with ret have s': "s' = s\<lparr>cells := zero_fill a mmap_size (cells s), mmaps := Suc ?n,
      SecondLevelStart := a, SecondLevelEnd := a + 8 * added_memory_size\<rparr>"
    by (simp add: bitype_malloc_new_space_def bitype_mmap_def)
  note b = os_okD[OF os a]
  have rl: "region_len ?n = 10 * 2 ^ 27" using d(1) by (simp add: region_len_def)
  have "unat (SecondLevelEnd s) \<le> unat (SecondLevelStart s)" using full by (simp add: word_le_nat_alt)
  with d(4,5,6,7) have "10 \<le> C - 10 * (?n - 1)" by simp
  with d(1,4,5) show C: "C = 10 * ?n" by (cases ?n) simp_all
  then show "C < 10 * mmaps s'" by (simp add: s')
  show "mmaps s' = Suc ?n" "LookupStart s' = LookupStart s" by (simp_all add: s')
  have m': "mapped os (mmaps s')" using d(2) a by (auto simp: s' less_Suc_eq)
  have keep: "cells s' x = cells s x"
    if "unat x < unat a \<or> unat a + region_len ?n \<le> unat x" for x
    using that b(1) unat_lens(1) rl by (simp add: s' zero_fill_miss del: sizes)
  show r: "read_l1 s' i = read_l1 s i" if "unat i < 2 ^ 22" for i
  proof -
    have "unat (LookupStart s) + region_len 0 \<le> unat a \<or> unat a + region_len ?n \<le> unat (LookupStart s)"
      using os_ok_disjoint[OF os d(3) a] d(1) by auto
    with l1_cell[OF os d(3) that] that
    have "cells s' (LookupStart s + 8 * i) = cells s (LookupStart s + 8 * i)"
      by (intro keep) (auto simp: region_len_def)
    then show ?thesis by (simp add: read_l1_def s')
  qed
  show "read_cell (read_l1 s i) k s' = read_cell (read_l1 s i) k s"
    if i: "unat i < 2 ^ 22" "read_l1 s i \<noteq> 0" and k: "unat k < 2 ^ 24" for i k
  proof -
    obtain c where c: "c < C" "read_l1 s i = of_nat (chunk_pos os c)"
      using rt_inv_at_table[OF inv i] .
    let ?r = "c div 10"
    have cn: "?r < ?n" "c < 10 * ?n" using c(1) d(5) by simp_all
    with d(2) obtain e where e: "os ?r = Some e" by blast
    from os_ok_disjoint[OF os e a] cn(1)
    have "unat e + region_len ?r \<le> unat a \<or> unat a + region_len ?n \<le> unat e" by simp
    moreover have "unat (read_l1 s i + 8 * k) = pool_pos os ?r + (2 ^ 27 * (c mod 10) + 8 * unat k)"
      unfolding c(2) using chunk_cell(1)[OF os d(2) cn(2) k] by (simp add: chunk_pos_def)
    moreover note cell_offset[OF k, of c]
    ultimately have "unat (read_l1 s i + 8 * k) < unat a \<or>
        unat a + region_len ?n \<le> unat (read_l1 s i + 8 * k)"
      using e by (auto simp: pool_pos_def region_len_def split: if_splits)
    then show ?thesis by (simp add: read_cell_def keep)
  qed
  have z: "cells s' (of_nat (chunk_pos os c) + 8 * k) = 0"
    if "C \<le> c" "c < 10 * Suc ?n" "unat k < 2 ^ 24" for c k
  proof -
    have q: "c div 10 = ?n" using that C by (simp add: div_nat_eqI)
    have "unat (of_nat (chunk_pos os c) + 8 * k :: u64) = chunk_pos os c + 8 * unat k"
      using chunk_cell(1)[OF os m' _ that(3)] that(2) by (simp add: s')
    then have "unat (of_nat (chunk_pos os c) + 8 * k :: u64) = unat a + (2 ^ 27 * (c mod 10) + 8 * unat k)"
      using a d(1) by (simp add: chunk_pos_def pool_pos_def q)
    then show ?thesis using cell_offset[OF that(3), of c] unat_lens(1)
      by (simp add: s' zero_fill_hit del: sizes)
  qed
  have e1: "unat (a + 8 * added_memory_size) = unat a + 10 * 2 ^ 27"
    using unat_cell[of a added_memory_size] b(1) rl by simp
  then show "SecondLevelStart s' < SecondLevelEnd s'" by (simp add: s' word_less_nat_alt del: sizes)
  show "rt_inv_at os C s'"
    using inv m' z e1 a d(1,3) C unfolding rt_inv_at_def
    by (auto simp: r pool_pos_def simp del: sizes) (simp_all add: s' pool_pos_def del: sizes)
qed

section \<open>The abstraction\<close>

text \<open>
  What the table says of an address: the code array and the \<open>size_offset\<close> word, both 0 where
  nothing is recorded. Two addresses share a slot when they agree in bits 3 to 47.
\<close>

definition ref_of :: "runtime \<Rightarrow> addr \<Rightarrow> addr" where
  "ref_of s a = (let t = read_l1 s (l1_index a) in
     if t = 0 then 0 else read_cell t (push_bit 1 (l2_index a)) s)"

definition meta_of :: "runtime \<Rightarrow> addr \<Rightarrow> u64" where
  "meta_of s a = (let t = read_l1 s (l1_index a) in
     if t = 0 then 0 else read_cell t (push_bit 1 (l2_index a) + 1) s)"

definition same_slot :: "addr \<Rightarrow> addr \<Rightarrow> bool" where
  "same_slot a b \<longleftrightarrow> l1_index a = l1_index b \<and> l2_index a = l2_index b"

definition has_table :: "runtime \<Rightarrow> addr \<Rightarrow> bool" where
  "has_table s a \<longleftrightarrow> read_l1 s (l1_index a) \<noteq> 0"

lemma same_slot_sym: "same_slot a b \<Longrightarrow> same_slot b a"
  by (simp add: same_slot_def)

lemma same_slot_refl [simp]: "same_slot a a"
  by (simp add: same_slot_def)

lemma same_slot_ref: "same_slot a b \<Longrightarrow> ref_of s a = ref_of s b"
  by (simp add: ref_of_def same_slot_def Let_def)

lemma same_slot_meta: "same_slot a b \<Longrightarrow> meta_of s a = meta_of s b"
  by (simp add: meta_of_def same_slot_def Let_def)

lemma ref_of_no_table: "\<not> has_table s a \<Longrightarrow> ref_of s a = 0"
  by (simp add: has_table_def ref_of_def)

lemma meta_of_no_table: "\<not> has_table s a \<Longrightarrow> meta_of s a = 0"
  by (simp add: has_table_def meta_of_def)

lemma level2_or_new_spec:
  assumes os: "os_ok os" and inv: "rt_inv os s"
    and ret: "level2_or_new os (l1_index a) s = Inr (t, s')"
  shows "rt_inv os s'" "t = read_l1 s' (l1_index a)" "has_table s' a"
    "ref_of s' = ref_of s" "meta_of s' = meta_of s"
    "reports s' = reports s" "debugArray s' = debugArray s"
proof -
  let ?i = "l1_index a"
  obtain C where C: "rt_inv_at os C s" using inv by (auto simp: rt_inv_def)
  have goal: "rt_inv os s' \<and> t = read_l1 s' ?i \<and> has_table s' a \<and> ref_of s' = ref_of s
    \<and> meta_of s' = meta_of s \<and> reports s' = reports s \<and> debugArray s' = debugArray s"
  proof (cases "read_l1 s ?i = 0")
    case False
    with ret inv show ?thesis by (auto simp: level2_or_new_def has_table_def)
  next
    case True
    obtain u where u: "(if SecondLevelStart s \<ge> SecondLevelEnd s then bitype_malloc_new_space os s
        else Inr s) = Inr u"
      and s': "s' = (write_cell (LookupStart u) ?i (SecondLevelStart u) u)
          \<lparr>SecondLevelStart := SecondLevelStart u + 8 * (L2_BITS * 2)\<rparr>"
      and t: "t = SecondLevelStart u"
      using ret True by (auto simp: level2_or_new_def Let_def bindR_Inr_iff simp del: sizes)
    have U: "rt_inv_at os C u" "SecondLevelStart u < SecondLevelEnd u" "LookupStart u = LookupStart s"
      "reports u = reports s" "debugArray u = debugArray s"
      and Ur: "\<And>i. unat i < 2 ^ 22 \<Longrightarrow> read_l1 u i = read_l1 s i"
      and Uc: "\<And>i k. unat i < 2 ^ 22 \<Longrightarrow> read_l1 s i \<noteq> 0 \<Longrightarrow> unat k < 2 ^ 24 \<Longrightarrow>
         read_cell (read_l1 s i) k u = read_cell (read_l1 s i) k s"
      using u malloc_new_space_inv[OF os C, of u] C
      by (auto split: if_splits simp: bitype_malloc_new_space_def bitype_mmap_def bindR_def
          split: option.splits)
    let ?n = "mmaps u"
    note d = rt_inv_atD[OF U(1)]
    have lt: "C < 10 * ?n"
      using U(2) d by (cases ?n) (auto simp: word_less_nat_alt)
    have pos: "unat (SecondLevelStart u) = chunk_pos os C"
    proof -
      have "C div 10 = ?n - 1" using lt d(1,4) by (intro div_nat_eqI) auto
      moreover from this have "C mod 10 = C - 10 * (?n - 1)"
        using minus_mult_div_eq_mod[of C 10] by simp
      ultimately show ?thesis using d(6) by (simp add: chunk_pos_def)
    qed
    have st: "SecondLevelStart u = of_nat (chunk_pos os C)"
      using chunk_cell(2)[OF os d(2) lt, of 0] pos by (simp add: word_unat_eq_iff)
    have st0: "SecondLevelStart u \<noteq> 0"
      using chunk_cell(3)[OF os d(2) lt, of 0] st by simp
    have i22: "unat ?i < 2 ^ 22" by (rule l1_index_less)
    have R: "read_l1 s' j = (if j = ?i then SecondLevelStart u else read_l1 s j)"
      if "unat j < 2 ^ 22" for j
    proof -
      have "LookupStart u + 8 * j = LookupStart u + 8 * ?i \<longleftrightarrow> j = ?i"
        by (rule l1_cell_inj[OF os d(3) that i22])
      with Ur[OF that] show ?thesis by (simp add: s' read_l1_def write_cell_def)
    qed
    have Cl: "cells s' (of_nat (chunk_pos os c) + 8 * k) = cells u (of_nat (chunk_pos os c) + 8 * k)"
      if "c < 10 * ?n" "unat k < 2 ^ 24" for c k
      using l1_not_chunk[OF os d(2,3) i22 that] by (auto simp: s' write_cell_def)
    have inv': "rt_inv_at os (Suc C) s'"
    proof -
      have e: "unat (SecondLevelStart s') = pool_pos os (?n - 1) + 2 ^ 27 * (Suc C - 10 * (?n - 1))"
      proof -
        obtain b where b: "os (?n - 1) = Some b" using d(1,2) by force
        have ub: "unat (SecondLevelEnd u) \<le> unat b + region_len (?n - 1)"
          using d(7) b by (auto simp: pool_pos_def region_len_def)
        have "2 ^ 27 * (C - 10 * (?n - 1)) + 2 ^ 27 \<le> (10 * 2 ^ 27 :: nat)"
          using lt d(1,4) by (cases ?n) auto
        with d(6,7) have le: "unat (SecondLevelStart u) + 2 ^ 27 \<le> unat (SecondLevelEnd u)" by simp
        have "unat (L2_BITS * 2) = 2 ^ 24" by simp
        then have "unat (SecondLevelStart u + 8 * (L2_BITS * 2)) = unat (SecondLevelStart u) + 2 ^ 27"
          using unat_cell[of "SecondLevelStart u" "L2_BITS * 2"] le ub os_okD(1)[OF os b]
          by (simp del: sizes)
        then show ?thesis using d(4,6) by (simp add: s' Suc_diff_le del: sizes)
      qed
      have tab: "read_l1 s' j = 0 \<or> (\<exists>c<Suc C. read_l1 s' j = of_nat (chunk_pos os c))"
        if "unat j < 2 ^ 22" for j
        using R[OF that] st Ur[OF that] U(1) that unfolding rt_inv_at_def
        by (metis less_Suc_eq)
      have fresh: "read_l1 s j \<noteq> SecondLevelStart u" if j22: "unat j < 2 ^ 22" for j
      proof
        assume eq: "read_l1 s j = SecondLevelStart u"
        then have "read_l1 u j \<noteq> 0" using Ur[OF j22] st0 by simp
        then obtain c where c: "c < C" "read_l1 u j = of_nat (chunk_pos os c)"
          using rt_inv_at_table[OF U(1) j22] by blast
        with eq st Ur[OF j22] chunk_inj[OF os d(2) _ lt, of c 0 0] lt show False by simp
      qed
      have inj: "i = j" if "unat i < 2 ^ 22" "unat j < 2 ^ 22" "read_l1 s' i = read_l1 s' j"
        "read_l1 s' i \<noteq> 0" for i j
        using R[OF that(1)] R[OF that(2)] that fresh rt_inv_at_inj[OF U(1) that(1,2)] Ur
        by (metis (no_types))
      show ?thesis
        using d lt e tab inj rt_inv_at_zero[OF U(1)] Cl unfolding rt_inv_at_def
        by (simp add: s')
    qed
    have cell: "read_cell (read_l1 s (l1_index b)) k s' = read_cell (read_l1 s (l1_index b)) k s"
      if "read_l1 s (l1_index b) \<noteq> 0" "unat k < 2 ^ 24" for b k
    proof -
      have "read_l1 u (l1_index b) \<noteq> 0" using that(1) Ur[OF l1_index_less] by simp
      then obtain c where c: "c < C" "read_l1 u (l1_index b) = of_nat (chunk_pos os c)"
        using rt_inv_at_table[OF U(1) l1_index_less] by blast
      from c have "read_l1 s (l1_index b) = of_nat (chunk_pos os c)" using Ur[OF l1_index_less] by simp
      then show ?thesis using Cl[of c k] c(1) lt that Uc[OF l1_index_less that(1,2)]
        by (simp add: read_cell_def)
    qed
    have new: "read_cell (SecondLevelStart u) k s' = 0" if "unat k < 2 ^ 24" for k
      using Cl[OF lt that] rt_inv_at_zero[OF U(1) order_refl lt that] by (simp add: read_cell_def st)
    have "ref_of s' b = ref_of s b" "meta_of s' b = meta_of s b" for b
      using R[OF l1_index_less, of b] cell[of b] new True st0 idx2_less[of b]
      by (auto simp: ref_of_def meta_of_def Let_def)
    then show ?thesis
      using inv' R[OF i22] st0 U(4,5) t by (auto simp: rt_inv_def has_table_def s' fun_eq_iff)
  qed
  then show "rt_inv os s'" "t = read_l1 s' (l1_index a)" "has_table s' a"
    "ref_of s' = ref_of s" "meta_of s' = meta_of s"
    "reports s' = reports s" "debugArray s' = debugArray s" by simp_all
qed

lemma level2_or_new_total:
  assumes "os (mmaps s) \<noteq> None"
  shows "\<exists>t s'. level2_or_new os i s = Inr (t, s') \<and> mmaps s' \<le> Suc (mmaps s)"
proof -
  obtain a where "os (mmaps s) = Some a" using assms by blast
  then show ?thesis
    by (simp add: level2_or_new_def bitype_malloc_new_space_def bitype_mmap_def Let_def)
qed

text \<open>Writing one of the two words of a slot that has a table.\<close>

lemma write_ref_spec:
  fixes s :: runtime and v :: u64
  assumes os: "os_ok os" and inv: "rt_inv os s" and t: "has_table s a"
  defines "s' \<equiv> write_cell (read_l1 s (l1_index a)) (push_bit 1 (l2_index a)) v s"
  shows "rt_inv os s'" "ref_of s' b = (if same_slot a b then v else ref_of s b)"
    "meta_of s' b = meta_of s b" "has_table s' b = has_table s b"
    "read_l1 s' (l1_index b) = read_l1 s (l1_index b)"
proof -
  obtain C where C: "rt_inv_at os C s" using inv by (auto simp: rt_inv_def)
  have t': "read_l1 s (l1_index a) \<noteq> 0" using t by (simp add: has_table_def)
  note w = os C l1_index_less[of a] t' idx2_less(1)[of a]
  show "rt_inv os s'" using rt_inv_write_table[OF w] by (auto simp: rt_inv_def s'_def)
  show r: "read_l1 s' (l1_index b) = read_l1 s (l1_index b)" for b
    unfolding s'_def by (rule read_l1_write_table[OF w l1_index_less])
  then show "has_table s' b = has_table s b" by (simp add: has_table_def)
  show "ref_of s' b = (if same_slot a b then v else ref_of s b)" "meta_of s' b = meta_of s b"
    using read_cell_write_table[OF w l1_index_less[of b] _ idx2_less(1)[of b]]
      read_cell_write_table[OF w l1_index_less[of b] _ idx2_less(2)[of b]] r t'
    by (auto simp: ref_of_def meta_of_def Let_def same_slot_def idx2_inj s'_def)
qed

lemma write_meta_spec:
  fixes s :: runtime and v :: u64
  assumes os: "os_ok os" and inv: "rt_inv os s" and t: "has_table s a"
  defines "s' \<equiv> write_cell (read_l1 s (l1_index a)) (push_bit 1 (l2_index a) + 1) v s"
  shows "rt_inv os s'" "meta_of s' b = (if same_slot a b then v else meta_of s b)"
    "ref_of s' b = ref_of s b" "has_table s' b = has_table s b"
    "read_l1 s' (l1_index b) = read_l1 s (l1_index b)"
proof -
  obtain C where C: "rt_inv_at os C s" using inv by (auto simp: rt_inv_def)
  have t': "read_l1 s (l1_index a) \<noteq> 0" using t by (simp add: has_table_def)
  note w = os C l1_index_less[of a] t' idx2_less(2)[of a]
  show "rt_inv os s'" using rt_inv_write_table[OF w] by (auto simp: rt_inv_def s'_def)
  show r: "read_l1 s' (l1_index b) = read_l1 s (l1_index b)" for b
    unfolding s'_def by (rule read_l1_write_table[OF w l1_index_less])
  then show "has_table s' b = has_table s b" by (simp add: has_table_def)
  show "meta_of s' b = (if same_slot a b then v else meta_of s b)" "ref_of s' b = ref_of s b"
    using read_cell_write_table[OF w l1_index_less[of b] _ idx2_less(2)[of b]]
      read_cell_write_table[OF w l1_index_less[of b] _ idx2_less(1)[of b]] r t'
    by (auto simp: ref_of_def meta_of_def Let_def same_slot_def idx2_inj s'_def)
qed

lemma read_meta: "has_table s a \<Longrightarrow>
    read_cell (read_l1 s (l1_index a)) (push_bit 1 (l2_index a) + 1) s = meta_of s a"
  by (simp add: has_table_def meta_of_def)

lemma read_ref: "has_table s a \<Longrightarrow>
    read_cell (read_l1 s (l1_index a)) (push_bit 1 (l2_index a)) s = ref_of s a"
  by (simp add: has_table_def ref_of_def)

text \<open>The three writes of an update, for any code array, size and offset.\<close>

lemma write_entry_spec:
  fixes s :: runtime and off sz :: u32 and r :: addr
  assumes os: "os_ok os" and inv: "rt_inv os s" and t: "has_table s a"
  defines "t \<equiv> read_l1 s (l1_index a)" and "i \<equiv> push_bit 1 (l2_index a)"
  defines "s' \<equiv> write_offset t (i + 1) off (write_size t (i + 1) sz (write_cell t i r s))"
  shows "rt_inv os s'" "ref_of s' b = (if same_slot a b then r else ref_of s b)"
    "meta_of s' b = (if same_slot a b then so_pack sz off else meta_of s b)"
    "reports s' = reports s" "debugArray s' = debugArray s"
proof -
  define s1 where "s1 = write_cell t i r s"
  define s2 where "s2 = write_size t (i + 1) sz s1"
  note w1 = write_ref_spec[OF os inv t, of r, folded t_def i_def, folded s1_def]
  have t1: "read_l1 s1 (l1_index a) = t" using w1(5)[of a] by (simp only: t_def)
  have h1: "has_table s1 a" using w1(4) t by simp
  note w2 = write_meta_spec[OF os w1(1) h1, unfolded t1, folded i_def]
  have s2: "s2 = write_cell t (i + 1) (so_pack sz (so_offset (meta_of s1 a))) s1"
    using read_meta[OF h1, unfolded t1, folded i_def] by (simp only: s2_def write_size_def)
  note w2' = w2[of "so_pack sz (so_offset (meta_of s1 a))", folded s2]
  have t2: "read_l1 s2 (l1_index a) = t" using w2'(5)[of a] t1 by simp
  have h2: "has_table s2 a" using w2'(4) h1 by simp
  have s': "s' = write_cell t (i + 1) (so_pack (so_size (meta_of s2 a)) off) s2"
    using read_meta[OF h2, unfolded t2, folded i_def]
    by (simp only: s'_def s2_def[symmetric] s1_def[symmetric] write_offset_def)
  note w3 = write_meta_spec[OF os w2'(1) h2, unfolded t2, folded i_def,
      of "so_pack (so_size (meta_of s2 a)) off", folded s']
  show "rt_inv os s'" by (rule w3(1))
  show "ref_of s' b = (if same_slot a b then r else ref_of s b)"
    using w3(3) w2'(3) w1(2) by simp
  show "meta_of s' b = (if same_slot a b then so_pack sz off else meta_of s b)"
    using w3(2)[of b] w2'(2)[of b] w2'(2)[of a] w1(3)[of b] by simp
  show "reports s' = reports s" "debugArray s' = debugArray s"
    by (simp_all add: s' s2 s1_def)
qed

section \<open>The operations on the abstraction\<close>

lemma direct_update_spec:
  assumes "os_ok os" "rt_inv os s" "bitype_direct_updateObjTrace os a r off s = Inr s'"
  shows "rt_inv os s'" "ref_of s' b = (if same_slot a b then r else ref_of s b)"
    "meta_of s' b = (if same_slot a b then so_pack 0 off else meta_of s b)"
    "reports s' = reports s" "debugArray s' = debugArray s"
proof -
  obtain t u where u: "level2_or_new os (l1_index a) s = Inr (t, u)"
    and s': "s' = write_offset t (push_bit 1 (l2_index a) + 1) off
      (write_size t (push_bit 1 (l2_index a) + 1) 0 (write_cell t (push_bit 1 (l2_index a)) r u))"
    using assms(3) by (auto simp: bitype_direct_updateObjTrace_def Let_def bindR_Inr_iff)
  note l = level2_or_new_spec[OF assms(1,2) u]
  note w = write_entry_spec[OF assms(1) l(1,3), where off = off and sz = 0 and r = r, folded l(2), folded s']
  show "rt_inv os s'" "ref_of s' b = (if same_slot a b then r else ref_of s b)"
    "meta_of s' b = (if same_slot a b then so_pack 0 off else meta_of s b)"
    "reports s' = reports s" "debugArray s' = debugArray s"
    using w(1) w(2)[of b] w(3)[of b] w(4,5) l by simp_all
qed

lemma updateObjTrace_round_eq:
  "updateObjTrace_round os p r ts off i s =
     bitype_direct_updateObjTrace os (p + ucast (ts * i)) r off s"
  by (simp add: updateObjTrace_round_def bitype_direct_updateObjTrace_def Let_def)

lemma update_arraySize_spec:
  assumes "os_ok os" "rt_inv os s" "bitype_update_arraySize os a n s = Inr s'"
  shows "rt_inv os s'" "ref_of s' b = ref_of s b"
    "meta_of s' b = (if a \<noteq> 0 \<and> same_slot a b then so_pack n (so_offset (meta_of s b)) else meta_of s b)"
    "reports s' = reports s" "debugArray s' = debugArray s"
proof -
  have "rt_inv os s' \<and> ref_of s' b = ref_of s b \<and>
    meta_of s' b = (if a \<noteq> 0 \<and> same_slot a b then so_pack n (so_offset (meta_of s b)) else meta_of s b)
    \<and> reports s' = reports s \<and> debugArray s' = debugArray s"
  proof (cases "a = 0")
    case True
    with assms show ?thesis by (simp add: bitype_update_arraySize_def)
  next
    case False
    with assms(3) obtain t u where u: "level2_or_new os (l1_index a) s = Inr (t, u)"
      and s': "s' = write_size t (push_bit 1 (l2_index a) + 1) n u"
      by (auto simp: bitype_update_arraySize_def Let_def bindR_Inr_iff)
    note l = level2_or_new_spec[OF assms(1,2) u]
    have s'': "s' = write_cell (read_l1 u (l1_index a)) (push_bit 1 (l2_index a) + 1)
        (so_pack n (so_offset (meta_of u a))) u"
      using read_meta[OF l(3)] by (simp only: s' write_size_def l(2))
    note w = write_meta_spec[OF assms(1) l(1,3), of "so_pack n (so_offset (meta_of u a))", folded s'']
    have "meta_of s a = meta_of s b" if "same_slot a b"
      using that by (simp add: same_slot_meta)
    then show ?thesis using w(1) w(2)[of b] w(3)[of b] l False by (simp add: s'')
  qed
  then show "rt_inv os s'" "ref_of s' b = ref_of s b"
    "meta_of s' b = (if a \<noteq> 0 \<and> same_slot a b then so_pack n (so_offset (meta_of s b)) else meta_of s b)"
    "reports s' = reports s" "debugArray s' = debugArray s" by simp_all
qed

lemma reinterpret_spec:
  assumes "os_ok os" "rt_inv os s" "bitype_handle_reinterpret_cast os a r off s = Inr s'"
  shows "rt_inv os s'"
    "ref_of s' b = (if same_slot a b \<and> (ref_of s a = 0 \<or> so_offset (meta_of s a) = -1)
       then r else ref_of s b)"
    "meta_of s' b = (if same_slot a b \<and> (ref_of s a = 0 \<or> so_offset (meta_of s a) = -1)
       then so_pack 0 (-1) else meta_of s b)"
proof -
  let ?i = "push_bit 1 (l2_index a)"
  obtain t u where u: "level2_or_new os (l1_index a) s = Inr (t, u)"
    and r: "(if read_cell t ?i u \<noteq> 0 \<and> so_offset (read_cell t (?i + 1) u) \<noteq> -1 then Inr u
       else Inr (write_offset t (?i + 1) (-1) (write_size t (?i + 1) 0 (write_cell t ?i r u)))) = (Inr s' :: rt_error + runtime)"
    using assms(3) by (auto simp: bitype_handle_reinterpret_cast_def Let_def bindR_Inr_iff)
  then have s': "s' = (if read_cell t ?i u \<noteq> 0 \<and> so_offset (read_cell t (?i + 1) u) \<noteq> -1 then u
       else write_offset t (?i + 1) (-1) (write_size t (?i + 1) 0 (write_cell t ?i r u)))"
    by (auto split: if_splits)
  note l = level2_or_new_spec[OF assms(1,2) u]
  note w = write_entry_spec[OF assms(1) l(1,3), where off = "-1" and sz = 0 and r = r, folded l(2)]
  have c: "read_cell t ?i u = ref_of s a" "read_cell t (?i + 1) u = meta_of s a"
    using read_ref[OF l(3)] read_meta[OF l(3)] l(2,4,5) by simp_all
  show "rt_inv os s'"
    "ref_of s' b = (if same_slot a b \<and> (ref_of s a = 0 \<or> so_offset (meta_of s a) = -1)
       then r else ref_of s b)"
    "meta_of s' b = (if same_slot a b \<and> (ref_of s a = 0 \<or> so_offset (meta_of s a) = -1)
       then so_pack 0 (-1) else meta_of s b)"
    using w(1) w(2,3)[of b] l(1,4,5) unfolding s' c by auto
qed

lemma direct_eraseObj_spec:
  fixes a :: addr
  assumes "os_ok os" "rt_inv os s"
  defines "s' \<equiv> bitype_direct_eraseObj a s"
  shows "rt_inv os s'" "ref_of s' b = (if same_slot a b then 0 else ref_of s b)"
    "meta_of s' b = (if same_slot a b then 0 else meta_of s b)"
proof -
  have "rt_inv os s' \<and> ref_of s' b = (if same_slot a b then 0 else ref_of s b) \<and>
    meta_of s' b = (if same_slot a b then 0 else meta_of s b)"
  proof (cases "has_table s a")
    case True
    define u where "u = write_cell (read_l1 s (l1_index a)) (push_bit 1 (l2_index a)) 0 s"
    note w = write_ref_spec[OF assms(1,2) True, of 0, folded u_def]
    have "has_table u a" using w(4) True by simp
    note v = write_meta_spec[OF assms(1) w(1) this, of 0]
    have "s' = write_cell (read_l1 u (l1_index a)) (push_bit 1 (l2_index a) + 1) 0 u"
      using True w(5)[of a]
      by (simp only: s'_def bitype_direct_eraseObj_def Let_def has_table_def u_def if_True not_False_eq_True)
    with w v show ?thesis by simp
  next
    case False
    then have "s' = s" by (simp add: s'_def bitype_direct_eraseObj_def has_table_def)
    moreover have "same_slot a b \<Longrightarrow> \<not> has_table s b"
      using False by (simp add: has_table_def same_slot_def)
    ultimately show ?thesis using assms(2) by (simp add: ref_of_no_table meta_of_no_table)
  qed
  then show "rt_inv os s'" "ref_of s' b = (if same_slot a b then 0 else ref_of s b)"
    "meta_of s' b = (if same_slot a b then 0 else meta_of s b)" by simp_all
qed

lemma direct_eraseArraySize_spec:
  fixes a :: addr
  assumes "os_ok os" "rt_inv os s"
  defines "s' \<equiv> bitype_direct_eraseArraySize a s"
  shows "rt_inv os s'" "ref_of s' b = ref_of s b"
    "meta_of s' b = (if a \<noteq> 0 \<and> same_slot a b then 0 else meta_of s b)"
proof -
  have "rt_inv os s' \<and> ref_of s' b = ref_of s b \<and>
    meta_of s' b = (if a \<noteq> 0 \<and> same_slot a b then 0 else meta_of s b)"
  proof (cases "a \<noteq> 0 \<and> has_table s a")
    case True
    then have "s' = write_cell (read_l1 s (l1_index a)) (push_bit 1 (l2_index a) + 1) 0 s"
      by (simp add: s'_def bitype_direct_eraseArraySize_def has_table_def Let_def)
    with write_meta_spec[OF assms(1,2), of a 0] True show ?thesis by simp
  next
    case False
    then have "s' = s" by (auto simp: s'_def bitype_direct_eraseArraySize_def has_table_def Let_def)
    moreover have "a \<noteq> 0 \<Longrightarrow> same_slot a b \<Longrightarrow> \<not> has_table s b"
      using False by (simp add: has_table_def same_slot_def)
    ultimately show ?thesis using assms(2) by (simp add: meta_of_no_table)
  qed
  then show "rt_inv os s'" "ref_of s' b = ref_of s b"
    "meta_of s' b = (if a \<noteq> 0 \<and> same_slot a b then 0 else meta_of s b)" by simp_all
qed

lemma eraseObj_round_spec:
  fixes p :: addr and ts i :: u32
  assumes "os_ok os" "rt_inv os s"
  defines "s' \<equiv> eraseObj_round p ts i s"
  shows "rt_inv os s'" "ref_of s' b = (if same_slot (p + ucast (ts * i)) b then 0 else ref_of s b)"
    "meta_of s' b = meta_of s b"
proof -
  let ?a = "p + ucast (ts * i)"
  have "rt_inv os s' \<and> ref_of s' b = (if same_slot ?a b then 0 else ref_of s b) \<and>
    meta_of s' b = meta_of s b"
  proof (cases "has_table s ?a")
    case True
    then have "s' = write_cell (read_l1 s (l1_index ?a)) (push_bit 1 (l2_index ?a)) 0 s"
      by (simp add: s'_def eraseObj_round_def has_table_def Let_def)
    with write_ref_spec[OF assms(1,2) True, of 0] show ?thesis by simp
  next
    case False
    then have "s' = s" by (simp add: s'_def eraseObj_round_def has_table_def Let_def)
    moreover have "same_slot ?a b \<Longrightarrow> \<not> has_table s b"
      using False by (simp add: has_table_def same_slot_def)
    ultimately show ?thesis using assms(2) by (simp add: ref_of_no_table)
  qed
  then show "rt_inv os s'" "ref_of s' b = (if same_slot ?a b then 0 else ref_of s b)"
    "meta_of s' b = meta_of s b" by simp_all
qed

end
