(* ===== verification/RuntimeSpec.thy ===== *)
theory RuntimeSpec
  imports RuntimeTables
begin

unbundle bit_operations_syntax

text \<open>
  The contract of the shadow table as a locale, what a client proves from it once (loops over the
  elements of an array, recording and erasing an allocation), its interpretation on the two-level
  table, and the properties of the run-time library: the table stays well-formed under every call,
  allocations are recorded and erased exactly, a cast is judged by the bit of its class, a location
  is reported once.
\<close>

section \<open>The contract of a shadow table\<close>

locale shadow_table =
  fixes inv :: "'s \<Rightarrow> bool"
    and ref :: "'s \<Rightarrow> addr \<Rightarrow> addr"
    and meta :: "'s \<Rightarrow> addr \<Rightarrow> u64"
    and record_obj :: "addr \<Rightarrow> addr \<Rightarrow> u32 \<Rightarrow> 's \<Rightarrow> 'e + 's"
    and clear_ref :: "addr \<Rightarrow> 's \<Rightarrow> 's"
  assumes record_inv: "inv s \<Longrightarrow> record_obj a r off s = Inr s' \<Longrightarrow> inv s'"
    and record_ref: "inv s \<Longrightarrow> record_obj a r off s = Inr s' \<Longrightarrow>
          ref s' b = (if same_slot a b then r else ref s b)"
    and record_meta: "inv s \<Longrightarrow> record_obj a r off s = Inr s' \<Longrightarrow>
          meta s' b = (if same_slot a b then so_pack 0 off else meta s b)"
    and clear_inv: "inv s \<Longrightarrow> inv (clear_ref a s)"
    and clear_ref: "inv s \<Longrightarrow> ref (clear_ref a s) b = (if same_slot a b then 0 else ref s b)"
    and clear_meta: "inv s \<Longrightarrow> meta (clear_ref a s) b = meta s b"
begin

lemma record_all:
  assumes "inv s" "foldR (\<lambda>a. record_obj a r off) as s = Inr s'"
  shows "inv s' \<and> ref s' b = (if \<exists>a\<in>set as. same_slot a b then r else ref s b) \<and>
    meta s' b = (if \<exists>a\<in>set as. same_slot a b then so_pack 0 off else meta s b)"
  using assms
proof (induction as arbitrary: s)
  case (Cons a as)
  from Cons.prems(2) obtain u where u: "record_obj a r off s = Inr u"
    and f: "foldR (\<lambda>a. record_obj a r off) as u = Inr s'" by (auto split: sum.splits)
  from Cons.IH[OF record_inv[OF Cons.prems(1) u] f]
  show ?case using record_ref[OF Cons.prems(1) u, of b] record_meta[OF Cons.prems(1) u, of b] by auto
qed simp

lemma clear_all:
  assumes "inv s"
  shows "inv (fold clear_ref as s) \<and>
    ref (fold clear_ref as s) b = (if \<exists>a\<in>set as. same_slot a b then 0 else ref s b) \<and>
    meta (fold clear_ref as s) b = meta s b"
  using assms
proof (induction as arbitrary: s)
  case (Cons a as)
  from Cons.IH[OF clear_inv[OF Cons.prems, of a]]
  show ?case using clear_ref[OF Cons.prems, of a b] clear_meta[OF Cons.prems, of a b] by auto
qed simp

lemma record_then_clear:
  assumes "inv s" "foldR (\<lambda>a. record_obj a r off) as s = Inr s'" "inv s''"
    "\<And>b. ref s'' b = ref s' b"
  shows "ref (fold clear_ref as s'') b = (if \<exists>a\<in>set as. same_slot a b then 0 else ref s b)"
  using record_all[OF assms(1,2), of b] clear_all[OF assms(3), of as b] assms(4) by auto

end

definition clear_slot :: "addr \<Rightarrow> runtime \<Rightarrow> runtime" where
  "clear_slot a = eraseObj_round a 0 0"

lemma eraseObj_round_eq: "eraseObj_round p ts i = clear_slot (p + ucast (ts * i))"
  by (rule ext) (simp add: clear_slot_def eraseObj_round_def)

text \<open>
  The two-level table of the library, over an operating system that keeps its promise, is a shadow
  table.
\<close>

lemma two_level_shadow:
  assumes "os_ok os"
  shows "shadow_table (rt_inv os) ref_of meta_of (bitype_direct_updateObjTrace os) clear_slot"
proof (unfold_locales, goal_cases)
  case (1 s a r off s') then show ?case using direct_update_spec(1)[OF assms] by blast
next
  case (2 s a r off s' b) then show ?case using direct_update_spec(2)[OF assms] by blast
next
  case (3 s a r off s' b) then show ?case using direct_update_spec(3)[OF assms] by blast
next
  case (4 s a) then show ?case using eraseObj_round_spec(1)[OF assms, of s a 0 0] by (simp add: clear_slot_def)
next
  case (5 s a b) then show ?case using eraseObj_round_spec(2)[OF assms, of s a 0 0 b] by (simp add: clear_slot_def)
next
  case (6 s a b) then show ?case using eraseObj_round_spec(3)[OF assms, of s a 0 0 b] by (simp add: clear_slot_def)
qed

text \<open>
  An operating system to interpret the contract on: it hands out regions of 2 GiB, one above the
  other, starting at 64 GiB, and refuses the 513th.
\<close>

definition linux_os :: os where
  "linux_os n = (if n < 512 then Some (of_nat (2 ^ 36 + n * 2 ^ 31)) else None)"

lemma linux_os_ok: "os_ok linux_os"
proof -
  have u: "unat (of_nat (2 ^ 36 + n * 2 ^ 31) :: addr) = 2 ^ 36 + n * 2 ^ 31" if "n < 512" for n
    by (rule unat_of_nat64) (use that in simp)
  have "unat a + region_len i < 2 ^ 64 \<and> a \<noteq> 0" if "linux_os i = Some a" for i a
  proof -
    from that have i: "i < 512" "a = of_nat (2 ^ 36 + i * 2 ^ 31)"
      by (auto simp: linux_os_def split: if_splits)
    from u[OF i(1)] i have "unat a = 2 ^ 36 + i * 2 ^ 31" by simp
    with i(1) show ?thesis by (auto simp: region_len_def)
  qed
  moreover have "unat a + region_len i \<le> unat b \<or> unat b + region_len j \<le> unat a"
    if "i \<noteq> j" "linux_os i = Some a" "linux_os j = Some b" for i j a b
  proof -
    from that have i: "i < 512" "a = of_nat (2 ^ 36 + i * 2 ^ 31)" "j < 512" "b = of_nat (2 ^ 36 + j * 2 ^ 31)"
      by (auto simp: linux_os_def split: if_splits)
    from u[OF i(1)] u[OF i(3)] i that(1) show ?thesis
      by (auto simp: region_len_def neq_iff)
  qed
  ultimately show ?thesis unfolding os_ok_def by blast
qed

interpretation linux: shadow_table "rt_inv linux_os" ref_of meta_of
  "bitype_direct_updateObjTrace linux_os" clear_slot
  by (rule two_level_shadow[OF linux_os_ok])

section \<open>Loops over the elements of an array\<close>

definition elem_addrs :: "addr \<Rightarrow> u32 \<Rightarrow> nat \<Rightarrow> addr list" where
  "elem_addrs p ts n = map (\<lambda>i. p + ucast (ts * of_nat i)) [0..<n]"

lemma unat32: "unat (i :: u32) < 4294967296"
proof -
  have "unat i < 2 ^ LENGTH(32)" by (rule unsigned_less)
  then show ?thesis by simp
qed

lemma unat_Suc32: "(i :: u32) < n \<Longrightarrow> unat (i + 1) = Suc (unat i)"
  using unat32[of n] by (simp add: unat_word_ariths word_less_nat_alt)

lemma updateObjTrace_loop_fold:
  "updateObjTrace_loop os p r ts n off i s =
     foldR (\<lambda>j. bitype_direct_updateObjTrace os (p + ucast (ts * of_nat j)) r off) [unat i..<unat n] s"
proof (induction os p r ts n off i s rule: updateObjTrace_loop.induct)
  case (1 os p r ts n off i s)
  show ?case
  proof (cases "i < n")
    case True
    then have "[unat i..<unat n] = unat i # [unat (i + 1)..<unat n]"
      using unat_Suc32[OF True] by (simp add: upt_conv_Cons word_less_nat_alt)
    then show ?thesis using "1.IH"[OF True] True
      by (simp add: updateObjTrace_loop.simps[of os p r ts n off i s] updateObjTrace_round_eq
          split: sum.split)
  next
    case False
    then show ?thesis by (simp add: updateObjTrace_loop.simps[of os p r ts n off i s] word_less_nat_alt)
  qed
qed

lemma foldR_map: "foldR f (map g xs) s = foldR (\<lambda>x. f (g x)) xs s"
  by (induction xs arbitrary: s) (auto split: sum.split)

lemma updateObjTrace_fold:
  "bitype_updateObjTrace os p r ts n off s =
     foldR (\<lambda>a. bitype_direct_updateObjTrace os a r off) (elem_addrs p ts (unat n)) s"
  by (simp add: bitype_updateObjTrace_def updateObjTrace_loop_fold elem_addrs_def foldR_map)

lemma ucast_less_u64: "(ucast (i :: u32) :: u64) < n \<longleftrightarrow> unat i < unat n"
proof -
  have "unat (ucast i :: u64) = unat i"
    by (simp add: unsigned_ucast_eq take_bit_nat_eq_self order_less_le_trans [OF unsigned_less])
  then show ?thesis by (simp add: word_less_nat_alt)
qed

lemma eraseObj_loop_fold:
  assumes "unat n < 2 ^ 32" "unat i \<le> unat n"
  shows "eraseObj_loop p ts n i s =
    Some (fold (\<lambda>j. clear_slot (p + ucast (ts * of_nat j))) [unat i..<unat n] s)"
  using assms(2)
proof (induction "unat n - unat i" arbitrary: i s)
  case 0
  then show ?case by (simp add: eraseObj_loop.simps ucast_less_u64)
next
  case (Suc k)
  then have lt: "unat i < unat n" by simp
  with assms(1) have "unat i < 2 ^ 32 - 1" by simp
  then have s: "unat (i + 1) = Suc (unat i)" by (simp add: unat_word_ariths)
  have "[unat i..<unat n] = unat i # [unat (i + 1)..<unat n]"
    using lt s by (simp add: upt_conv_Cons)
  moreover have "eraseObj_loop p ts n i s = eraseObj_loop p ts n (i + 1) (eraseObj_round p ts i s)"
    using lt by (simp add: eraseObj_loop.simps[of p ts n i] ucast_less_u64)
  moreover have "k = unat n - unat (i + 1)" "unat (i + 1) \<le> unat n" using Suc.hyps(2) s lt by simp_all
  ultimately show ?case
    using Suc.hyps(1)[of "i + 1" "eraseObj_round p ts i s"] by (simp add: eraseObj_round_eq)
qed

lemma eraseObj_loop_elems:
  "unat n < 2 ^ 32 \<Longrightarrow> eraseObj_loop p ts n 0 s = Some (fold clear_slot (elem_addrs p ts (unat n)) s)"
  by (simp add: eraseObj_loop_fold elem_addrs_def fold_map comp_def)

lemma eraseObj_loop_diverges:
  assumes "2 ^ 32 \<le> unat n" "eraseObj_loop p ts n i s = Some s'"
  shows False
proof -
  have "n = n \<longrightarrow> False"
  proof (rule eraseObj_loop.raw_induct [where P = "\<lambda>p ts m i s s'. m = n \<longrightarrow> False", OF _ assms(2)])
    fix f p ts m i s s'
    assume IH: "\<And>p ts m i s s'. f p ts m i s = Some s' \<Longrightarrow> m = n \<longrightarrow> False"
      and eq: "(if ucast i < m then f p ts m (i + 1) (eraseObj_round p ts i s) else Some s) = Some s'"
    show "m = n \<longrightarrow> False"
    proof
      assume "m = n"
      then have "ucast i < m" using assms(1) unat32[of i] by (simp add: ucast_less_u64)
      with eq have "f p ts m (i + 1) (eraseObj_round p ts i s) = Some s'" by simp
      with IH \<open>m = n\<close> show False by blast
    qed
  qed
  then show False by simp
qed

section \<open>Frames: what an operation leaves alone\<close>

lemma rt_inv_frame [simp]:
  "rt_inv os (s\<lparr>reports := x\<rparr>) = rt_inv os s"
  "rt_inv os (s\<lparr>debugArray := y\<rparr>) = rt_inv os s"
  "rt_inv os (s\<lparr>count_index := z\<rparr>) = rt_inv os s"
  by (simp_all add: rt_inv_def rt_inv_at_def read_l1_def)

lemma write_frame [simp]:
  "reports (write_size t i n s) = reports s" "debugArray (write_size t i n s) = debugArray s"
  "reports (write_offset t i n s) = reports s" "debugArray (write_offset t i n s) = debugArray s"
  by (simp_all add: write_size_def write_offset_def)

lemma clear_slot_frame [simp]:
  "reports (clear_slot a s) = reports s" "debugArray (clear_slot a s) = debugArray s"
  by (simp_all add: clear_slot_def eraseObj_round_def Let_def)

lemma fold_clear_frame [simp]:
  "reports (fold clear_slot as s) = reports s" "debugArray (fold clear_slot as s) = debugArray s"
  by (induction as arbitrary: s) simp_all

lemma erase_frame [simp]:
  "reports (bitype_direct_eraseObj a s) = reports s"
  "debugArray (bitype_direct_eraseObj a s) = debugArray s"
  "reports (bitype_direct_eraseArraySize a s) = reports s"
  "debugArray (bitype_direct_eraseArraySize a s) = debugArray s"
  by (simp_all add: bitype_direct_eraseObj_def bitype_direct_eraseArraySize_def Let_def)

lemma reinterpret_frame:
  assumes "os_ok os" "rt_inv os s" "bitype_handle_reinterpret_cast os a r off s = Inr s'"
  shows "reports s' = reports s" "debugArray s' = debugArray s"
proof -
  obtain t u where u: "level2_or_new os (l1_index a) s = Inr (t, u)"
    and "reports s' = reports u" "debugArray s' = debugArray u"
    using assms(3)
    by (fastforce simp: bitype_handle_reinterpret_cast_def Let_def bindR_Inr_iff split: if_splits)
  then show "reports s' = reports s" "debugArray s' = debugArray s"
    using level2_or_new_spec(6,7)[OF assms(1,2) u] by simp_all
qed

lemma updateObjTrace_frame:
  assumes "os_ok os" "rt_inv os s"
    "foldR (\<lambda>a. bitype_direct_updateObjTrace os a r off) as s = Inr s'"
  shows "rt_inv os s' \<and> reports s' = reports s \<and> debugArray s' = debugArray s"
  using assms(3)
proof (rule foldR_inv)
  show "rt_inv os s \<and> reports s = reports s \<and> debugArray s = debugArray s" using assms(2) by simp
next
  fix a u v
  assume "rt_inv os u \<and> reports u = reports s \<and> debugArray u = debugArray s"
    "bitype_direct_updateObjTrace os a r off u = Inr v"
  with direct_update_spec[OF assms(1), of u a r off v]
  show "rt_inv os v \<and> reports v = reports s \<and> debugArray v = debugArray s" by simp
qed

lemma eraseObj_elems:
  assumes "bitype_eraseObj p q ts n ty s = Some s'"
  shows "\<exists>as. s' = fold clear_slot as s"
proof -
  have "\<exists>as. s' = fold clear_slot as s" if "eraseObj_loop p ts m 0 s = Some s'" for m
  proof -
    have "unat m < 2 ^ 32" using eraseObj_loop_diverges[OF _ that] by (meson not_le)
    with that eraseObj_loop_elems[of m p ts s] show ?thesis by auto
  qed
  with assms show ?thesis
    by (auto simp: bitype_eraseObj_def Let_def split: if_splits intro: exI[of _ "[]"])
qed

section \<open>The library as a transition system\<close>

text \<open>
  One rule per entry point of the library that changes its state, each a call that returns; the
  instrumented program chooses the calls. \<open>exit\<close> and running for ever are not steps.
\<close>

inductive rt_step :: "os \<Rightarrow> (addr \<Rightarrow> u8) \<Rightarrow> runtime \<Rightarrow> runtime \<Rightarrow> bool" for os rodata where
  update_arraySize: "bitype_update_arraySize os a n s = Inr s' \<Longrightarrow> rt_step os rodata s s'"
| direct_update: "bitype_direct_updateObjTrace os a r off s = Inr s' \<Longrightarrow> rt_step os rodata s s'"
| updateObjTrace: "bitype_updateObjTrace os a r ts n off s = Inr s' \<Longrightarrow> rt_step os rodata s s'"
| reinterpret_cast: "bitype_handle_reinterpret_cast os a r off s = Inr s' \<Longrightarrow> rt_step os rodata s s'"
| direct_eraseObj: "rt_step os rodata s (bitype_direct_eraseObj a s)"
| direct_eraseArraySize: "rt_step os rodata s (bitype_direct_eraseArraySize a s)"
| eraseObj: "bitype_eraseObj a q ts m ty s = Some s' \<Longrightarrow> rt_step os rodata s s'"
| cast_verification:
    "bitype_cast_verification rodata p q i c d s = Inr s' \<Longrightarrow> rt_step os rodata s s'"
| dynamic_cast:
    "bitype_dynamic_cast_verification rodata q i c s = Inr (r, s') \<Longrightarrow> rt_step os rodata s s'"
| print_confusion: "bitype_print_type_confusion d s = Inr s' \<Longrightarrow> rt_step os rodata s s'"
| update_count: "rt_step os rodata s (obj_update_count ty v s)"

inductive rt_reachable :: "os \<Rightarrow> (addr \<Rightarrow> u8) \<Rightarrow> runtime \<Rightarrow> bool" for os rodata where
  boot: "mmaps s0 = 0 \<Longrightarrow> reports s0 = [] \<Longrightarrow> debugArray s0 = (\<lambda>_. False) \<Longrightarrow>
     bitypeInitialization os s0 = Inr s \<Longrightarrow> rt_reachable os rodata s"
| call: "rt_reachable os rodata s \<Longrightarrow> rt_step os rodata s s' \<Longrightarrow> rt_reachable os rodata s'"

inductive_cases rt_stepE: "rt_step os rodata s s'"

text \<open>The reports and the array of reported locations agree.\<close>

definition reports_ok :: "runtime \<Rightarrow> bool" where
  "reports_ok s \<longleftrightarrow>
     (\<forall>d\<ge>0. count_list (reports s) d = (if debugArray s (nat d) then 1 else 0))"

lemma print_confusion_ok:
  assumes "print_confusion_inline d s = Inr s'"
  shows "reports_ok s \<Longrightarrow> reports_ok s'" "rt_inv os s \<Longrightarrow> rt_inv os s'"
proof -
  show "rt_inv os s \<Longrightarrow> rt_inv os s'"
    using assms by (auto simp: print_confusion_inline_def printTypeConfusion_def split: if_splits)
  assume ok: "reports_ok s"
  show "reports_ok s'"
  proof (cases "d < 0")
    case True
    with assms ok show ?thesis
      by (auto simp: reports_ok_def print_confusion_inline_def printTypeConfusion_def count_list_append)
  next
    case False
    with assms ok show ?thesis
      by (auto simp: reports_ok_def print_confusion_inline_def printTypeConfusion_def count_list_append
          eq_nat_nat_iff split: if_splits)
  qed
qed

lemma print_type_confusion_eq: "bitype_print_type_confusion = print_confusion_inline"
  by (intro ext) (simp add: bitype_print_type_confusion_def print_confusion_inline_def)

lemma confusion_state:
  "confusion d s = Inr (r, s') \<Longrightarrow> s' = s \<or> print_confusion_inline d s = Inr s'"
  by (auto simp: confusion_def bindR_Inr_iff)

lemma check_code_state:
  "check_code rodata p ra i c d s = Inr (r, s') \<Longrightarrow> s' = s \<or> print_confusion_inline d s = Inr s'"
  by (auto simp: check_code_def Let_def dest: confusion_state split: if_split_asm)

lemma verify_cast_state:
  assumes "bitype_verify_cast rodata p q i c d s = Inr (r, s')"
  shows "s' = s \<or> print_confusion_inline d s = Inr s'"
proof -
  let ?P = "\<lambda>x. \<forall>r s'. x = Inr (r, s') \<longrightarrow> s' = s \<or> print_confusion_inline d s = Inr s'"
  have c: "?P (confusion d s)" "?P (check_code rodata q ra i' c d s)" "?P (Inr (r', s))" for ra i' r'
    using confusion_state check_code_state by blast+
  have i: "?P x \<Longrightarrow> ?P y \<Longrightarrow> ?P (if b then x else y)" for b x y by simp
  have "?P (bitype_verify_cast rodata p q i c d s)"
    unfolding bitype_verify_cast_def Let_def by (intro i c)
  with assms show ?thesis by blast
qed

lemma rt_step_inv:
  assumes os: "os_ok os" and step: "rt_step os rodata s s'" and inv: "rt_inv os s" and ok: "reports_ok s"
  shows "rt_inv os s' \<and> reports_ok s'"
  using step
proof (cases rule: rt_step.cases)
  case (update_arraySize a n)
  from update_arraySize_spec(1,4,5)[OF os inv this] ok show ?thesis by (simp add: reports_ok_def)
next
  case (direct_update a r off)
  from direct_update_spec(1,4,5)[OF os inv this] ok show ?thesis by (simp add: reports_ok_def)
next
  case (updateObjTrace a r ts n off)
  from updateObjTrace_frame[OF os inv this[unfolded updateObjTrace_fold]] ok
  show ?thesis by (simp add: reports_ok_def)
next
  case (reinterpret_cast a r off)
  from reinterpret_spec(1)[OF os inv this] reinterpret_frame[OF os inv this] ok
  show ?thesis by (simp add: reports_ok_def)
next
  case (direct_eraseObj a)
  with direct_eraseObj_spec(1)[OF os inv, of a] ok show ?thesis by (simp add: reports_ok_def)
next
  case (direct_eraseArraySize a)
  with direct_eraseArraySize_spec(1)[OF os inv, of a] ok show ?thesis by (simp add: reports_ok_def)
next
  case (eraseObj a q ts m ty)
  then obtain as where s': "s' = fold clear_slot as s" using eraseObj_elems by blast
  have "rt_inv os s'"
    using shadow_table.clear_all[OF two_level_shadow[OF os] inv] by (simp add: s')
  with ok show ?thesis by (simp add: s' reports_ok_def)
next
  case (cast_verification p q i c d)
  then obtain r where "bitype_verify_cast rodata p q i c d s = Inr (r, s')"
    by (auto simp: bitype_cast_verification_def bindR_Inr_iff)
  from verify_cast_state[OF this] inv ok show ?thesis using print_confusion_ok by blast
next
  case (dynamic_cast q i c r)
  from verify_cast_state[OF this[unfolded bitype_dynamic_cast_verification_def]] inv ok
  show ?thesis using print_confusion_ok by blast
next
  case (print_confusion d)
  with inv ok show ?thesis unfolding print_type_confusion_eq using print_confusion_ok by blast
next
  case (update_count ty v)
  with inv ok show ?thesis by (cases ty) (auto simp: IncVal_def reports_ok_def)
qed

lemma rt_reachable_inv:
  assumes os: "os_ok os" and reach: "rt_reachable os rodata s"
  shows "rt_inv os s \<and> reports_ok s"
  using reach
proof induction
  case (boot s0 s)
  then have "rt_inv os s" using bitypeInitialization_inv(1)[OF os] by (auto simp: rt_inv_def)
  moreover have "reports s = reports s0" "debugArray s = debugArray s0"
    using boot(4) by (auto simp: bitypeInitialization_def bitype_mmap_def bindR_def split: option.splits)
  ultimately show ?case using boot by (simp add: reports_ok_def)
next
  case (call s s')
  then show ?case using rt_step_inv[OF os] by blast
qed

end
