(* ===== verification/RuntimeProps.thy ===== *)
theory RuntimeProps
  imports RuntimeSpec
begin

unbundle bit_operations_syntax

text \<open>
  The properties of the run-time library: the table stays well-formed under every sequence of calls
  and two slots never share a word of it, objects are recorded and erased exactly, erasing returns
  exactly when the count fits the loop counter, a cast is judged by the bit of its class, and a
  location is reported once.
\<close>

section \<open>A running instance\<close>

text \<open>The state the library is in when \<open>linux_os\<close> has served its first mapping.\<close>

definition load_state :: runtime where
  "load_state = \<lparr>cells = \<lambda>_. 0, LookupStart = 0, SecondLevelStart = 0, SecondLevelEnd = 0, mmaps = 0,
     debugArray = \<lambda>_. False, reports = [], count_index = \<lambda>_. 0\<rparr>"

definition boot_state :: runtime where
  "boot_state = \<lparr>cells = \<lambda>_. 0, LookupStart = 0x1000000000,
     SecondLevelStart = 0x1000000000 + 8 * L1_BITS, SecondLevelEnd = 0x1000000000 + 8 * (init_len div 8),
     mmaps = 1, debugArray = \<lambda>_. False, reports = [], count_index = \<lambda>_. 0\<rparr>"

lemma boot_init: "bitypeInitialization linux_os load_state = Inr boot_state"
  by (simp add: bitypeInitialization_def bitype_mmap_def linux_os_def load_state_def boot_state_def
      zero_fill_def)

lemma boot_reachable: "rt_reachable linux_os rodata boot_state"
  by (rule rt_reachable.boot[OF _ _ _ boot_init]) (simp_all add: load_state_def)

lemma boot_inv: "rt_inv linux_os boot_state"
  using rt_reachable_inv[OF linux_os_ok boot_reachable] by blast

lemma boot_empty: "ref_of boot_state a = 0"
  by (simp add: ref_of_def read_l1_def boot_state_def)

section \<open>Slots and bits\<close>

lemma flip_increases:
  fixes t :: u8
  assumes "k < 8"
  shows "(t XOR push_bit k 1) > t \<longleftrightarrow> \<not> bit t k"
proof -
  have "uint (t XOR push_bit k 1) = flip_bit k (uint t)"
    using assms
    by (intro bit_eqI) (auto simp: bit_simps bit_uint_iff flip_bit_eq_xor)
  moreover have "flip_bit k (uint t) > uint t \<longleftrightarrow> \<not> bit (uint t) k"
  proof (cases "bit (uint t) k")
    case True
    then show ?thesis using unset_bit_less_eq[of k "uint t"] by (simp add: flip_bit_eq_if)
  next
    case False
    moreover have "set_bit k (uint t) \<noteq> uint t"
    proof
      assume "set_bit k (uint t) = uint t"
      then have "bit (set_bit k (uint t)) k = bit (uint t) k" by simp
      with False show False by (simp add: bit_simps)
    qed
    ultimately show ?thesis using set_bit_greater_eq[of "uint t" k] by (simp add: flip_bit_eq_if)
  qed
  moreover have "bit (uint t) k = bit t k" using assms by (simp add: bit_uint_iff)
  ultimately show ?thesis by (simp add: word_less_def)
qed

lemma same_slot_aligned:
  assumes "take_bit 3 a = 0" "take_bit 3 b = 0" "unat a < 2 ^ 48" "unat b < 2 ^ 48"
  shows "same_slot a b \<longleftrightarrow> a = b"
proof
  assume s: "same_slot a b"
  have hi: "\<not> bit x n" if "48 \<le> n" "unat x < 2 ^ 48" for x :: addr and n
  proof -
    have "take_bit 48 (unat x) = unat x" using that(2) by (simp add: take_bit_nat_eq_self)
    then have "\<not> bit (unat x) n" using that(1) by (metis bit_take_bit_iff not_le)
    then show ?thesis by (simp add: bit_unsigned_iff)
  qed
  have "bit a n = bit b n" for n
  proof -
    consider "n < 3" | "3 \<le> n" "n < 26" | "26 \<le> n" "n < 48" | "48 \<le> n" by linarith
    then show ?thesis
    proof cases
      case 1 with assms(1,2) show ?thesis by (metis bit_take_bit_iff bit_0_eq bot_apply bot_bool_def)
    next
      case 2
      with s have "bit (l2_index a) (n - 3) = bit (l2_index b) (n - 3)" by (simp add: same_slot_def)
      moreover have "n - 3 < 23" using 2 by linarith
      ultimately show ?thesis using 2 by (simp add: l2_index_take bit_simps)
    next
      case 3
      with s have "bit (l1_index a) (n - 26) = bit (l1_index b) (n - 26)" by (simp add: same_slot_def)
      moreover have "n - 26 < 22" using 3 by linarith
      ultimately show ?thesis using 3 by (simp add: l1_index_take bit_simps)
    next
      case 4 with hi assms(3,4) show ?thesis by blast
    qed
  qed
  then show "a = b" by (rule bit_word_eqI)
qed simp
section \<open>The table stays well-formed\<close>

definition slot_words :: "runtime \<Rightarrow> addr \<Rightarrow> addr set" where
  "slot_words s a =
     {read_l1 s (l1_index a) + 8 * push_bit 1 (l2_index a),
      read_l1 s (l1_index a) + 8 * (push_bit 1 (l2_index a) + 1)}"

lemma slot_words_disjoint:
  assumes os: "os_ok os" and inv: "rt_inv os s" and t: "has_table s a" "has_table s b"
    and d: "\<not> same_slot a b"
  shows "slot_words s a \<inter> slot_words s b = {}"
proof -
  obtain C where C: "rt_inv_at os C s" using inv by (auto simp: rt_inv_def)
  note w = rt_inv_atD[OF C]
  obtain c where c: "c < C" "read_l1 s (l1_index a) = of_nat (chunk_pos os c)"
    using rt_inv_at_table[OF C l1_index_less] t(1) by (auto simp: has_table_def)
  obtain e where e: "e < C" "read_l1 s (l1_index b) = of_nat (chunk_pos os e)"
    using rt_inv_at_table[OF C l1_index_less] t(2) by (auto simp: has_table_def)
  have lt: "c < 10 * mmaps s" "e < 10 * mmaps s" using c(1) e(1) w(5) by simp_all
  have same: "c = e \<Longrightarrow> l1_index a = l1_index b"
    using rt_inv_at_inj[OF C l1_index_less l1_index_less, of a b] t(1) c(2) e(2)
    by (simp add: has_table_def)
  note i = chunk_inj[OF os w(2) lt]
  show ?thesis
    unfolding slot_words_def c(2) e(2)
    using i[OF idx2_less(1)[of a] idx2_less(1)[of b]] i[OF idx2_less(1)[of a] idx2_less(2)[of b]]
      i[OF idx2_less(2)[of a] idx2_less(1)[of b]] i[OF idx2_less(2)[of a] idx2_less(2)[of b]]
      same d idx2_inj[of a b]
    by (simp add: same_slot_def)
qed

lemma slot_words_level1:
  assumes os: "os_ok os" and inv: "rt_inv os s" and t: "has_table s a" and i: "unat i < 2 ^ 22"
  shows "LookupStart s + 8 * i \<notin> slot_words s a"
proof -
  obtain C where C: "rt_inv_at os C s" using inv by (auto simp: rt_inv_def)
  note w = rt_inv_atD[OF C]
  obtain c where c: "c < C" "read_l1 s (l1_index a) = of_nat (chunk_pos os c)"
    using rt_inv_at_table[OF C l1_index_less] t by (auto simp: has_table_def)
  have lt: "c < 10 * mmaps s" using c(1) w(5) by simp
  show ?thesis
    using l1_not_chunk[OF os w(2,3) i lt idx2_less(1)[of a]]
      l1_not_chunk[OF os w(2,3) i lt idx2_less(2)[of a]]
    by (simp add: slot_words_def c(2))
qed

text \<open>
  C6: Whatever sequence of calls the program makes, as long as the operating system never hands out
  the same memory twice, the words that hold the entries of two different 8-byte slots are different
  words, and none of them is a word of the first-level table: no call can corrupt the record of
  another object or the index itself.
\<close>

theorem reachable_slots_apart:
  assumes "os_ok os" "rt_reachable os rodata s" "has_table s a" "has_table s b" "\<not> same_slot a b"
  shows "slot_words s a \<inter> slot_words s b = {} \<and>
    (\<forall>i. LookupStart s + 8 * (l1_index i) \<notin> slot_words s a)"
  using slot_words_disjoint[OF assms(1) _ assms(3-5)] slot_words_level1[OF assms(1) _ assms(3)]
    rt_reachable_inv[OF assms(1,2)] l1_index_less by blast

section \<open>What updates and erasures record\<close>

lemma updateObjTrace_spec:
  assumes "os_ok os" "rt_inv os s" "bitype_updateObjTrace os p r ts n off s = Inr s'"
  shows "rt_inv os s'"
    "ref_of s' b = (if \<exists>a\<in>set (elem_addrs p ts (unat n)). same_slot a b then r else ref_of s b)"
    "meta_of s' b = (if \<exists>a\<in>set (elem_addrs p ts (unat n)). same_slot a b then so_pack 0 off
       else meta_of s b)"
  using shadow_table.record_all[OF two_level_shadow[OF assms(1)] assms(2)
      assms(3)[unfolded updateObjTrace_fold], of b] by simp_all

text \<open>
  Recording an array of \<open>n\<close> objects of \<open>TypeSize\<close> bytes gives the slot of every element, and no
  other slot, the code array, the offset and size 0; every other slot keeps what it had.
\<close>

theorem updateObjTrace_records_elements:
  assumes "os_ok os" "rt_reachable os rodata s"
    "bitype_updateObjTrace os p r ts n off s = Inr s'"
  shows "(ref_of s' b, meta_of s' b) =
    (if \<exists>i<unat n. same_slot (p + ucast (ts * of_nat i)) b then (r, so_pack 0 off)
     else (ref_of s b, meta_of s b))"
  using updateObjTrace_spec(2,3)[OF assms(1) conjunct1[OF rt_reachable_inv[OF assms(1,2)]] assms(3), of b]
  by (auto simp: elem_addrs_def)

lemma size_recorded:
  assumes "os_ok os" "rt_inv os s" "bitype_update_arraySize os p n s = Inr s'" "p \<noteq> 0" "n \<noteq> 0"
  shows "read_l1 s' (l1_index p) \<noteq> 0"
    "so_size (read_cell (read_l1 s' (l1_index p)) (push_bit 1 (l2_index p) + 1) s') = n"
proof -
  have m: "so_size (meta_of s' p) = n" using update_arraySize_spec(3)[OF assms(1-3), of p] assms(4) by simp
  with assms(5) have "has_table s' p" using meta_of_no_table[of s' p] by (metis so_pack_0(2))
  with m show "read_l1 s' (l1_index p) \<noteq> 0"
    "so_size (read_cell (read_l1 s' (l1_index p)) (push_bit 1 (l2_index p) + 1) s') = n"
    using read_meta[of s' p] by (simp_all add: has_table_def)
qed

text \<open>
  C7: A heap array that was recorded (\<open>__bitype_updateObjTrace\<close>) and had its length recorded
  (\<open>__bitype_update_arraySize\<close>) is forgotten by \<open>__bitype_eraseObj\<close>: it returns, exactly the
  slots of the elements lose their code array, and the length it erases is the recorded one, whatever
  length the caller passes.
\<close>

theorem heap_record_then_erase:
  assumes os: "os_ok os" and reach: "rt_reachable os rodata s" and p: "p \<noteq> 0" and n: "n \<noteq> 0"
    and rec: "bitype_updateObjTrace os p r ts n off s = Inr s1"
    and size: "bitype_update_arraySize os p n s1 = Inr s2"
  shows "\<exists>s3. bitype_eraseObj p p ts m HEAPALLOC s2 = Some s3 \<and>
    (\<forall>b. ref_of s3 b = (if \<exists>i<unat n. same_slot (p + ucast (ts * of_nat i)) b then 0 else ref_of s b))"
proof -
  have inv: "rt_inv os s" using rt_reachable_inv[OF os reach] by blast
  note u = updateObjTrace_spec[OF os inv rec]
  note z = update_arraySize_spec[OF os u(1) size]
  let ?as = "elem_addrs p ts (unat n)"
  have len: "unat (ucast n :: u64) = unat n"
    by (simp add: unsigned_ucast_eq take_bit_nat_eq_self order_less_le_trans [OF unsigned_less])
  have "bitype_eraseObj p p ts m HEAPALLOC s2 = Some (fold clear_slot ?as s2)"
    using size_recorded[OF os u(1) size p n] n eraseObj_loop_elems[of "ucast n" p ts s2] unat32[of n]
    by (simp add: bitype_eraseObj_def Let_def len)
  moreover have "ref_of (fold clear_slot ?as s2) b = (if \<exists>a\<in>set ?as. same_slot a b then 0 else ref_of s b)" for b
    using shadow_table.clear_all[OF two_level_shadow[OF os] z(1), of ?as b] z(2)[of b] u(2)[of b] by simp
  ultimately show ?thesis by (auto simp: elem_addrs_def)
qed

lemma direct_update_cases:
  "bitype_direct_updateObjTrace os a r off s = Inl e \<longleftrightarrow>
     e = Exit BITYPE_ERROR \<and> \<not> has_table s a \<and> SecondLevelEnd s \<le> SecondLevelStart s \<and>
     os (mmaps s) = None"
  by (auto simp: bitype_direct_updateObjTrace_def level2_or_new_def bitype_malloc_new_space_def
      bitype_mmap_def has_table_def Let_def split: option.split)

lemma direct_update_mmaps:
  assumes "bitype_direct_updateObjTrace os a r off s = Inr s'"
  shows "mmaps s' \<le> Suc (mmaps s)"
  using assms
  by (auto simp: bitype_direct_updateObjTrace_def level2_or_new_def bitype_malloc_new_space_def
      bitype_mmap_def Let_def write_size_def write_offset_def bindR_Inr_iff split: option.splits if_splits)

lemma record_total:
  "\<forall>k < mmaps s + length as. os k \<noteq> None \<Longrightarrow>
     \<exists>s'. foldR (\<lambda>a. bitype_direct_updateObjTrace os a r off) as s = Inr s' \<and>
       mmaps s' \<le> mmaps s + length as"
proof (induction as arbitrary: s)
  case (Cons a as)
  then have "os (mmaps s) \<noteq> None" by simp
  then have "\<forall>e. bitype_direct_updateObjTrace os a r off s \<noteq> Inl e"
    by (simp add: direct_update_cases)
  then obtain u where u: "bitype_direct_updateObjTrace os a r off s = Inr u"
    by (meson obj_sumE)
  have "k < mmaps s + length (a # as)" if "k < mmaps u + length as" for k
    using direct_update_mmaps[OF u] that by simp
  with Cons.prems have "\<forall>k < mmaps u + length as. os k \<noteq> None" by blast
  from Cons.IH[OF this] obtain v where
    "foldR (\<lambda>a. bitype_direct_updateObjTrace os a r off) as u = Inr v" "mmaps v \<le> mmaps u + length as"
    by blast
  with u direct_update_mmaps[OF u] show ?case by (intro exI[of _ v]) simp
qed simp

text \<open>
  C10: Recording an object either succeeds or ends the program with code -10, and the latter exactly
  when the object's index has no table, the pool is used up and \<open>mmap\<close> fails: no other input makes
  an update fail.
\<close>

theorem direct_update_fails_only_without_memory:
  "bitype_direct_updateObjTrace os a r off s = Inl e \<longleftrightarrow>
     e = Exit (-10) \<and> read_l1 s (l1_index a) = 0 \<and> SecondLevelEnd s \<le> SecondLevelStart s \<and>
     os (mmaps s) = None"
  by (simp add: direct_update_cases has_table_def BITYPE_ERROR_def)

lemma size_total:
  "os (mmaps s) \<noteq> None \<Longrightarrow> \<exists>s'. bitype_update_arraySize os a n s = Inr s'"
  using level2_or_new_total[of os s "l1_index a"]
  by (auto simp: bitype_update_arraySize_def Let_def)

lemma linux_first: "n < 512 \<Longrightarrow> linux_os n \<noteq> None"
  by (simp add: linux_os_def)

lemma record_boot:
  assumes "unat n < 100"
  shows "\<exists>s. bitype_updateObjTrace linux_os p r ts n off boot_state = Inr s \<and> mmaps s < 200"
proof -
  have m: "mmaps boot_state = 1" by (simp add: boot_state_def)
  have "\<forall>k < mmaps boot_state + length (elem_addrs p ts (unat n)). linux_os k \<noteq> None"
    using assms linux_first by (simp add: m elem_addrs_def)
  from record_total[OF this, of r off] obtain s where
    "bitype_updateObjTrace linux_os p r ts n off boot_state = Inr s"
    "mmaps s \<le> mmaps boot_state + length (elem_addrs p ts (unat n))"
    unfolding updateObjTrace_fold by blast
  moreover have "length (elem_addrs p ts (unat n)) = unat n" by (simp add: elem_addrs_def)
  ultimately show ?thesis using assms m by (intro exI[of _ s]) linarith
qed

lemma reachable_slots_apart_witness:
  "\<exists>s. rt_reachable linux_os (\<lambda>_. 0) s \<and> has_table s 8 \<and> has_table s 16 \<and>
     slot_words s 8 \<inter> slot_words s 16 = {}"
proof -
  obtain s where s: "bitype_updateObjTrace linux_os 8 4096 8 2 0 boot_state = Inr s"
    using record_boot[of 2 8 4096 8 0] by auto
  have reach: "rt_reachable linux_os (\<lambda>_. 0) s"
    by (rule rt_reachable.call[OF boot_reachable rt_step.updateObjTrace[OF s]])
  have "ref_of s 8 = 4096"
    using updateObjTrace_spec(2)[OF linux_os_ok boot_inv s, of 8] by (simp add: elem_addrs_def upt_rec)
  then have t: "has_table s 8" using ref_of_no_table[of s 8] by fastforce
  then have u: "has_table s 16" by (simp add: has_table_def l1_index_def L2_NUM_def)
  have d: "\<not> same_slot 8 16" by (subst same_slot_aligned) (simp_all add: take_bit_eq_mask mask_eq_exp_minus_1)
  from reachable_slots_apart[OF linux_os_ok reach t u d] reach t u show ?thesis by blast
qed

lemma updateObjTrace_records_elements_witness:
  "\<exists>s. bitype_updateObjTrace linux_os 8 4096 8 2 0 boot_state = Inr s \<and>
     ref_of s 16 = 4096 \<and> meta_of s 16 = 0"
proof -
  obtain s where s: "bitype_updateObjTrace linux_os 8 4096 8 2 0 boot_state = Inr s"
    using record_boot[of 2 8 4096 8 0] by auto
  have "\<exists>i<unat (2 :: u32). same_slot (8 + ucast (8 * of_nat i :: u32)) 16"
    by (rule exI[of _ "1 :: nat"]) simp
  with updateObjTrace_records_elements[OF linux_os_ok boot_reachable s, of 16] s show ?thesis by simp
qed

lemma heap_record_then_erase_witness:
  "\<exists>s1 s2 s3. bitype_updateObjTrace linux_os 8 4096 8 2 0 boot_state = Inr s1 \<and>
     bitype_update_arraySize linux_os 8 2 s1 = Inr s2 \<and>
     bitype_eraseObj 8 8 8 77 HEAPALLOC s2 = Some s3 \<and> ref_of s3 16 = 0"
proof -
  obtain s1 where s1: "bitype_updateObjTrace linux_os 8 4096 8 2 0 boot_state = Inr s1" "mmaps s1 < 200"
    using record_boot[of 2 8 4096 8 0] by auto
  obtain s2 where s2: "bitype_update_arraySize linux_os 8 2 s1 = Inr s2"
    using size_total[OF linux_first] s1(2) by fastforce
  obtain s3 where s3: "bitype_eraseObj 8 8 8 77 HEAPALLOC s2 = Some s3"
    and r: "\<forall>b. ref_of s3 b =
      (if \<exists>i<unat (2 :: u32). same_slot (8 + ucast (8 * of_nat i :: u32)) b then 0 else ref_of boot_state b)"
    using heap_record_then_erase[OF linux_os_ok boot_reachable _ _ s1(1) s2, of 77] by auto
  have "ref_of s3 16 = 0" using r by (simp only: boot_empty if_cancel)
  with s1(1) s2 s3 show ?thesis by blast
qed

section \<open>Termination of the erasure\<close>

text \<open>The number of rounds \<open>__bitype_eraseObj\<close> sets out to make; \<open>None\<close> when it makes no loop.\<close>

definition erase_count :: "addr \<Rightarrow> u64 \<Rightarrow> alloc_type \<Rightarrow> runtime \<Rightarrow> nat" where
  "erase_count q n ty s =
     (if ty = HEAPALLOC \<or> ty = REALLOC
      then if has_table s q then (let z = unat (so_size (meta_of s q)) in if z = 0 then 1 else z) else 0
      else unat n)"

lemma unat_ucast32: "unat (ucast (x :: u32) :: u64) = unat x"
  by (simp add: unsigned_ucast_eq take_bit_nat_eq_self order_less_le_trans [OF unsigned_less])

lemma eraseObj_unfold:
  "bitype_eraseObj p q ts n ty s =
     (if (ty = HEAPALLOC \<or> ty = REALLOC) \<and> \<not> has_table s q then Some s
      else eraseObj_loop p ts (of_nat (erase_count q n ty s)) 0 s)"
proof -
  have "(of_nat (unat (so_size c)) :: u64) = ucast (so_size c)" for c
    by (simp add: unat_ucast32 word_unat_eq_iff unsigned_of_nat take_bit_nat_eq_self
        order_less_le_trans [OF unsigned_less])
  moreover have "unat (so_size c) = 0 \<longleftrightarrow> so_size c = 0" for c
    by (simp add: unat_eq_zero)
  ultimately show ?thesis
    using read_meta[of s q]
    by (auto simp: bitype_eraseObj_def erase_count_def has_table_def Let_def)
qed

lemma erase_count_heap:
  "(ty = HEAPALLOC \<or> ty = REALLOC) \<Longrightarrow> erase_count q n ty s < 2 ^ 32"
  using unat32[of "so_size (meta_of s q)"] by (simp add: erase_count_def Let_def)

lemma erase_count_less: "erase_count q n ty s < 2 ^ 64"
proof (cases "ty = HEAPALLOC \<or> ty = REALLOC")
  case True
  from erase_count_heap[OF this, of q n s] show ?thesis by simp
next
  case False
  then show ?thesis using unsigned_less[of n, where 'a = nat] by (auto simp: erase_count_def)
qed

text \<open>
  C8: \<open>__bitype_eraseObj\<close> returns exactly when the number of elements is below \<open>2 ^ 32\<close>: the
  heap paths always return, and a caller-supplied count of \<open>2 ^ 32\<close> or more makes the 32-bit loop
  counter wrap for ever.
\<close>

theorem eraseObj_returns_iff:
  "(\<exists>s'. bitype_eraseObj p q ts n ty s = Some s') \<longleftrightarrow>
     ty = HEAPALLOC \<or> ty = REALLOC \<or> unat n < 2 ^ 32"
proof (cases "ty = HEAPALLOC \<or> ty = REALLOC")
  case True
  have "unat (of_nat (erase_count q n ty s) :: u64) = erase_count q n ty s"
    by (rule unat_of_nat64[OF erase_count_less])
  with erase_count_heap[OF True, of q n s] True show ?thesis
    by (auto simp: eraseObj_unfold eraseObj_loop_elems)
next
  case False
  then have "bitype_eraseObj p q ts n ty s = eraseObj_loop p ts n 0 s"
    by (simp add: bitype_eraseObj_def)
  with False eraseObj_loop_elems[of n p ts s] eraseObj_loop_diverges[of n p ts 0 s]
  show ?thesis by (cases "unat n < 2 ^ 32") (simp, metis not_less)
qed

section \<open>The verdict on a cast\<close>

datatype verdict = Untraced | Confused | Safe

text \<open>
  What the library decides about a cast of the object at \<open>p\<close> to one at \<open>q\<close>, over the two functions
  the table stands for; the class cast to is bit \<open>k\<close> of byte \<open>i\<close> of the code. An object is traced
  when its slot has a code array; the address cast to may not lie below the start of the object.
\<close>

definition object_offset :: "(addr \<Rightarrow> u64) \<Rightarrow> addr \<Rightarrow> u32" where
  "object_offset meta p = (let off = so_offset (meta p) in if off = -1 then 0 else off)"

definition cast_verdict ::
  "(addr \<Rightarrow> u8) \<Rightarrow> (addr \<Rightarrow> addr) \<Rightarrow> (addr \<Rightarrow> u64) \<Rightarrow> addr \<Rightarrow> addr \<Rightarrow> u32 \<Rightarrow> nat \<Rightarrow> verdict" where
  "cast_verdict rodata ref meta p q i k =
     (if p = 0 \<or> ref p = 0 then Untraced
      else if p \<noteq> q \<and> (sint (q - (p - scast (object_offset meta p))) < 0 \<or> ref q = 0) then Confused
      else if bit (rodata (ref q + ucast (i + 2))) k then Safe else Confused)"

lemma check_code_bit:
  "k < 8 \<Longrightarrow> check_code rodata q ra i (2 ^ k) d s =
     (if bit (rodata (ra + ucast i)) k then Inr (q, s) else confusion d s)"
  using flip_increases[of k "rodata (ra + ucast i)"] by (simp add: check_code_def Let_def)

lemma verify_cast_verdict:
  assumes "k < 8"
  shows "bitype_verify_cast rodata p q i (push_bit k 1) d s =
    (case cast_verdict rodata (ref_of s) (meta_of s) p q i k of
       Untraced \<Rightarrow> Inr (p, s) | Safe \<Rightarrow> Inr (q, s) | Confused \<Rightarrow> confusion d s)"
proof -
  have r: "ref_of s a = (if read_l1 s (l1_index a) = 0 then 0
      else read_cell (read_l1 s (l1_index a)) (push_bit 1 (l2_index a)) s)"
    and m: "meta_of s a = (if read_l1 s (l1_index a) = 0 then 0
      else read_cell (read_l1 s (l1_index a)) (push_bit 1 (l2_index a) + 1) s)" for a
    by (simp_all add: ref_of_def meta_of_def Let_def)
  note defs = bitype_verify_cast_def cast_verdict_def object_offset_def Let_def ucast_idx2
    check_code_bit[OF assms] r m
  consider "p = 0" | "p \<noteq> 0" "read_l1 s (l1_index p) = 0" | "p \<noteq> 0" "read_l1 s (l1_index p) \<noteq> 0"
    by blast
  then show ?thesis
  proof cases
    case 3
    then show ?thesis
      by (cases "p = q"; cases "read_l1 s (l1_index q) = 0") (simp_all add: defs)
  qed (simp_all add: defs)
qed

text \<open>
  C4: \<open>verify_cast\<close> implements the abstract verdict: an untraced object is passed through, a safe
  cast gives the pointer cast to, and everything else is reported as a type confusion.
\<close>

theorem verify_cast_refines_verdict:
  assumes "k < 8"
  shows "bitype_verify_cast rodata p q i (push_bit k 1) d s =
    (case cast_verdict rodata (ref_of s) (meta_of s) p q i k of
       Untraced \<Rightarrow> Inr (p, s) | Safe \<Rightarrow> Inr (q, s) | Confused \<Rightarrow> confusion d s)"
  by (rule verify_cast_verdict[OF assms])

lemma verify_cast_refines_verdict_witness:
  "bitype_verify_cast (\<lambda>_. 5) 8 8 0 (push_bit 2 1) 3 boot_state = Inr (8, boot_state)"
  using verify_cast_refines_verdict[of 2 "\<lambda>_. 5" 8 8 0 3 boot_state]
  by (simp add: cast_verdict_def boot_empty)

section \<open>Reports\<close>

text \<open>
  C9: In every state the program can reach, a location with a non-negative index has been reported
  at most once, and calling the report function with it leaves it reported exactly once.
\<close>

theorem location_reported_once:
  assumes "os_ok os" "rt_reachable os rodata s" "0 \<le> d"
  shows "count_list (reports s) d \<le> 1 \<and>
    (\<forall>s'. bitype_print_type_confusion d s = Inr s' \<longrightarrow> count_list (reports s') d = 1)"
proof -
  have ok: "reports_ok s" using rt_reachable_inv[OF assms(1,2)] by blast
  with assms(3) have "count_list (reports s) d \<le> 1" by (simp add: reports_ok_def)
  moreover have "count_list (reports s') d = 1" if r: "bitype_print_type_confusion d s = Inr s'" for s'
  proof -
    have "debugArray s' (nat d)"
      using r assms(3) by (auto simp: bitype_print_type_confusion_def printTypeConfusion_def split: if_splits)
    with print_confusion_ok(1)[OF r[unfolded print_type_confusion_eq] ok] assms(3)
    show ?thesis by (simp add: reports_ok_def)
  qed
  ultimately show ?thesis by blast
qed

lemma location_reported_once_witness:
  "\<exists>s'. bitype_print_type_confusion 7 boot_state = Inr s' \<and> count_list (reports s') 7 = 1"
proof -
  obtain s' where "bitype_print_type_confusion 7 boot_state = Inr s'"
    by (simp add: bitype_print_type_confusion_def boot_state_def debugArray_size_def)
  with location_reported_once[OF linux_os_ok boot_reachable, where d = 7] show ?thesis by auto
qed

lemma step_reports:
  assumes os: "os_ok os" and step: "rt_step os rodata s s'" and inv: "rt_inv os s"
  shows "set (reports s) \<subseteq> set (reports s')"
proof -
  have p: "set (reports s) \<subseteq> set (reports t)" if "print_confusion_inline d s = Inr t" for d t
    using that by (auto simp: print_confusion_inline_def printTypeConfusion_def split: if_splits)
  show ?thesis
    using step
  proof (cases rule: rt_step.cases)
    case (update_arraySize a n)
    with update_arraySize_spec(4)[OF os inv] show ?thesis by simp
  next
    case (direct_update a r off)
    with direct_update_spec(4)[OF os inv] show ?thesis by simp
  next
    case (updateObjTrace a r ts n off)
    with updateObjTrace_frame[OF os inv] show ?thesis by (simp add: updateObjTrace_fold)
  next
    case (reinterpret_cast a r off)
    with reinterpret_frame[OF os inv] show ?thesis by simp
  next
    case (eraseObj a q ts m ty)
    then obtain as where "s' = fold clear_slot as s" using eraseObj_elems by blast
    then show ?thesis by simp
  next
    case (cast_verification x q i c d)
    then obtain r where "bitype_verify_cast rodata x q i c d s = Inr (r, s')"
      by (auto simp: bitype_cast_verification_def bindR_Inr_iff)
    from verify_cast_state[OF this] p show ?thesis by blast
  next
    case (dynamic_cast q i c r)
    from verify_cast_state[OF this[unfolded bitype_dynamic_cast_verification_def]] p show ?thesis by blast
  next
    case (print_confusion d)
    with p show ?thesis unfolding print_type_confusion_eq by blast
  next
    case (update_count ty v)
    then show ?thesis by (cases ty) (auto simp: IncVal_def)
  qed simp_all
qed

lemma steps_reports:
  assumes "os_ok os" "(rt_step os rodata)\<^sup>*\<^sup>* s t" "rt_inv os s" "reports_ok s"
  shows "set (reports s) \<subseteq> set (reports t) \<and> rt_inv os t \<and> reports_ok t"
  using assms(2)
proof (induction rule: rtranclp_induct)
  case (step t v)
  with step_reports[OF assms(1), of rodata t v] rt_step_inv[OF assms(1), of rodata t v] show ?case by blast
qed (use assms(3,4) in simp)

text \<open>
  C5: A confused cast does not go unnoticed: whatever the state, the check of a cast whose verdict is \<open>Confused\<close>
  returns if the index of its location fits the array of locations, its location is then among the reports, and it
  stays there however the program goes on.
\<close>

theorem confused_cast_reported:
  assumes "os_ok os" "rt_reachable os rodata s" "d < 10000" "k < 8"
    "cast_verdict rodata (ref_of s) (meta_of s) p q i k = Confused"
  shows "\<exists>s'. bitype_cast_verification rodata p q i (push_bit k 1) d s = Inr s' \<and>
    (\<forall>t. (rt_step os rodata)\<^sup>*\<^sup>* s' t \<longrightarrow> d \<in> set (reports t))"
proof -
  have inv: "rt_inv os s" "reports_ok s" using rt_reachable_inv[OF assms(1,2)] by blast+
  have "\<exists>s'. print_confusion_inline d s = Inr s'"
    using assms(3) by (simp add: print_confusion_inline_def debugArray_size_def)
  then obtain s' where r: "print_confusion_inline d s = Inr s'" by blast
  have c: "bitype_cast_verification rodata p q i (push_bit k 1) d s = Inr s'"
    unfolding bitype_cast_verification_def verify_cast_verdict[OF assms(4)] assms(5) by (simp add: confusion_def r)
  have inv': "rt_inv os s'" "reports_ok s'" using print_confusion_ok[OF r] inv by blast+
  have "d \<in> set (reports s')"
  proof (cases "0 \<le> d \<and> debugArray s (nat d)")
    case True
    with r have "s' = s" using assms(3) by (simp add: print_confusion_inline_def debugArray_size_def)
    moreover have "count_list (reports s) d = 1" using True inv(2) by (simp add: reports_ok_def)
    ultimately show ?thesis using count_notin[of d "reports s"] by fastforce
  next
    case False
    with r show ?thesis by (auto simp: print_confusion_inline_def printTypeConfusion_def split: if_splits)
  qed
  then have "d \<in> set (reports t)" if "(rt_step os rodata)\<^sup>*\<^sup>* s' t" for t
    using steps_reports[OF assms(1) that inv'] by blast
  with c show ?thesis by blast
qed

lemma confused_cast_reported_witness:
  "\<exists>s s'. bitype_direct_updateObjTrace linux_os 8 4096 0 boot_state = Inr s \<and>
     bitype_cast_verification (\<lambda>_. 0) 8 8 0 (push_bit 1 1) 3 s = Inr s' \<and> 3 \<in> set (reports s')"
proof -
  have "linux_os (mmaps boot_state) \<noteq> None" by (rule linux_first) (simp add: boot_state_def)
  then have "\<forall>e. bitype_direct_updateObjTrace linux_os 8 4096 0 boot_state \<noteq> Inl e"
    by (simp add: direct_update_cases)
  then obtain s where s: "bitype_direct_updateObjTrace linux_os 8 4096 0 boot_state = Inr s" by (meson obj_sumE)
  have reach: "rt_reachable linux_os (\<lambda>_. 0) s"
    by (rule rt_reachable.call[OF boot_reachable rt_step.direct_update[OF s]])
  have "ref_of s 8 = 4096" using direct_update_spec(2)[OF linux_os_ok boot_inv s, of 8] by simp
  then have "cast_verdict (\<lambda>_. 0) (ref_of s) (meta_of s) 8 8 0 1 = Confused" by (simp add: cast_verdict_def)
  with confused_cast_reported[OF linux_os_ok reach, of 3 1 8 8 0] s show ?thesis by fastforce
qed

text \<open>
  A location whose index does not fit the array of reported locations makes the report access
  the array out of its bounds, from every state: the index is the compiler's count of cast sites
  and nothing bounds it.
\<close>

theorem report_out_of_bounds_iff:
  "bitype_print_type_confusion d s = Inl e \<longleftrightarrow> e = OutOfBounds \<and> 10000 \<le> d"
  by (auto simp: bitype_print_type_confusion_def debugArray_size_def)

text \<open>
  Two objects at 8-byte aligned addresses of the user address space (below \<open>2 ^ 48\<close>) share a
  slot of the table only if they are at the same address.
\<close>

theorem aligned_objects_have_own_slot:
  assumes "8 dvd unat a" "8 dvd unat b" "unat a < 2 ^ 48" "unat b < 2 ^ 48"
  shows "(l1_index a = l1_index b \<and> l2_index a = l2_index b) \<longleftrightarrow> a = b"
proof -
  have "take_bit 3 x = 0" if "8 dvd unat x" for x :: addr
    using that by (simp add: word_unat_eq_iff unat_mod take_bit_eq_mod dvd_imp_mod_0)
  with same_slot_aligned[of a b] assms show ?thesis by (simp add: same_slot_def)
qed

lemma aligned_objects_have_own_slot_witness:
  "\<not> (l1_index 0x7FFF00000010 = l1_index 0x7FFF00000018 \<and> l2_index 0x7FFF00000010 = l2_index 0x7FFF00000018)"
  using aligned_objects_have_own_slot[of "0x7FFF00000010" "0x7FFF00000018"] by simp

end
