(* ===== verification/ClassGraph.thy ===== *)
theory ClassGraph
  imports Bitype_Prelude "HOL-Library.Multiset"
begin

text \<open>
  The class finder, \<open>tools/extra/classDecls/FindClassDecls.cpp\<close>, first part: what it collects while
  it walks the abstract syntax trees of a program. Clang's trees are its input; the model has the
  parts of a class, a field and a cast that the visitor asks for. The tables the visitor fills are
  global variables of the tool and form the record \<open>class_db\<close>. The three adjacency matrices have
  \<open>MAX_NUM_CLASS\<close> rows and columns; an access beyond them is the error \<open>MatrixOutOfBounds\<close>.
\<close>

section \<open>What the visitor sees of the syntax tree\<close>

datatype field_type = NullQualType | StructureOrClassType | ArrayType field_type | OtherFieldType

record cxx_field =
  fd_name :: string
  fd_type :: field_type
  fd_offset_bits :: nat

text \<open>
  \<open>rd_name\<close> is empty for a class without a name; alignment and size are those of the record layout,
  which Clang has for classes outside a dependent context.
\<close>

record rd_info =
  rd_name :: string
  rd_has_definition :: bool
  rd_complete :: bool
  rd_anonymous :: bool
  rd_dependent :: bool
  rd_aggregate :: bool
  rd_polymorphic :: bool
  rd_alignment :: int
  rd_size :: int
  rd_fields :: "cxx_field list"

text \<open>A base specifier whose type is no record type, a record without a definition, or a class.\<close>

datatype cxx_record = CXXRecord (rd_of: rd_info) (bases_spec: "base_spec list")
  and base_spec = NonRecordBase | UndefinedBase | DefinedBase cxx_record

abbreviation getName :: "cxx_record \<Rightarrow> string" where
  "getName r \<equiv> rd_name (rd_of r)"

text \<open>The type of an operand or of the result of a cast.\<close>

datatype clang_type = PointerTo "cxx_record option" | ReferenceTo "cxx_record option" | OtherType

datatype cast_kind = CK_BaseToDerived | CK_DerivedToBase | CK_BitCast | CK_Other

record cast_expr =
  ce_kind :: cast_kind
  ce_loc :: "(string \<times> nat) option"
  ce_type :: clang_type
  ce_sub_type :: clang_type

datatype ast_node = RecordDecl cxx_record | CastNode cast_expr

fun getPointeeCXXRecordDecl :: "clang_type \<Rightarrow> cxx_record option" where
  "getPointeeCXXRecordDecl (PointerTo r) = r"
| "getPointeeCXXRecordDecl (ReferenceTo r) = r"
| "getPointeeCXXRecordDecl OtherType = None"

section \<open>The tables\<close>

definition MAX_NUM_CLASS :: nat where "MAX_NUM_CLASS = 35000"

datatype tool_error = ToolExit int | MatrixOutOfBounds

type_synonym matrix = "nat \<Rightarrow> nat \<Rightarrow> bool"

record class_db =
  classCode :: "(string, nat) smap"
  numberName :: "(nat, string) smap"
  currentIndex :: nat
  relations :: "(string, string list) smap"
  castClass :: "string sset"
  castrelatedClass :: "string sset"
  hasVisitedField :: "string sset"
  downCastVec :: "string sset"
  classSize :: "(string, int) smap"
  downCastLoc :: "string sset"
  basedCastClass :: "string sset"
  graph :: matrix
  graph_phantoms :: matrix
  graph_family :: matrix

definition initgraph :: class_db where
  "initgraph = \<lparr>classCode = [], numberName = [], currentIndex = 0, relations = [], castClass = [],
     castrelatedClass = [], hasVisitedField = [], downCastVec = [], classSize = [],
     downCastLoc = [], basedCastClass = [], graph = \<lambda>_ _. False, graph_phantoms = \<lambda>_ _. False,
     graph_family = \<lambda>_ _. False\<rparr>"

text \<open>The index of a class name, a fresh one at its first occurrence.\<close>

definition class_index :: "string \<Rightarrow> class_db \<Rightarrow> nat \<times> class_db" where
  "class_index name db =
     (case map_find (classCode db) name of
        Some i \<Rightarrow> (i, db)
      | None \<Rightarrow> (currentIndex db,
          db\<lparr>numberName := map_insert (currentIndex db) name (numberName db),
             classCode := map_insert name (currentIndex db) (classCode db),
             currentIndex := currentIndex db + 1\<rparr>))"

text \<open>The same where the code checks the number of classes.\<close>

definition class_index_checked :: "string \<Rightarrow> class_db \<Rightarrow> tool_error + nat \<times> class_db" where
  "class_index_checked name db =
     (case map_find (classCode db) name of
        Some i \<Rightarrow> Inr (i, db)
      | None \<Rightarrow>
          let db' = db\<lparr>numberName := map_insert (currentIndex db) name (numberName db),
                       classCode := map_insert name (currentIndex db) (classCode db),
                       currentIndex := currentIndex db + 1\<rparr>
          in if currentIndex db' > MAX_NUM_CLASS then Inl (ToolExit (-1))
             else Inr (currentIndex db, db'))"

definition mark :: "nat \<Rightarrow> nat \<Rightarrow> matrix \<Rightarrow> tool_error + matrix" where
  "mark i j g =
     (if i < MAX_NUM_CLASS \<and> j < MAX_NUM_CLASS then Inr (g(i := (g i)(j := True)))
      else Inl MatrixOutOfBounds)"

definition mark_graph :: "nat \<Rightarrow> nat \<Rightarrow> class_db \<Rightarrow> tool_error + class_db" where
  "mark_graph i j db = bindR (mark i j (graph db)) (\<lambda>g. Inr (db\<lparr>graph := g\<rparr>))"

definition mark_phantoms :: "nat \<Rightarrow> nat \<Rightarrow> class_db \<Rightarrow> tool_error + class_db" where
  "mark_phantoms i j db =
     bindR (mark i j (graph_phantoms db)) (\<lambda>g. Inr (db\<lparr>graph_phantoms := g\<rparr>))"

definition mark_family :: "nat \<Rightarrow> nat \<Rightarrow> class_db \<Rightarrow> tool_error + class_db" where
  "mark_family i j db =
     bindR (mark i j (graph_family db)) (\<lambda>g. Inr (db\<lparr>graph_family := g\<rparr>))"

text \<open>Bases are merged into the relations of a class that has some already, in order, once each.\<close>

definition merge_relation :: "string \<Rightarrow> string list \<Rightarrow> class_db \<Rightarrow> class_db" where
  "merge_relation name tempBaseVec db =
     (if tempBaseVec = [] then db
      else case map_find (relations db) name of
        None \<Rightarrow> db\<lparr>relations := map_insert name tempBaseVec (relations db)\<rparr>
      | Some bs \<Rightarrow>
          db\<lparr>relations := map_put name
               (fold (\<lambda>t bs. if t \<in> set bs then bs else bs @ [t]) tempBaseVec bs) (relations db)\<rparr>)"

section \<open>CollectAllBases\<close>

fun defined_base :: "base_spec \<Rightarrow> cxx_record list" where
  "defined_base (DefinedBase b) = [b]"
| "defined_base _ = []"

definition direct_bases :: "cxx_record \<Rightarrow> cxx_record list" where
  "direct_bases r = concat (map defined_base (bases_spec r))"

lemma size_base_spec: "b \<in> set (defined_base s) \<Longrightarrow> size b < size s"
  by (cases s) auto

lemma sum_size_direct_bases: "sum_list (map size (direct_bases r)) < size r"
proof -
  have "sum_list (map size (concat (map defined_base bs))) \<le> size_list size bs" for bs
  proof (induction bs)
    case (Cons s bs)
    then show ?case by (cases s) auto
  qed simp
  then show ?thesis
    by (cases r) (simp add: direct_bases_def less_Suc_eq_le)
qed

function collect_loop :: "cxx_record \<Rightarrow> cxx_record list \<Rightarrow> cxx_record list \<Rightarrow> cxx_record list" where
  "collect_loop Record Queue bases =
     (let Queue = Queue @ direct_bases Record; bases = bases @ direct_bases Record
      in if Queue = [] then bases else collect_loop (last Queue) (butlast Queue) bases)"
  by pat_completeness auto
termination
proof (relation "measure (\<lambda>(r, q, _). size r + sum_list (map size q))", goal_cases)
  case 1
  show ?case by simp
next
  case (2 r q bases q' bases')
  have "sum_list (map size q') = sum_list (map size (butlast q' @ [last q']))"
    using 2(3) by (simp only: append_butlast_last_id not_False_eq_True)
  then have "sum_list (map size (butlast q')) + size (last q') = sum_list (map size q')" by simp
  moreover have "sum_list (map size q') = sum_list (map size q) + sum_list (map size (direct_bases r))"
    using 2(1) by simp
  ultimately show ?case using sum_size_direct_bases[of r] by simp
qed

declare collect_loop.simps [simp del]

definition CollectAllBases :: "cxx_record \<Rightarrow> cxx_record list" where
  "CollectAllBases BaseRD = collect_loop BaseRD [] []"

section \<open>VisitCXXRecordDecl\<close>

fun getElemQualTypeOrNull :: "field_type \<Rightarrow> bool \<Rightarrow> field_type \<times> bool" where
  "getElemQualTypeOrNull NullQualType c = (NullQualType, c)"
| "getElemQualTypeOrNull StructureOrClassType c = (StructureOrClassType, True)"
| "getElemQualTypeOrNull (ArrayType t) c = getElemQualTypeOrNull t c"
| "getElemQualTypeOrNull OtherFieldType c = (NullQualType, c)"

text \<open>The body of the loop over the fields; note that the index is that of the field's own name.\<close>

definition visit_field :: "string \<Rightarrow> cxx_field \<Rightarrow> class_db \<Rightarrow> tool_error + class_db" where
  "visit_field declName FD db =
     (if fd_name FD = [] then Inr db
      else let (ElemQT, isCompundElem) = getElemQualTypeOrNull (fd_type FD) False in
      if ElemQT = NullQualType \<or> \<not> isCompundElem then Inr db
      else if fd_offset_bits FD = 0
      then bindR (class_index_checked declName db) (\<lambda>(declIndex, db).
           bindR (class_index_checked (fd_name FD) db) (\<lambda>(fieldIndex, db).
           bindR (mark_graph declIndex fieldIndex db) (\<lambda>db.
             mark_graph fieldIndex declIndex db)))
      else Inr db)"

definition visit_layout :: "cxx_record \<Rightarrow> class_db \<Rightarrow> tool_error + class_db" where
  "visit_layout Declaration db =
     (let declName = getName Declaration; info = rd_of Declaration in
      if declName \<notin> set (hasVisitedField db) \<and> \<not> rd_dependent info
      then let db = db\<lparr>hasVisitedField := set_insert declName (hasVisitedField db),
                       classSize := map_insert declName (rd_alignment info) (classSize db)\<rparr>
           in if \<not> rd_aggregate info \<and> \<not> rd_polymorphic info
              then foldR (visit_field declName) (rd_fields info) db
              else Inr db
      else Inr db)"

text \<open>The body of the loop over the bases of a visited class.\<close>

definition visit_base ::
  "cxx_record \<Rightarrow> nat \<Rightarrow> cxx_record \<Rightarrow> class_db \<times> string list \<Rightarrow> tool_error + class_db \<times> string list" where
  "visit_base Declaration declIndex Base = (\<lambda>(db, tempBaseVec).
     let baseName = getName Base in
     if baseName = [] then Inr (db, tempBaseVec)
     else let tempBaseVec = tempBaseVec @ [baseName];
              (baseIndex, db) = class_index baseName db
     in bindR (mark_graph baseIndex declIndex db) (\<lambda>db.
        bindR (mark_graph declIndex baseIndex db) (\<lambda>db.
        bindR (mark_family baseIndex declIndex db) (\<lambda>db.
        bindR (mark_family declIndex baseIndex db) (\<lambda>db.
          if \<not> rd_dependent (rd_of Declaration) \<and> \<not> rd_dependent (rd_of Base) \<and>
             rd_size (rd_of Declaration) = rd_size (rd_of Base)
          then bindR (mark_phantoms baseIndex declIndex db) (\<lambda>db.
               bindR (mark_phantoms declIndex baseIndex db) (\<lambda>db. Inr (db, tempBaseVec)))
          else Inr (db, tempBaseVec))))))"

definition VisitCXXRecordDecl :: "cxx_record \<Rightarrow> class_db \<Rightarrow> tool_error + class_db" where
  "VisitCXXRecordDecl Declaration db =
     (if rd_has_definition (rd_of Declaration) \<and> \<not> rd_anonymous (rd_of Declaration)
      then if getName Declaration = [] then Inr db
      else let declName = getName Declaration in
        bindR (visit_layout Declaration db) (\<lambda>db.
        let (declIndex, db) = class_index declName db in
        bindR (foldR (visit_base Declaration declIndex) (CollectAllBases Declaration) (db, []))
          (\<lambda>(db, tempBaseVec). Inr (merge_relation declName tempBaseVec db)))
      else Inr db)"

section \<open>VisitCastExpr\<close>

definition relate_base ::
  "cxx_record \<Rightarrow> nat \<Rightarrow> cxx_record \<Rightarrow> class_db \<times> string list \<Rightarrow> tool_error + class_db \<times> string list" where
  "relate_base current currentDeclIndex base = (\<lambda>(db, tempBaseVec).
     let baseName = getName base;
         tempBaseVec = tempBaseVec @ [baseName];
         (currentBaseIndex, db) = class_index baseName db
     in bindR (mark_graph currentDeclIndex currentDeclIndex db) (\<lambda>db.
        bindR (mark_graph currentBaseIndex currentDeclIndex db) (\<lambda>db.
        bindR (mark_family currentBaseIndex currentDeclIndex db) (\<lambda>db.
        bindR (mark_family currentDeclIndex currentBaseIndex db) (\<lambda>db.
          if \<not> rd_dependent (rd_of current) \<and> \<not> rd_dependent (rd_of base) \<and>
             rd_size (rd_of current) = rd_size (rd_of base)
          then bindR (mark_phantoms currentDeclIndex currentBaseIndex db) (\<lambda>db.
               bindR (mark_phantoms currentBaseIndex currentDeclIndex db) (\<lambda>db. Inr (db, tempBaseVec)))
          else Inr (db, tempBaseVec))))))"

definition addRelationShip :: "cxx_record list \<Rightarrow> cxx_record \<Rightarrow> class_db \<Rightarrow> tool_error + class_db" where
  "addRelationShip bases current db =
     (let ddname = getName current;
          (currentDeclIndex, db) = class_index ddname db
      in bindR (foldR (relate_base current currentDeclIndex) bases (db, []))
           (\<lambda>(db, tempBaseVec). Inr (merge_relation ddname tempBaseVec db)))"

text \<open>A class and then each of its bases is related to all its own bases.\<close>

definition relate_hierarchy :: "cxx_record \<Rightarrow> class_db \<Rightarrow> tool_error + class_db" where
  "relate_hierarchy derivedCXX db =
     (let baseVec = CollectAllBases derivedCXX in
      bindR (addRelationShip baseVec derivedCXX db)
        (foldR (\<lambda>base. addRelationShip (CollectAllBases base) base) baseVec))"

definition note_location :: "(string \<times> nat) option \<Rightarrow> class_db \<Rightarrow> class_db" where
  "note_location PLoc db =
     (case PLoc of None \<Rightarrow> db
      | Some (filename, line) \<Rightarrow>
          db\<lparr>downCastLoc := set_insert (filename @ '':'' @ digits_of line) (downCastLoc db)\<rparr>)"

definition visit_BaseToDerived :: "cast_expr \<Rightarrow> class_db \<Rightarrow> tool_error + class_db" where
  "visit_BaseToDerived CE db =
     (let db = note_location (ce_loc CE) db in
      bindR (case getPointeeCXXRecordDecl (ce_type CE) of
               None \<Rightarrow> Inr db
             | Some derivedCXX \<Rightarrow>
                 let ddname = getName derivedCXX;
                     db = db\<lparr>downCastVec := set_insert ddname (downCastVec db)\<rparr>
                 in bindR (relate_hierarchy derivedCXX db) (\<lambda>db.
                      Inr (db\<lparr>castClass := set_insert ddname (castClass db)\<rparr>)))
        (\<lambda>db. case getPointeeCXXRecordDecl (ce_sub_type CE) of
             None \<Rightarrow> Inr db
           | Some basedCXX \<Rightarrow>
               let bbname = getName basedCXX in
               Inr (db\<lparr>castClass := set_insert bbname (castClass db),
                       basedCastClass := set_insert bbname (basedCastClass db)\<rparr>)))"

definition visit_DerivedToBase :: "cast_expr \<Rightarrow> class_db \<Rightarrow> tool_error + class_db" where
  "visit_DerivedToBase CE db =
     (case getPointeeCXXRecordDecl (ce_sub_type CE) of
        None \<Rightarrow> Inr db
      | Some derivedCXX \<Rightarrow> relate_hierarchy derivedCXX db)"

text \<open>One side of a bit cast, which only looks through pointers.\<close>

definition visit_bitcast_side :: "clang_type \<Rightarrow> class_db \<Rightarrow> tool_error + class_db" where
  "visit_bitcast_side ty db =
     (case ty of
        PointerTo (Some ClassDecl) \<Rightarrow>
          if rd_complete (rd_of ClassDecl) \<and> rd_has_definition (rd_of ClassDecl) \<and>
             \<not> rd_anonymous (rd_of ClassDecl)
          then addRelationShip (CollectAllBases ClassDecl) ClassDecl db
          else Inr db
      | _ \<Rightarrow> Inr db)"

definition visit_BitCast :: "cast_expr \<Rightarrow> class_db \<Rightarrow> tool_error + class_db" where
  "visit_BitCast CE db =
     bindR (visit_bitcast_side (ce_type CE) db) (visit_bitcast_side (ce_sub_type CE))"

definition VisitCastExpr :: "cast_expr \<Rightarrow> class_db \<Rightarrow> tool_error + class_db" where
  "VisitCastExpr CE db =
     (case ce_kind CE of
        CK_BaseToDerived \<Rightarrow> visit_BaseToDerived CE db
      | CK_DerivedToBase \<Rightarrow> visit_DerivedToBase CE db
      | CK_BitCast \<Rightarrow> visit_BitCast CE db
      | CK_Other \<Rightarrow> Inr db)"

fun visit_node :: "ast_node \<Rightarrow> class_db \<Rightarrow> tool_error + class_db" where
  "visit_node (RecordDecl r) = VisitCXXRecordDecl r"
| "visit_node (CastNode c) = VisitCastExpr c"

text \<open>
  The run of the tool over its translation units: the visitor is called on the nodes of every
  top-level declaration, in the order in which Clang hands them over.
\<close>

definition HandleTopLevelDecl :: "ast_node list \<Rightarrow> class_db \<Rightarrow> tool_error + class_db" where
  "HandleTopLevelDecl nodes db = foldR visit_node nodes db"

end
