(* ===== verification/ClassFamilies.thy ===== *)
theory ClassFamilies
  imports ClassGraph
begin

text \<open>
  The class finder, second part: what it computes once the syntax trees are walked. The adjacency
  matrices are split into families by a depth-first search with an explicit stack, every class that
  is the target of a down cast gets a code number inside its family, and the classes related to a
  cast are collected.
\<close>

section \<open>Depth-first search\<close>

type_synonym bitmap = "nat \<Rightarrow> bool"

text \<open>The \<open>for\<close> loop that pushes the unvisited neighbours of \<open>v\<close>; the top of the stack is the head.\<close>

definition push_neighbours ::
  "matrix \<Rightarrow> nat \<Rightarrow> nat \<Rightarrow> nat list \<times> bitmap \<Rightarrow> tool_error + nat list \<times> bitmap" where
  "push_neighbours graphtemp n v =
     foldR (\<lambda>i (s, visited).
       if MAX_NUM_CLASS \<le> v \<or> MAX_NUM_CLASS \<le> i then Inl MatrixOutOfBounds
       else if graphtemp v i \<and> \<not> visited i then Inr (i # s, visited(i := True))
       else Inr (s, visited)) [0..<n]"

definition unvisited :: "nat \<Rightarrow> bitmap \<Rightarrow> nat set" where
  "unvisited n visited = {i. i < n \<and> \<not> visited i}"

lemma finite_unvisited [simp]: "finite (unvisited n vis)"
  by (simp add: unvisited_def)

lemma unvisited_mark:
  "i < n \<Longrightarrow> \<not> vis i \<Longrightarrow> Suc (card (unvisited n (vis(i := True)))) = card (unvisited n vis)"
proof -
  assume i: "i < n" "\<not> vis i"
  have "unvisited n (vis(i := True)) = unvisited n vis - {i}" by (auto simp: unvisited_def)
  moreover have "i \<in> unvisited n vis" using i by (simp add: unvisited_def)
  ultimately show ?thesis using card_Suc_Diff1[of "unvisited n vis" i] by simp
qed

lemma push_neighbours_measure:
  assumes "push_neighbours g n v (s, vis) = Inr (s', vis')"
  shows "card (unvisited n vis') + length s' = card (unvisited n vis) + length s"
proof -
  define P :: "nat list \<times> bitmap \<Rightarrow> bool"
    where "P = (\<lambda>(s', vis'). card (unvisited n vis') + length s' = card (unvisited n vis) + length s)"
  have "P (s', vis')"
  proof (rule foldR_inv[OF assms[unfolded push_neighbours_def]])
    fix x u w
    assume "x \<in> set [0..<n]" "P u" "(case u of (s, visited) \<Rightarrow>
        if MAX_NUM_CLASS \<le> v \<or> MAX_NUM_CLASS \<le> x then Inl MatrixOutOfBounds
        else if g v x \<and> \<not> visited x then Inr (x # s, visited(x := True))
        else Inr (s, visited)) = (Inr w :: tool_error + nat list \<times> bitmap)"
    then show "P w" using unvisited_mark[of x n "snd u"]
      by (cases u) (auto simp: P_def split: if_splits)
  qed (simp add: P_def)
  then show ?thesis by (simp add: P_def)
qed

function dfs_component ::
  "matrix \<Rightarrow> nat \<Rightarrow> nat list \<Rightarrow> bitmap \<Rightarrow> nat list \<Rightarrow> tool_error + nat list \<times> bitmap" where
  "dfs_component graphtemp n s visited currentSet =
     (case s of
        [] \<Rightarrow> Inr (currentSet, visited)
      | v # s \<Rightarrow>
          (case push_neighbours graphtemp n v (s, visited) of
             Inl e \<Rightarrow> Inl e
           | Inr (s, visited) \<Rightarrow> dfs_component graphtemp n s visited (currentSet @ [v])))"
  by pat_completeness auto
termination
  by (relation "measure (\<lambda>(g, n, s, vis, cur). card (unvisited n vis) + length s)")
    (auto dest: push_neighbours_measure)

declare dfs_component.simps [simp del]

text \<open>
  The search for the next node: the bitmap, which has \<open>MAX_NUM_CLASS\<close> bits, is read before
  \<open>startNode\<close> is compared with the number of classes.
\<close>

function next_unvisited :: "bitmap \<Rightarrow> nat \<Rightarrow> nat \<Rightarrow> tool_error + nat" where
  "next_unvisited visited n startNode =
     (if MAX_NUM_CLASS \<le> startNode then Inl MatrixOutOfBounds
      else if visited startNode \<and> startNode < n then next_unvisited visited n (startNode + 1)
      else Inr startNode)"
  by pat_completeness auto
termination by (relation "measure (\<lambda>(_, n, i). n - i)") auto

declare next_unvisited.simps [simp del]

lemma push_neighbours_mono:
  assumes "push_neighbours g n v (s, vis) = Inr (s', vis')" "vis i"
  shows "vis' i"
proof -
  have "(\<lambda>(s', vis'). vis' i) (s', vis')"
    by (rule foldR_inv[OF assms(1)[unfolded push_neighbours_def]]) (auto simp: assms(2) split: if_splits)
  then show ?thesis by simp
qed

lemma dfs_component_mono:
  "dfs_component g n s vis cur = Inr (cur', vis') \<Longrightarrow> vis i \<Longrightarrow> vis' i"
proof (induction g n s vis cur rule: dfs_component.induct)
  case (1 g n s vis cur)
  show ?case
  proof (cases s)
    case Nil
    with "1.prems" show ?thesis by (simp add: dfs_component.simps)
  next
    case (Cons v t)
    with "1.prems"(1) obtain t' vis1 where p: "push_neighbours g n v (t, vis) = Inr (t', vis1)"
      and d: "dfs_component g n t' vis1 (cur @ [v]) = Inr (cur', vis')"
      by (subst (asm) dfs_component.simps) (auto split: sum.splits)
    from "1.IH"[OF Cons p _ d] push_neighbours_mono[OF p "1.prems"(2)] show ?thesis by simp
  qed
qed

lemma next_unvisited_found:
  assumes "next_unvisited vis n i = Inr j"
  shows "(j < n \<longrightarrow> \<not> vis j) \<and> (i \<le> n \<longrightarrow> j \<le> n) \<and> (\<forall>k. i \<le> k \<longrightarrow> k < j \<longrightarrow> vis k)"
  using assms
proof (induction vis n i rule: next_unvisited.induct)
  case (1 vis n i)
  show ?case
  proof (cases "vis i \<and> i < n")
    case True
    with "1.prems" have bound: "\<not> MAX_NUM_CLASS \<le> i" and r: "next_unvisited vis n (i + 1) = Inr j"
      by (auto simp: next_unvisited.simps[of vis n i] split: if_splits)
    note IH = "1.IH"[OF bound True r]
    have "vis k" if "i \<le> k" "k < j" for k
      using IH True that by (cases "k = i") auto
    with IH True show ?thesis by auto
  next
    case False
    with "1.prems" show ?thesis by (auto simp: next_unvisited.simps[of vis n i] split: if_splits)
  qed
qed

text \<open>The outer loop: one component after the other, until every class has been visited.\<close>

function dfs_families ::
  "matrix \<Rightarrow> nat \<Rightarrow> nat \<Rightarrow> bitmap \<Rightarrow> nat list list \<Rightarrow> tool_error + nat list list" where
  "dfs_families graphtemp n startNode visited result =
     (case next_unvisited visited n startNode of
        Inl e \<Rightarrow> Inl e
      | Inr startNode \<Rightarrow>
          if n \<le> startNode then Inr result
          else (case dfs_component graphtemp n [startNode] (visited(startNode := True)) [] of
             Inl e \<Rightarrow> Inl e
           | Inr (currentSet, visited) \<Rightarrow>
               dfs_families graphtemp n startNode visited
                 (if length currentSet \<ge> 1 then result @ [currentSet] else result)))"
  by pat_completeness auto
termination
proof (relation "measure (\<lambda>(g, n, i, vis, r). card (unvisited n vis))", goal_cases)
  case 1
  show ?case by simp
next
  case (2 g n i vis result j comp cur vis')
  then have r: "next_unvisited vis n i = Inr j" and j: "j < n"
    and d: "dfs_component g n [j] (vis(j := True)) [] = Inr (cur, vis')" by auto
  have nj: "\<not> vis j" using next_unvisited_found[OF r] j by blast
  have "unvisited n vis' \<subseteq> unvisited n (vis(j := True))"
    using dfs_component_mono[OF d] by (auto simp: unvisited_def)
  then have "card (unvisited n vis') \<le> card (unvisited n (vis(j := True)))"
    by (simp add: card_mono)
  with unvisited_mark[of j n vis, OF j nj] show ?case by simp
qed

declare dfs_families.simps [simp del]

definition DFS :: "matrix \<Rightarrow> nat \<Rightarrow> tool_error + nat list list" where
  "DFS graphtemp n = dfs_families graphtemp n 0 (\<lambda>_. False) []"

section \<open>Filters over the families\<close>

text \<open>
  \<open>filterDownCast\<close> prints one count per family; the model returns them. It stops at the first index
  without a name, and the count of that family is not printed.
\<close>

fun count_family :: "class_db \<Rightarrow> nat list \<Rightarrow> nat \<Rightarrow> nat option" where
  "count_family db [] cnt = Some cnt"
| "count_family db (c # cs) cnt =
     (case map_find (numberName db) c of
        None \<Rightarrow> None
      | Some name \<Rightarrow>
          count_family db cs (if name \<in> set (downCastVec db) then cnt + 1 else cnt))"

fun filterDownCast :: "class_db \<Rightarrow> nat list list \<Rightarrow> nat list" where
  "filterDownCast db [] = []"
| "filterDownCast db (tempVector # result) =
     (case count_family db tempVector 0 of
        None \<Rightarrow> []
      | Some cnt \<Rightarrow> cnt # filterDownCast db result)"

definition is_downcast_class :: "class_db \<Rightarrow> nat \<Rightarrow> bool" where
  "is_downcast_class db c =
     (case map_find (numberName db) c of None \<Rightarrow> False | Some name \<Rightarrow> name \<in> set (downCastVec db))"

definition filter_families :: "class_db \<Rightarrow> nat list list \<Rightarrow> nat list list" where
  "filter_families db result =
     fold (\<lambda>temp filtedResult.
       let tempFilted = fold (\<lambda>c acc. if is_downcast_class db c then acc @ [c] else acc) temp []
       in if length tempFilted > 0 then filtedResult @ [tempFilted] else filtedResult) result []"

text \<open>
  \<open>filterCast\<close>: the union of the families (\<open>castVec\<close>) with a down-cast class, which is how the
  tool once chose the classes related to a cast.
\<close>

definition filterCast :: "class_db \<Rightarrow> nat list list \<Rightarrow> nat sset \<Rightarrow> nat sset" where
  "filterCast db castVec castedresult =
     fold (\<lambda>downcastStr castedresult.
       case map_find (classCode db) downcastStr of
         None \<Rightarrow> castedresult
       | Some currentClass \<Rightarrow>
           if currentClass \<in> set castedresult then castedresult
           else fold (\<lambda>tempVec castedresult.
                  if currentClass \<in> set tempVec then fold set_insert tempVec castedresult
                  else castedresult) castVec castedresult)
       (downCastVec db) castedresult"

section \<open>Code numbers\<close>

text \<open>
  One class of a family. The state is the map of codes, the number of codes given in this family
  and the next code (\<open>familySize\<close> and \<open>currentIndex\<close> of the code); a class with no name gets the
  empty one.
\<close>

definition code_class ::
  "class_db \<Rightarrow> nat list list \<Rightarrow> nat \<Rightarrow> (nat, nat) smap \<times> nat \<times> nat \<Rightarrow> (nat, nat) smap \<times> nat \<times> nat" where
  "code_class db phantomSet currentClass = (\<lambda>(result, familySize, currentIndex).
     let className = (case map_find (numberName db) currentClass of None \<Rightarrow> [] | Some n \<Rightarrow> n) in
     if className \<notin> set (downCastVec db) then (result, familySize, currentIndex)
     else if map_has result currentClass then (result, familySize, currentIndex)
     else let result = (case find (\<lambda>tempPhantom. currentClass \<in> set tempPhantom) phantomSet of
                          None \<Rightarrow> result
                        | Some tempPhantom \<Rightarrow>
                            fold (\<lambda>tempClass. map_insert tempClass currentIndex) tempPhantom result)
          in (map_insert currentClass currentIndex result, currentIndex, currentIndex + 1))"

definition code_family ::
  "class_db \<Rightarrow> nat list list \<Rightarrow> nat list \<Rightarrow> (nat, nat) smap \<times> (nat, nat) smap
     \<Rightarrow> (nat, nat) smap \<times> (nat, nat) smap" where
  "code_family db phantomSet tempVec = (\<lambda>(result, relatedResult).
     let (result, familySize, _) = fold (code_class db phantomSet) tempVec (result, 0, 1)
     in (result, fold (\<lambda>c. map_insert c familySize) tempVec relatedResult))"

definition codingFunc ::
  "class_db \<Rightarrow> nat list list \<Rightarrow> nat list list \<Rightarrow> (nat, nat) smap \<times> (nat, nat) smap" where
  "codingFunc db filteredFamily phantomSet = fold (code_family db phantomSet) filteredFamily ([], [])"

section \<open>Bases and related classes\<close>

text \<open>
  \<open>getAllBases\<close> closes the direct bases recorded in \<open>basesVec\<close> transitively; \<open>bases_queue\<close> is its
  work list. Nothing fills \<open>basesVec\<close> any more, and \<open>main\<close> no longer calls it.
\<close>

definition add_bases :: "string list \<Rightarrow> string list \<times> string list \<Rightarrow> string list \<times> string list" where
  "add_bases tempBases =
     fold (\<lambda>baseName (Queue, tempVec).
       if baseName \<notin> set tempVec then (Queue @ [baseName], tempVec @ [baseName])
       else (Queue, tempVec)) tempBases"

definition names_in :: "(string, string list) smap \<Rightarrow> string set" where
  "names_in basesVec = (\<Union>(_, bs)\<in>set basesVec. set bs)"

lemma finite_names_in [simp]: "finite (names_in b)"
  by (auto simp: names_in_def)

lemma map_of_names_in: "map_of basesVec c = Some bs \<Longrightarrow> set bs \<subseteq> names_in basesVec"
  by (auto simp: names_in_def dest!: map_of_SomeD)

lemma add_bases_measure:
  assumes "set tempBases \<subseteq> N" "finite N"
  shows "card (N - set (snd (add_bases tempBases (q, t)))) + length (fst (add_bases tempBases (q, t)))
    = card (N - set t) + length q"
  using assms(1)
proof (induction tempBases arbitrary: q t)
  case (Cons b bs)
  show ?case
  proof (cases "b \<in> set t")
    case True
    with Cons show ?thesis by (simp add: add_bases_def)
  next
    case False
    have "N - set (t @ [b]) = (N - set t) - {b}" by auto
    moreover have "b \<in> N - set t" using False Cons.prems by simp
    ultimately have "Suc (card (N - set (t @ [b]))) = card (N - set t)"
      using assms(2) card_Suc_Diff1[of "N - set t" b] by simp
    with False Cons.IH[of "q @ [b]" "t @ [b]"] Cons.prems show ?thesis by (simp add: add_bases_def)
  qed
qed (simp add: add_bases_def)

function bases_queue ::
  "(string, string list) smap \<Rightarrow> string \<Rightarrow> string list \<Rightarrow> string list \<Rightarrow> string list" where
  "bases_queue basesVec tempClassName Queue tempVec =
     (let (Queue, tempVec) = (case map_find basesVec tempClassName of
            None \<Rightarrow> (Queue, tempVec)
          | Some tempBases \<Rightarrow> add_bases tempBases (Queue, tempVec))
      in if Queue = [] then tempVec
         else bases_queue basesVec (last Queue) (butlast Queue) tempVec)"
  by pat_completeness auto
termination
proof (relation "measure (\<lambda>(b, _, q, t). card (names_in b - set t) + length q)", goal_cases)
  case 1
  show ?case by simp
next
  case (2 b c q t x q' t')
  have "card (names_in b - set t') + length q' = card (names_in b - set t) + length q"
    using 2(1,2) add_bases_measure[OF map_of_names_in finite_names_in, of b c _ q t]
    by (auto split: option.splits) (metis fst_conv snd_conv)
  moreover have "length (butlast q') < length q'" using 2(3) by (cases q') simp_all
  ultimately show ?case by (simp del: length_butlast)
qed

declare bases_queue.simps [simp del]

definition getAllBases :: "(string, string list) smap \<Rightarrow> class_db \<Rightarrow> class_db" where
  "getAllBases basesVec db =
     fold (\<lambda>(currentName, _) db.
       if map_has (relations db) currentName then db
       else let tempVec = bases_queue basesVec currentName [] [] in
         if length tempVec > 0
         then db\<lparr>relations := map_insert currentName tempVec (relations db)\<rparr> else db) basesVec db"

definition calculateRelatedClass :: "class_db \<Rightarrow> class_db" where
  "calculateRelatedClass db =
     (let related = fold (\<lambda>baseClass related.
            fold (\<lambda>(tempClass, bases) related.
              if tempClass \<in> set related then related
              else if baseClass \<in> set bases then set_insert tempClass related
              else related) (relations db) (set_insert baseClass related))
            (basedCastClass db) (castrelatedClass db)
      in db\<lparr>castrelatedClass := fold set_insert (downCastVec db) related\<rparr>)"

end
