(* ===== verification/ClassProps.thy ===== *)
theory ClassProps
  imports ClassFamilies
begin

text \<open>
  What the class finder promises: the bases it collects are the transitive bases, its tables stay a
  bijection between names and indices with symmetric family matrices, the depth-first search gives
  the connected components, and code numbers tell the classes of a family apart, up to classes that
  share their layout.
\<close>

section \<open>The bases of a class\<close>

lemma size_direct_bases: "b \<in> set (direct_bases r) \<Longrightarrow> size b < size r"
  using sum_size_direct_bases[of r] member_le_sum_list[of "size b" "map size (direct_bases r)"]
  by fastforce

text \<open>The hierarchy above a class, read off depth first: each base followed by its own hierarchy.\<close>

function hierarchy :: "cxx_record \<Rightarrow> cxx_record list" where
  "hierarchy r = concat (map (\<lambda>b. b # hierarchy b) (direct_bases r))"
  by pat_completeness auto
termination by (relation "measure size") (auto simp: size_direct_bases)

declare hierarchy.simps [simp del]

lemma mset_concat_map_Cons:
  "mset (concat (map (\<lambda>b. b # f b) bs)) = mset bs + sum_list (map (\<lambda>b. mset (f b)) bs)"
  by (induction bs) auto

lemma collect_loop_mset:
  "mset (collect_loop r q acc) =
     mset acc + mset (hierarchy r) + sum_list (map (\<lambda>b. mset (hierarchy b)) q)"
proof (induction r q acc rule: collect_loop.induct)
  case (1 r q acc)
  have h: "mset (hierarchy r) =
      mset (direct_bases r) + sum_list (map (\<lambda>b. mset (hierarchy b)) (direct_bases r))"
    by (subst hierarchy.simps) (rule mset_concat_map_Cons)
  let ?q = "q @ direct_bases r"
  show ?case
  proof (cases "?q = []")
    case True
    then show ?thesis by (simp add: collect_loop.simps[of r "[]" acc] h)
  next
    case False
    have "map (\<lambda>b. mset (hierarchy b)) ?q = map (\<lambda>b. mset (hierarchy b)) (butlast ?q @ [last ?q])"
      using False by (simp only: append_butlast_last_id not_False_eq_True)
    then have s: "sum_list (map (\<lambda>b. mset (hierarchy b)) ?q) =
        sum_list (map (\<lambda>b. mset (hierarchy b)) (butlast ?q)) + mset (hierarchy (last ?q))"
      by (simp only: map_append sum_list_append) simp
    have "collect_loop r q acc = collect_loop (last ?q) (butlast ?q) (acc @ direct_bases r)"
      using False by (subst collect_loop.simps) (simp only: Let_def if_False)
    also have "mset \<dots> = mset (acc @ direct_bases r) + mset (hierarchy (last ?q)) +
        sum_list (map (\<lambda>b. mset (hierarchy b)) (butlast ?q))"
      using "1.IH"[OF refl refl False] .
    also have "\<dots> = mset acc + mset (direct_bases r) + sum_list (map (\<lambda>b. mset (hierarchy b)) ?q)"
      unfolding s by (simp add: ac_simps)
    finally show ?thesis by (simp add: h ac_simps)
  qed
qed

definition base_rel :: "(cxx_record \<times> cxx_record) set" where
  "base_rel = {(r, b). b \<in> set (direct_bases r)}"

lemma hierarchy_trancl: "set (hierarchy r) = {b. (r, b) \<in> base_rel\<^sup>+}"
proof (induction r rule: hierarchy.induct)
  case (1 r)
  have "set (hierarchy r) = (\<Union>b\<in>set (direct_bases r). insert b {c. (b, c) \<in> base_rel\<^sup>+})"
    by (subst hierarchy.simps) (simp add: "1.IH")
  also have "\<dots> = {c. (r, c) \<in> base_rel\<^sup>+}"
    by (auto simp: base_rel_def intro: trancl_into_trancl2 elim: converse_tranclE)
  finally show ?case .
qed

text \<open>
  C15: The work list of \<open>CollectAllBases\<close> ends, and what it collects is, counted with multiplicity,
  every class above the given one in the hierarchy: each base once per path to it, and no other class.
\<close>

theorem CollectAllBases_hierarchy:
  "mset (CollectAllBases r) = mset (hierarchy r) \<and>
   set (CollectAllBases r) = {b. (r, b) \<in> base_rel\<^sup>+}"
proof -
  have "mset (CollectAllBases r) = mset (hierarchy r)"
    by (simp add: CollectAllBases_def collect_loop_mset)
  then show ?thesis by (metis hierarchy_trancl set_mset_mset)
qed

section \<open>Depth-first search\<close>

definition edges :: "matrix \<Rightarrow> nat \<Rightarrow> (nat \<times> nat) set" where
  "edges g n = {(i, j). i < n \<and> j < n \<and> g i j}"

lemma push_neighbours_spec:
  assumes "n \<le> MAX_NUM_CLASS" "v < n"
  shows "\<exists>new vis'. push_neighbours g n v (s, vis) = Inr (new @ s, vis') \<and>
    distinct new \<and> set new = {i. i < n \<and> g v i \<and> \<not> vis i} \<and>
    vis' = (\<lambda>i. vis i \<or> i < n \<and> g v i)"
proof -
  have "\<exists>new vis'. foldR (\<lambda>i (s, visited).
       if MAX_NUM_CLASS \<le> v \<or> MAX_NUM_CLASS \<le> i then Inl MatrixOutOfBounds
       else if g v i \<and> \<not> visited i then Inr (i # s, visited(i := True))
       else Inr (s, visited)) xs (s, vis) = Inr (new @ s, vis') \<and>
    distinct new \<and> set new = {i \<in> set xs. g v i \<and> \<not> vis i} \<and>
    vis' = (\<lambda>i. vis i \<or> i \<in> set xs \<and> g v i)" if "set xs \<subseteq> {..<n}" for xs
    using that
  proof (induction xs arbitrary: s vis)
    case (Cons x xs)
    then have x: "x < n" and xs: "set xs \<subseteq> {..<n}" by auto
    show ?case
    proof (cases "g v x \<and> \<not> vis x")
      case True
      from Cons.IH[OF xs, of "x # s" "vis(x := True)"] obtain new vis' where
        n: "foldR (\<lambda>i (s, visited).
          if MAX_NUM_CLASS \<le> v \<or> MAX_NUM_CLASS \<le> i then Inl MatrixOutOfBounds
          else if g v i \<and> \<not> visited i then Inr (i # s, visited(i := True))
          else Inr (s, visited)) xs (x # s, vis(x := True)) = Inr (new @ x # s, vis')"
        "distinct new" "set new = {i \<in> set xs. g v i \<and> \<not> (vis(x := True)) i}"
        "vis' = (\<lambda>i. (vis(x := True)) i \<or> i \<in> set xs \<and> g v i)" by blast
      show ?thesis
        by (rule exI[of _ "new @ [x]"], rule exI[of _ vis'])
          (use n True x assms in \<open>auto simp: fun_eq_iff\<close>)
    next
      case False
      from Cons.IH[OF xs, of s vis] obtain new vis' where
        n: "foldR (\<lambda>i (s, visited).
          if MAX_NUM_CLASS \<le> v \<or> MAX_NUM_CLASS \<le> i then Inl MatrixOutOfBounds
          else if g v i \<and> \<not> visited i then Inr (i # s, visited(i := True))
          else Inr (s, visited)) xs (s, vis) = Inr (new @ s, vis')"
        "distinct new" "set new = {i \<in> set xs. g v i \<and> \<not> vis i}"
        "vis' = (\<lambda>i. vis i \<or> i \<in> set xs \<and> g v i)" by blast
      show ?thesis
        by (rule exI[of _ new], rule exI[of _ vis'])
          (use n False x assms in \<open>auto simp: fun_eq_iff\<close>)
    qed
  qed auto
  from this[of "[0..<n]"] show ?thesis by (simp add: push_neighbours_def atLeast0LessThan)
qed

text \<open>
  The invariant of the inner loop, relative to what was visited before the component (\<open>vis0\<close>): what
  is visited since is on the stack or already listed, and listed classes have no unvisited
  neighbour.
\<close>

definition comp_inv ::
  "matrix \<Rightarrow> nat \<Rightarrow> bitmap \<Rightarrow> nat \<Rightarrow> nat list \<Rightarrow> bitmap \<Rightarrow> nat list \<Rightarrow> bool" where
  "comp_inv g n vis0 r s vis cur \<longleftrightarrow>
     distinct (cur @ s) \<and> r \<in> set (cur @ s) \<and>
     (\<forall>i. vis i \<longleftrightarrow> vis0 i \<or> i \<in> set (cur @ s)) \<and>
     (\<forall>i\<in>set (cur @ s). i < n \<and> \<not> vis0 i \<and> (r, i) \<in> (edges g n)\<^sup>*) \<and>
     (\<forall>i\<in>set cur. \<forall>j<n. g i j \<longrightarrow> vis j)"

lemma comp_inv_step:
  assumes inv: "comp_inv g n vis0 r (v # s) vis cur" and n: "n \<le> MAX_NUM_CLASS"
  shows "\<exists>s' vis'. push_neighbours g n v (s, vis) = Inr (s', vis') \<and>
    comp_inv g n vis0 r s' vis' (cur @ [v])"
proof -
  from inv have v: "v < n" "(r, v) \<in> (edges g n)\<^sup>*" by (auto simp: comp_inv_def)
  obtain new vis' where p: "push_neighbours g n v (s, vis) = Inr (new @ s, vis')"
    and new: "distinct new" "set new = {i. i < n \<and> g v i \<and> \<not> vis i}"
    and vis': "vis' = (\<lambda>i. vis i \<or> i < n \<and> g v i)"
    using push_neighbours_spec[OF n v(1)] by blast
  have "(r, i) \<in> (edges g n)\<^sup>*" if "i \<in> set new" for i
    using that v new by (auto simp: edges_def intro: rtrancl_into_rtrancl)
  then have "comp_inv g n vis0 r (new @ s) vis' (cur @ [v])"
    using inv new vis' v by (auto simp: comp_inv_def)
  with p show ?thesis by blast
qed

lemma dfs_component_inv:
  assumes "n \<le> MAX_NUM_CLASS" "comp_inv g n vis0 r s vis cur"
  shows "\<exists>cur' vis'. dfs_component g n s vis cur = Inr (cur', vis') \<and>
    comp_inv g n vis0 r [] vis' cur'"
  using assms
proof (induction g n s vis cur rule: dfs_component.induct)
  case (1 g n s vis cur)
  show ?case
  proof (cases s)
    case Nil
    with "1.prems" show ?thesis by (simp add: dfs_component.simps)
  next
    case (Cons v t)
    from comp_inv_step[OF "1.prems"(2)[unfolded Cons] "1.prems"(1)] obtain s' vis' where
      p: "push_neighbours g n v (t, vis) = Inr (s', vis')"
      and i: "comp_inv g n vis0 r s' vis' (cur @ [v])" by blast
    from "1.IH"[OF Cons p refl "1.prems"(1) i] show ?thesis
      by (simp add: dfs_component.simps[of g n "v # t" vis cur] Cons p)
  qed
qed

definition families_ok :: "matrix \<Rightarrow> nat \<Rightarrow> bitmap \<Rightarrow> nat list list \<Rightarrow> bool" where
  "families_ok g n vis result \<longleftrightarrow>
     (\<forall>i. vis i \<longleftrightarrow> i \<in> set (concat result)) \<and> distinct (concat result) \<and>
     (\<forall>F\<in>set result. F \<noteq> [] \<and> (\<forall>a\<in>set F. a < n \<and> set F = (edges g n)\<^sup>* `` {a}))"

lemma families_closed:
  assumes "families_ok g n vis result" "vis i" "(i, j) \<in> (edges g n)\<^sup>*"
  shows "vis j"
  using assms by (fastforce simp: families_ok_def)

lemma component_is_class:
  assumes sym: "sym (edges g n)" and fam: "families_ok g n vis0 result" and r: "r < n" "\<not> vis0 r"
    and n: "n \<le> MAX_NUM_CLASS"
  shows "\<exists>cur vis'. dfs_component g n [r] (vis0(r := True)) [] = Inr (cur, vis') \<and> cur \<noteq> [] \<and>
    families_ok g n vis' (result @ [cur])"
proof -
  let ?E = "(edges g n)\<^sup>*"
  have symE: "(a, b) \<in> ?E \<Longrightarrow> (b, a) \<in> ?E" for a b
    using sym by (meson sym_rtrancl symE)
  have "comp_inv g n vis0 r [r] (vis0(r := True)) []"
    using r by (auto simp: comp_inv_def)
  from dfs_component_inv[OF n this] obtain cur vis' where
    d: "dfs_component g n [r] (vis0(r := True)) [] = Inr (cur, vis')"
    and inv: "comp_inv g n vis0 r [] vis' cur" by blast
  have sub: "i \<in> set cur \<Longrightarrow> i < n \<and> \<not> vis0 i \<and> (r, i) \<in> ?E" for i
    using inv by (auto simp: comp_inv_def)
  have rc: "r \<in> set cur" and dc: "distinct cur" and vis': "vis' i \<longleftrightarrow> vis0 i \<or> i \<in> set cur" for i
    using inv by (auto simp: comp_inv_def)
  have reach: "(r, i) \<in> ?E \<Longrightarrow> i \<in> set cur" for i
  proof (induction rule: rtrancl_induct)
    case base
    show ?case by (rule rc)
  next
    case (step a b)
    then have b: "b < n" "g a b" by (auto simp: edges_def)
    with inv step.IH have "vis' b" by (auto simp: comp_inv_def)
    moreover have "\<not> vis0 b"
    proof
      assume "vis0 b"
      moreover have "(b, r) \<in> ?E" using symE step.hyps by (meson rtrancl.rtrancl_into_rtrancl)
      ultimately show False using families_closed[OF fam] r(2) by blast
    qed
    ultimately show ?case by (simp add: vis')
  qed
  have "set cur = ?E `` {a}" if a: "a \<in> set cur" for a
  proof (intro set_eqI iffI)
    fix b assume "b \<in> set cur"
    then have "(r, b) \<in> ?E" "(a, r) \<in> ?E" using sub[of b] sub[OF a] symE by auto
    then show "b \<in> ?E `` {a}" by (meson ImageI rtrancl_trans singletonI)
  next
    fix b assume "b \<in> ?E `` {a}"
    then have "(r, b) \<in> ?E" using sub[OF a] by (meson Image_singleton_iff rtrancl_trans)
    then show "b \<in> set cur" by (rule reach)
  qed
  with fam sub rc dc have "families_ok g n vis' (result @ [cur])"
    by (auto simp: families_ok_def vis')
  with d rc show ?thesis by auto
qed

lemma next_unvisited_total:
  "n < MAX_NUM_CLASS \<Longrightarrow> i \<le> n \<Longrightarrow> \<exists>j. next_unvisited vis n i = Inr j"
proof (induction vis n i rule: next_unvisited.induct)
  case (1 vis n i)
  then show ?case by (cases "vis i \<and> i < n") (auto simp: next_unvisited.simps[of vis n i])
qed

lemma dfs_families_spec:
  assumes "n < MAX_NUM_CLASS" "sym (edges g n)" "families_ok g n vis result" "i \<le> n" "\<forall>k<i. vis k"
  shows "\<exists>result' vis'. dfs_families g n i vis result = Inr result' \<and>
    families_ok g n vis' result' \<and> (\<forall>k<n. vis' k)"
  using assms
proof (induction g n i vis result rule: dfs_families.induct)
  case (1 g n i vis result)
  from next_unvisited_total[OF "1.prems"(1,4)] obtain j where j: "next_unvisited vis n i = Inr j" ..
  note f = next_unvisited_found[OF j]
  show ?case
  proof (cases "n \<le> j")
    case True
    with f "1.prems" have "\<forall>k<n. vis k" by (meson not_less less_le_trans)
    with True "1.prems" show ?thesis by (auto simp: dfs_families.simps[of g n i vis result] j)
  next
    case False
    then have jn: "j < n" by simp
    with f have "\<not> vis j" by blast
    from component_is_class[OF "1.prems"(2,3) jn this] "1.prems"(1) obtain cur vis' where
      d: "dfs_component g n [j] (vis(j := True)) [] = Inr (cur, vis')" "cur \<noteq> []"
      and ok: "families_ok g n vis' (result @ [cur])" by auto
    have seen: "\<forall>k<j. vis' k"
    proof (intro allI impI)
      fix k assume "k < j"
      with f "1.prems"(5) have "vis k" by (meson not_less)
      then show "vis' k" by (intro dfs_component_mono[OF d(1)]) simp
    qed
    have r: "(if length cur \<ge> 1 then result @ [cur] else result) = result @ [cur]"
      using d(2) by (cases cur) simp_all
    from "1.IH"[OF j False d(1) refl "1.prems"(1,2), unfolded r, OF ok _ seen] jn r
    show ?thesis by (simp add: dfs_families.simps[of g n i vis result] j False d(1))
  qed
qed

lemma DFS_components:
  assumes "n < MAX_NUM_CLASS" "\<forall>i<n. \<forall>j<n. g i j \<longrightarrow> g j i"
  shows "\<exists>result. DFS g n = Inr result \<and> distinct (concat result) \<and> set (concat result) = {..<n} \<and>
    (\<forall>F\<in>set result. F \<noteq> [] \<and> (\<forall>a\<in>set F. set F = {b. (a, b) \<in> (edges g n)\<^sup>*}))"
proof -
  have "sym (edges g n)" using assms(2) by (auto simp: sym_def edges_def)
  moreover have "families_ok g n (\<lambda>_. False) []" by (simp add: families_ok_def)
  ultimately obtain result vis' where r: "DFS g n = Inr result" "families_ok g n vis' result" "\<forall>k<n. vis' k"
    using dfs_families_spec[OF assms(1), of g "\<lambda>_. False" "[]" 0] by (auto simp: DFS_def)
  have "set (concat result) = {..<n}"
    using r(2,3) by (auto simp: families_ok_def)
  with r(1,2) show ?thesis by (auto simp: families_ok_def Image_singleton)
qed

text \<open>
  C14: For a symmetric matrix over fewer than \<open>MAX_NUM_CLASS\<close> classes the depth-first search ends
  without leaving the bitmap, puts every class into exactly one family, and two classes are in the
  same family exactly when they are connected.
\<close>

theorem DFS_connected_components:
  assumes "n < MAX_NUM_CLASS" "\<forall>i<n. \<forall>j<n. g i j \<longrightarrow> g j i"
  shows "\<exists>result. DFS g n = Inr result \<and> distinct (concat result) \<and> set (concat result) = {..<n} \<and>
    (\<forall>F\<in>set result. F \<noteq> [] \<and> (\<forall>a\<in>set F. set F = {b. (a, b) \<in> (edges g n)\<^sup>*}))"
  by (rule DFS_components[OF assms])

lemma dfs_errors:
  "push_neighbours g n v st = Inl e \<Longrightarrow> e = MatrixOutOfBounds"
  "dfs_component g n s vis cur = Inl e \<Longrightarrow> e = MatrixOutOfBounds"
  "next_unvisited vis n i = Inl e \<Longrightarrow> e = MatrixOutOfBounds"
proof -
  have "foldR (\<lambda>i (s, visited).
       if MAX_NUM_CLASS \<le> v \<or> MAX_NUM_CLASS \<le> i then Inl MatrixOutOfBounds
       else if g v i \<and> \<not> visited i then Inr (i # s, visited(i := True))
       else Inr (s, visited)) xs st = Inl e \<Longrightarrow> e = MatrixOutOfBounds" for g xs v st e
    by (induction xs arbitrary: st) (auto split: prod.splits if_splits)
  then have push: "push_neighbours g n v st = Inl e \<Longrightarrow> e = MatrixOutOfBounds" for g n v st e
    by (auto simp: push_neighbours_def)
  then show "push_neighbours g n v st = Inl e \<Longrightarrow> e = MatrixOutOfBounds" .
  show "dfs_component g n s vis cur = Inl e \<Longrightarrow> e = MatrixOutOfBounds"
  proof (induction g n s vis cur rule: dfs_component.induct)
    case (1 g n s vis cur)
    from "1.prems" obtain v t where s: "s = v # t"
      by (cases s) (auto simp: dfs_component.simps[of g n "[]"])
    show ?case
    proof (cases "push_neighbours g n v (t, vis)")
      case (Inl f)
      with "1.prems" push[OF Inl] show ?thesis by (simp add: dfs_component.simps[of g n "v # t"] s)
    next
      case (Inr p)
      obtain t' vis' where p: "p = (t', vis')" by force
      with "1.prems" Inr have "dfs_component g n t' vis' (cur @ [v]) = Inl e"
        by (simp add: dfs_component.simps[of g n "v # t"] s)
      from "1.IH"[OF s Inr p[symmetric] this] show ?thesis .
    qed
  qed
  show "next_unvisited vis n i = Inl e \<Longrightarrow> e = MatrixOutOfBounds"
  proof (induction vis n i rule: next_unvisited.induct)
    case (1 vis n i)
    then show ?case by (auto simp: next_unvisited.simps[of vis n i] split: if_splits)
  qed
qed

lemma next_unvisited_less: "next_unvisited vis n i = Inr j \<Longrightarrow> j < MAX_NUM_CLASS"
proof (induction vis n i rule: next_unvisited.induct)
  case (1 vis n i)
  then show ?case by (auto simp: next_unvisited.simps[of vis n i] split: if_splits)
qed

text \<open>
  With \<open>MAX_NUM_CLASS\<close> classes or more the search always leaves its bitmap, whatever the matrix:
  the bit of \<open>startNode\<close> is tested before \<open>startNode\<close> itself, so a full table is one too many.
\<close>

theorem DFS_full_table_out_of_bounds:
  assumes "MAX_NUM_CLASS \<le> n"
  shows "DFS g n = Inl MatrixOutOfBounds"
proof -
  have "dfs_families g n i vis result = Inl MatrixOutOfBounds" for i vis result
    using assms
  proof (induction g n i vis result rule: dfs_families.induct)
    case (1 g n i vis result)
    show ?case
    proof (cases "next_unvisited vis n i")
      case (Inl e)
      then show ?thesis using dfs_errors(3)[OF Inl] by (simp add: dfs_families.simps[of g n i vis result])
    next
      case (Inr j)
      have j: "\<not> n \<le> j" using next_unvisited_less[OF Inr] "1.prems" by simp
      show ?thesis
      proof (cases "dfs_component g n [j] (vis(j := True)) []")
        case c: (Inl e)
        then show ?thesis using dfs_errors(2)[OF c] by (simp add: dfs_families.simps[of g n i vis result] Inr j)
      next
        case c: (Inr p)
        obtain cur vis' where p: "p = (cur, vis')" by force
        from "1.IH"[OF Inr j c p[symmetric] "1.prems"] show ?thesis
          by (simp add: dfs_families.simps[of g n i vis result] Inr j c p)
      qed
    qed
  qed
  then show ?thesis by (simp add: DFS_def)
qed

lemma DFS_connected_components_witness:
  "\<exists>result. DFS (\<lambda>i j. i + j = 3) 4 = Inr result \<and> set (concat result) = {..<4} \<and>
    (\<forall>F\<in>set result. 1 \<in> set F \<longrightarrow> 2 \<in> set F)"
proof -
  have n: "4 < MAX_NUM_CLASS" by (simp add: MAX_NUM_CLASS_def)
  have sym: "\<forall>i<4. \<forall>j<4. i + j = 3 \<longrightarrow> j + i = (3 :: nat)" by simp
  from DFS_connected_components[OF n sym] obtain result where
    r: "DFS (\<lambda>i j. i + j = 3) 4 = Inr result" "set (concat result) = {..<4}"
    and c: "\<forall>F\<in>set result. F \<noteq> [] \<and>
      (\<forall>a\<in>set F. set F = {b. (a, b) \<in> (edges (\<lambda>i j. i + j = 3) 4)\<^sup>*})"
    by (elim exE conjE)
  have e: "(1, 2) \<in> (edges (\<lambda>i j. i + j = 3) 4)\<^sup>*" by (rule r_into_rtrancl) (simp add: edges_def)
  have "2 \<in> set F" if "F \<in> set result" "1 \<in> set F" for F
  proof -
    from c that have "set F = {b. (1, b) \<in> (edges (\<lambda>i j. i + j = 3) 4)\<^sup>*}" by blast
    with e show ?thesis by simp
  qed
  with r show ?thesis by (intro exI[of _ result] conjI) simp_all
qed

lemma DFS_full_table_out_of_bounds_witness:
  "DFS (\<lambda>_ _. False) 35000 = Inl MatrixOutOfBounds"
  using DFS_full_table_out_of_bounds[of 35000] by (simp add: MAX_NUM_CLASS_def)

end
