(* ===== verification/ClassTables.thy ===== *)
theory ClassTables
  imports ClassProps
begin

text \<open>
  The tables of the class finder. Names and indices stay in a bijection, and the three matrices are
  described by the pairs of class names they relate: \<open>rel_of g db\<close>. The family and phantom relations
  of a whole run are exactly those of the classes and casts that were visited.
\<close>

section \<open>Names and indices\<close>

definition names_ok :: "class_db \<Rightarrow> bool" where
  "names_ok db \<longleftrightarrow>
     smap_ok (classCode db) \<and> smap_ok (numberName db) \<and> smap_ok (relations db) \<and>
     (\<forall>n i. map_find (classCode db) n = Some i \<longleftrightarrow> map_find (numberName db) i = Some n) \<and>
     (\<forall>i. map_has (numberName db) i \<longleftrightarrow> i < currentIndex db) \<and>
     (\<forall>i j. graph db i j \<or> graph_phantoms db i j \<or> graph_family db i j \<longrightarrow>
        i < currentIndex db \<and> j < currentIndex db)"

definition rel_of :: "(class_db \<Rightarrow> matrix) \<Rightarrow> class_db \<Rightarrow> (string \<times> string) set" where
  "rel_of g db = {(a, b). \<exists>i j. g db i j \<and> map_find (numberName db) i = Some a \<and>
     map_find (numberName db) j = Some b}"

abbreviation known :: "class_db \<Rightarrow> nat \<Rightarrow> string \<Rightarrow> bool" where
  "known db i n \<equiv> map_find (numberName db) i = Some n"

lemma names_ok_init: "names_ok initgraph"
  by (simp add: names_ok_def initgraph_def)

lemma rel_of_init [simp]:
  "rel_of graph initgraph = {}" "rel_of graph_family initgraph = {}" "rel_of graph_phantoms initgraph = {}"
  by (simp_all add: rel_of_def initgraph_def)

lemma known_less: "names_ok db \<Longrightarrow> known db i n \<Longrightarrow> i < currentIndex db"
  by (auto simp: names_ok_def)

lemma known_exists: "names_ok db \<Longrightarrow> i < currentIndex db \<Longrightarrow> \<exists>n. known db i n"
  unfolding names_ok_def by blast

lemma known_inj: "names_ok db \<Longrightarrow> known db i n \<Longrightarrow> known db j n \<Longrightarrow> i = j"
  by (auto simp: names_ok_def) (metis option.inject)

lemma rel_of_iff:
  assumes "names_ok db" "known db i a" "known db j b"
  shows "(a, b) \<in> rel_of g db \<longleftrightarrow> g db i j"
proof
  assume "(a, b) \<in> rel_of g db"
  then obtain i' j' where "g db i' j'" "known db i' a" "known db j' b" by (auto simp: rel_of_def)
  with known_inj[OF assms(1)] assms(2,3) show "g db i j" by blast
qed (use assms(2,3) in \<open>auto simp: rel_of_def\<close>)

text \<open>
  What a step may do to the rest of the state: names only get added, and the three relations
  grow by \<open>G\<close>, \<open>F\<close> and \<open>P\<close>.
\<close>

definition grows :: "(string \<times> string) set \<Rightarrow> (string \<times> string) set \<Rightarrow> (string \<times> string) set \<Rightarrow>
    class_db \<Rightarrow> class_db \<Rightarrow> bool" where
  "grows G F P db db' \<longleftrightarrow> names_ok db' \<and> (\<forall>i n. known db i n \<longrightarrow> known db' i n) \<and>
     rel_of graph db' = rel_of graph db \<union> G \<and> rel_of graph_family db' = rel_of graph_family db \<union> F \<and>
     rel_of graph_phantoms db' = rel_of graph_phantoms db \<union> P"

lemma grows_trans:
  "grows G F P db db' \<Longrightarrow> grows G' F' P' db' db'' \<Longrightarrow> grows (G \<union> G') (F \<union> F') (P \<union> P') db db''"
  by (auto simp: grows_def)

lemma grows_refl: "names_ok db \<Longrightarrow> grows {} {} {} db db"
  by (simp add: grows_def)

lemma grows_ok: "grows G F P db db' \<Longrightarrow> names_ok db'"
  by (simp add: grows_def)

lemma grows_known: "grows G F P db db' \<Longrightarrow> known db i n \<Longrightarrow> known db' i n"
  by (simp add: grows_def)

definition fresh_class :: "string \<Rightarrow> class_db \<Rightarrow> class_db" where
  "fresh_class name db =
     db\<lparr>numberName := map_insert (currentIndex db) name (numberName db),
        classCode := map_insert name (currentIndex db) (classCode db),
        currentIndex := currentIndex db + 1\<rparr>"

lemma fresh_class_grows:
  assumes ok: "names_ok db" and new: "map_find (classCode db) name = None"
  shows "grows {} {} {} db (fresh_class name db)" "known (fresh_class name db) (currentIndex db) name"
proof -
  let ?c = "currentIndex db" and ?db' = "fresh_class name db"
  have none: "map_find (numberName db) ?c = None" using ok by (auto simp: names_ok_def)
  have nn: "map_of (numberName ?db') = (map_of (numberName db))(?c \<mapsto> name)"
    and cc: "map_of (classCode ?db') = (map_of (classCode db))(name \<mapsto> ?c)"
    using none new by (simp_all add: fresh_class_def map_of_map_insert)
  show "known ?db' ?c name" by (simp add: nn)
  have bij: "map_find (classCode ?db') n = Some i \<longleftrightarrow> known ?db' i n" for n i
  proof -
    have "\<not> known db i name" for i
      using ok new by (metis names_ok_def option.distinct(1))
    then show ?thesis using ok none unfolding nn cc names_ok_def by (auto split: if_splits)
  qed
  have dom: "map_has (numberName ?db') i \<longleftrightarrow> i < ?c + 1" for i
    using ok unfolding nn names_ok_def by (simp add: less_Suc_eq disj_commute)
  have mats: "graph ?db' = graph db" "graph_phantoms ?db' = graph_phantoms db"
      "graph_family ?db' = graph_family db" "relations ?db' = relations db"
      "currentIndex ?db' = ?c + 1"
    by (simp_all add: fresh_class_def)
  have ok': "names_ok ?db'"
    using ok bij dom unfolding names_ok_def mats
    by (auto simp: fresh_class_def less_Suc_eq)
  have rel: "rel_of g ?db' = rel_of g db" if "\<forall>i j. g db i j \<longrightarrow> i < ?c \<and> j < ?c" "g ?db' = g db" for g
  proof -
    have "g db i j \<and> known ?db' i a \<and> known ?db' j b \<longleftrightarrow> g db i j \<and> known db i a \<and> known db j b" for i j a b
      using that(1) by (auto simp: nn)
    then show ?thesis by (simp add: rel_of_def that(2))
  qed
  show "grows {} {} {} db ?db'"
    unfolding grows_def using ok ok' none mats rel[of graph] rel[of graph_family] rel[of graph_phantoms]
    by (auto simp: nn names_ok_def)
qed

lemma class_index_grows:
  assumes "names_ok db" "class_index name db = (i, db')"
  shows "grows {} {} {} db db'" "known db' i name"
proof -
  have "grows {} {} {} db db' \<and> known db' i name"
  proof (cases "map_find (classCode db) name")
    case None
    with assms fresh_class_grows[OF assms(1) None] show ?thesis
      by (auto simp: class_index_def fresh_class_def)
  next
    case (Some k)
    with assms show ?thesis by (auto simp: class_index_def grows_refl names_ok_def)
  qed
  then show "grows {} {} {} db db'" "known db' i name" by auto
qed

lemma class_index_checked_grows:
  assumes "names_ok db" "class_index_checked name db = Inr (i, db')"
  shows "grows {} {} {} db db'" "known db' i name"
  using class_index_grows[OF assms(1), of name i db'] assms(2)
  by (auto simp: class_index_checked_def class_index_def Let_def split: option.splits if_splits)

lemma rel_of_mark:
  assumes "names_ok db" "known db i a" "known db j b" "mark i j (g db) = Inr (g db')"
    "numberName db' = numberName db"
  shows "rel_of g db' = insert (a, b) (rel_of g db)"
proof -
  have "g db' = (g db)(i := (g db i)(j := True))"
    using assms(4) by (simp add: mark_def split: if_splits)
  then have "g db' x y \<longleftrightarrow> g db x y \<or> x = i \<and> y = j" for x y by simp
  with assms(2,3,5) show ?thesis by (auto simp: rel_of_def)
qed

lemma names_ok_mark:
  assumes "names_ok db" "known db i a" "known db j b"
  shows "mark i j (graph db) = Inr g \<Longrightarrow> names_ok (db\<lparr>graph := g\<rparr>)"
    "mark i j (graph_family db) = Inr g \<Longrightarrow> names_ok (db\<lparr>graph_family := g\<rparr>)"
    "mark i j (graph_phantoms db) = Inr g \<Longrightarrow> names_ok (db\<lparr>graph_phantoms := g\<rparr>)"
  using assms known_less[OF assms(1,2)] known_less[OF assms(1,3)]
  by (auto simp: names_ok_def mark_def split: if_splits)

lemma mark_grows:
  assumes "names_ok db" "known db i a" "known db j b"
  shows "mark_graph i j db = Inr db' \<Longrightarrow> grows {(a, b)} {} {} db db'"
    "mark_family i j db = Inr db' \<Longrightarrow> grows {} {(a, b)} {} db db'"
    "mark_phantoms i j db = Inr db' \<Longrightarrow> grows {} {} {(a, b)} db db'"
proof -
  note r = rel_of_mark[OF assms]
  note n = names_ok_mark[OF assms]
  have frame: "rel_of graph (db\<lparr>graph_family := g\<rparr>) = rel_of graph db"
    "rel_of graph (db\<lparr>graph_phantoms := g\<rparr>) = rel_of graph db"
    "rel_of graph_family (db\<lparr>graph := g\<rparr>) = rel_of graph_family db"
    "rel_of graph_family (db\<lparr>graph_phantoms := g\<rparr>) = rel_of graph_family db"
    "rel_of graph_phantoms (db\<lparr>graph := g\<rparr>) = rel_of graph_phantoms db"
    "rel_of graph_phantoms (db\<lparr>graph_family := g\<rparr>) = rel_of graph_phantoms db" for g
    by (simp_all add: rel_of_def)
  show "grows {(a, b)} {} {} db db'" if "mark_graph i j db = Inr db'"
  proof -
    from that obtain g where g: "mark i j (graph db) = Inr g" "db' = db\<lparr>graph := g\<rparr>"
      by (auto simp: mark_graph_def bindR_Inr_iff)
    with r[of graph db'] n(1)[OF g(1)] show ?thesis by (simp add: grows_def frame)
  qed
  show "grows {} {(a, b)} {} db db'" if "mark_family i j db = Inr db'"
  proof -
    from that obtain g where g: "mark i j (graph_family db) = Inr g" "db' = db\<lparr>graph_family := g\<rparr>"
      by (auto simp: mark_family_def bindR_Inr_iff)
    with r[of graph_family db'] n(2)[OF g(1)] show ?thesis by (simp add: grows_def frame)
  qed
  show "grows {} {} {(a, b)} db db'" if "mark_phantoms i j db = Inr db'"
  proof -
    from that obtain g where g: "mark i j (graph_phantoms db) = Inr g" "db' = db\<lparr>graph_phantoms := g\<rparr>"
      by (auto simp: mark_phantoms_def bindR_Inr_iff)
    with r[of graph_phantoms db'] n(3)[OF g(1)] show ?thesis by (simp add: grows_def frame)
  qed
qed

section \<open>The relations of a visit\<close>

text \<open>
  The pairs of names a class brings into the family relation with the bases \<open>bs\<close>, and those of its
  bases with the same size.
\<close>

definition both :: "string \<Rightarrow> string \<Rightarrow> (string \<times> string) set" where
  "both a b = {(a, b), (b, a)}"

definition same_layout :: "cxx_record \<Rightarrow> cxx_record \<Rightarrow> bool" where
  "same_layout r b \<longleftrightarrow> \<not> rd_dependent (rd_of r) \<and> \<not> rd_dependent (rd_of b) \<and>
     rd_size (rd_of r) = rd_size (rd_of b)"

definition fam_pairs :: "cxx_record \<Rightarrow> cxx_record list \<Rightarrow> (string \<times> string) set" where
  "fam_pairs r bs = (\<Union>b\<in>set bs. both (getName r) (getName b))"

definition phantom_pairs :: "cxx_record \<Rightarrow> cxx_record list \<Rightarrow> (string \<times> string) set" where
  "phantom_pairs r bs = (\<Union>b\<in>set (filter (same_layout r) bs). both (getName r) (getName b))"

definition cast_pairs :: "cxx_record \<Rightarrow> cxx_record list \<Rightarrow> (string \<times> string) set" where
  "cast_pairs r bs = (\<Union>b\<in>set bs. {(getName r, getName r), (getName b, getName r)})"

lemma both_sym: "both a b = both b a"
  by (auto simp: both_def)

lemma visit_base_grows:
  assumes ok: "names_ok db" and d: "known db d (getName r)"
    and v: "visit_base r d b (db, tmp) = Inr (db', tmp')"
  shows "getName b = [] \<Longrightarrow> db' = db"
    "getName b \<noteq> [] \<Longrightarrow> grows (both (getName r) (getName b)) (both (getName r) (getName b))
       (if same_layout r b then both (getName r) (getName b) else {}) db db'"
proof -
  show "getName b = [] \<Longrightarrow> db' = db" using v by (simp add: visit_base_def)
  assume nb: "getName b \<noteq> []"
  obtain i db0 where c: "class_index (getName b) db = (i, db0)" by force
  note g0 = class_index_grows[OF ok c]
  note d0 = grows_known[OF g0(1) d] and ok0 = grows_ok[OF g0(1)]
  from v nb obtain db1 db2 db3 db4 where
    m: "mark_graph i d db0 = Inr db1" "mark_graph d i db1 = Inr db2"
       "mark_family i d db2 = Inr db3" "mark_family d i db3 = Inr db4"
    and rest: "(if same_layout r b then bindR (mark_phantoms i d db4) (\<lambda>db.
        bindR (mark_phantoms d i db) (\<lambda>db. Inr (db, tmp @ [getName b]))) else Inr (db4, tmp @ [getName b]))
        = Inr (db', tmp')"
    by (auto simp: visit_base_def c Let_def bindR_Inr_iff same_layout_def)
  note g1 = mark_grows(1)[OF ok0 g0(2) d0 m(1)]
  note k1 = grows_known[OF g1 d0] grows_known[OF g1 g0(2)]
  note g2 = mark_grows(1)[OF grows_ok[OF g1] k1 m(2)]
  note k2 = grows_known[OF g2 k1(1)] grows_known[OF g2 k1(2)]
  note g3 = mark_grows(2)[OF grows_ok[OF g2] k2(2,1) m(3)]
  note k3 = grows_known[OF g3 k2(1)] grows_known[OF g3 k2(2)]
  note g4 = mark_grows(2)[OF grows_ok[OF g3] k3 m(4)]
  note k4 = grows_known[OF g4 k3(1)] grows_known[OF g4 k3(2)]
  note g = grows_trans[OF grows_trans[OF grows_trans[OF grows_trans[OF g0(1) g1] g2] g3] g4]
  show "grows (both (getName r) (getName b)) (both (getName r) (getName b))
      (if same_layout r b then both (getName r) (getName b) else {}) db db'"
  proof (cases "same_layout r b")
    case True
    with rest obtain db5 where p: "mark_phantoms i d db4 = Inr db5" "mark_phantoms d i db5 = Inr db'"
      by (auto simp: bindR_Inr_iff)
    note g5 = mark_grows(3)[OF grows_ok[OF g4] k4(2,1) p(1)]
    note g6 = mark_grows(3)[OF grows_ok[OF g5] grows_known[OF g5 k4(1)] grows_known[OF g5 k4(2)] p(2)]
    from grows_trans[OF g grows_trans[OF g5 g6]] True show ?thesis
      by (simp add: both_def insert_commute)
  next
    case False
    with rest g show ?thesis by (simp add: both_def insert_commute)
  qed
qed

lemma relate_base_grows:
  assumes ok: "names_ok db" and d: "known db d (getName r)"
    and v: "relate_base r d b (db, tmp) = Inr (db', tmp')"
  shows "grows {(getName r, getName r), (getName b, getName r)} (both (getName r) (getName b))
       (if same_layout r b then both (getName r) (getName b) else {}) db db'"
proof -
  obtain i db0 where c: "class_index (getName b) db = (i, db0)" by force
  note g0 = class_index_grows[OF ok c]
  note d0 = grows_known[OF g0(1) d] and ok0 = grows_ok[OF g0(1)]
  from v obtain db1 db2 db3 db4 where
    m: "mark_graph d d db0 = Inr db1" "mark_graph i d db1 = Inr db2"
       "mark_family i d db2 = Inr db3" "mark_family d i db3 = Inr db4"
    and rest: "(if same_layout r b then bindR (mark_phantoms d i db4) (\<lambda>db.
        bindR (mark_phantoms i d db) (\<lambda>db. Inr (db, tmp @ [getName b]))) else Inr (db4, tmp @ [getName b]))
        = Inr (db', tmp')"
    by (auto simp: relate_base_def c Let_def bindR_Inr_iff same_layout_def)
  note g1 = mark_grows(1)[OF ok0 d0 d0 m(1)]
  note k1 = grows_known[OF g1 d0] grows_known[OF g1 g0(2)]
  note g2 = mark_grows(1)[OF grows_ok[OF g1] k1(2,1) m(2)]
  note k2 = grows_known[OF g2 k1(1)] grows_known[OF g2 k1(2)]
  note g3 = mark_grows(2)[OF grows_ok[OF g2] k2(2,1) m(3)]
  note k3 = grows_known[OF g3 k2(1)] grows_known[OF g3 k2(2)]
  note g4 = mark_grows(2)[OF grows_ok[OF g3] k3 m(4)]
  note k4 = grows_known[OF g4 k3(1)] grows_known[OF g4 k3(2)]
  note g = grows_trans[OF grows_trans[OF grows_trans[OF grows_trans[OF g0(1) g1] g2] g3] g4]
  show ?thesis
  proof (cases "same_layout r b")
    case True
    with rest obtain db5 where p: "mark_phantoms d i db4 = Inr db5" "mark_phantoms i d db5 = Inr db'"
      by (auto simp: bindR_Inr_iff)
    note g5 = mark_grows(3)[OF grows_ok[OF g4] k4 p(1)]
    note g6 = mark_grows(3)[OF grows_ok[OF g5] grows_known[OF g5 k4(2)] grows_known[OF g5 k4(1)] p(2)]
    from grows_trans[OF g grows_trans[OF g5 g6]] True show ?thesis
      by (simp add: both_def insert_commute)
  next
    case False
    with rest g show ?thesis by (simp add: both_def insert_commute)
  qed
qed

lemma merge_relation_grows:
  assumes "names_ok db"
  shows "grows {} {} {} db (merge_relation n bs db)"
  using assms
  by (auto simp: merge_relation_def grows_def names_ok_def rel_of_def split: option.split)

lemma pairs_simps [simp]:
  "fam_pairs r [] = {}" "phantom_pairs r [] = {}" "cast_pairs r [] = {}"
  "fam_pairs r (b # bs) = both (getName r) (getName b) \<union> fam_pairs r bs"
  "phantom_pairs r (b # bs) =
     (if same_layout r b then both (getName r) (getName b) else {}) \<union> phantom_pairs r bs"
  "cast_pairs r (b # bs) = {(getName r, getName r), (getName b, getName r)} \<union> cast_pairs r bs"
  by (auto simp: fam_pairs_def phantom_pairs_def cast_pairs_def)

text \<open>The loops over the bases.\<close>

lemma visit_bases_grows:
  assumes "names_ok db" "known db d (getName r)"
    "foldR (visit_base r d) bs (db, tmp) = Inr (db', tmp')"
  shows "grows (fam_pairs r (filter (\<lambda>b. getName b \<noteq> []) bs)) (fam_pairs r (filter (\<lambda>b. getName b \<noteq> []) bs))
     (phantom_pairs r (filter (\<lambda>b. getName b \<noteq> []) bs)) db db'"
  using assms
proof (induction bs arbitrary: db tmp)
  case Nil
  then show ?case by (simp add: grows_refl)
next
  case (Cons b bs)
  from Cons.prems(3) obtain db1 tmp1 where v: "visit_base r d b (db, tmp) = Inr (db1, tmp1)"
    and f: "foldR (visit_base r d) bs (db1, tmp1) = Inr (db', tmp')" by (auto split: sum.splits)
  note g = visit_base_grows[OF Cons.prems(1,2) v]
  show ?case
  proof (cases "getName b = []")
    case True
    with g(1) Cons.IH[OF _ _ f] Cons.prems show ?thesis by simp
  next
    case False
    note h = g(2)[OF False]
    from grows_trans[OF h Cons.IH[OF grows_ok[OF h] grows_known[OF h Cons.prems(2)] f]] False
    show ?thesis by simp
  qed
qed

lemma relate_bases_grows:
  assumes "names_ok db" "known db d (getName r)"
    "foldR (relate_base r d) bs (db, tmp) = Inr (db', tmp')"
  shows "grows (cast_pairs r bs) (fam_pairs r bs) (phantom_pairs r bs) db db'"
  using assms
proof (induction bs arbitrary: db tmp)
  case Nil
  then show ?case by (simp add: grows_refl)
next
  case (Cons b bs)
  from Cons.prems(3) obtain db1 tmp1 where v: "relate_base r d b (db, tmp) = Inr (db1, tmp1)"
    and f: "foldR (relate_base r d) bs (db1, tmp1) = Inr (db', tmp')" by (auto split: sum.splits)
  note h = relate_base_grows[OF Cons.prems(1,2) v]
  from grows_trans[OF h Cons.IH[OF grows_ok[OF h] grows_known[OF h Cons.prems(2)] f]]
  show ?case by simp
qed

lemma addRelationShip_grows:
  assumes "names_ok db" "addRelationShip bs r db = Inr db'"
  shows "grows (cast_pairs r bs) (fam_pairs r bs) (phantom_pairs r bs) db db'"
proof -
  obtain d db0 where c: "class_index (getName r) db = (d, db0)" by force
  note g0 = class_index_grows[OF assms(1) c]
  from assms(2) obtain db1 tmp where f: "foldR (relate_base r d) bs (db0, []) = Inr (db1, tmp)"
    and db': "db' = merge_relation (getName r) tmp db1"
    by (auto simp: addRelationShip_def c Let_def bindR_Inr_iff)
  note g1 = relate_bases_grows[OF grows_ok[OF g0(1)] g0(2) f]
  note g2 = merge_relation_grows[OF grows_ok[OF g1], of "getName r" tmp]
  from grows_trans[OF g0(1) grows_trans[OF g1 g2]] show ?thesis by (simp add: db')
qed

definition hierarchy_sets ::
  "(cxx_record \<Rightarrow> cxx_record list \<Rightarrow> (string \<times> string) set) \<Rightarrow> cxx_record \<Rightarrow> (string \<times> string) set" where
  "hierarchy_sets f r = f r (CollectAllBases r) \<union> (\<Union>b\<in>set (CollectAllBases r). f b (CollectAllBases b))"

lemma relate_hierarchy_grows:
  assumes "names_ok db" "relate_hierarchy r db = Inr db'"
  shows "grows (hierarchy_sets cast_pairs r) (hierarchy_sets fam_pairs r)
     (hierarchy_sets phantom_pairs r) db db'"
proof -
  have fold: "grows (\<Union>b\<in>set bs. cast_pairs b (CollectAllBases b))
      (\<Union>b\<in>set bs. fam_pairs b (CollectAllBases b)) (\<Union>b\<in>set bs. phantom_pairs b (CollectAllBases b)) u v"
    if "names_ok u" "foldR (\<lambda>b. addRelationShip (CollectAllBases b) b) bs u = Inr v" for bs u v
    using that
  proof (induction bs arbitrary: u)
    case (Cons b bs)
    from Cons.prems(2) obtain w where a: "addRelationShip (CollectAllBases b) b u = Inr w"
      and f: "foldR (\<lambda>b. addRelationShip (CollectAllBases b) b) bs w = Inr v" by (auto split: sum.splits)
    note g = addRelationShip_grows[OF Cons.prems(1) a]
    from grows_trans[OF g Cons.IH[OF grows_ok[OF g] f]] show ?case by simp
  qed (simp add: grows_refl)
  from assms(2) obtain u where a: "addRelationShip (CollectAllBases r) r db = Inr u"
    and f: "foldR (\<lambda>b. addRelationShip (CollectAllBases b) b) (CollectAllBases r) u = Inr db'"
    by (auto simp: relate_hierarchy_def Let_def bindR_Inr_iff)
  note g = addRelationShip_grows[OF assms(1) a]
  from grows_trans[OF g fold[OF grows_ok[OF g] f]] show ?thesis by (simp add: hierarchy_sets_def)
qed

text \<open>The fields only touch the graph, and symmetrically.\<close>

lemma visit_field_grows:
  assumes "names_ok db" "visit_field n fd db = Inr db'"
  shows "\<exists>G. sym G \<and> grows G {} {} db db'"
proof -
  have same: "\<exists>G. sym G \<and> grows G {} {} db db"
    using grows_refl[OF assms(1)] by (intro exI[of _ "{}"]) (simp add: sym_def)
  show ?thesis
  proof (cases "db' = db")
    case True
    with same show ?thesis by simp
  next
    case False
    with assms(2) obtain d db0 i db1 db2 where
      c: "class_index_checked n db = Inr (d, db0)" "class_index_checked (fd_name fd) db0 = Inr (i, db1)"
      and m: "mark_graph d i db1 = Inr db2" "mark_graph i d db2 = Inr db'"
      by (auto simp: visit_field_def Let_def bindR_Inr_iff split: if_splits prod.splits)
    note g0 = class_index_checked_grows[OF assms(1) c(1)]
    note g1 = class_index_checked_grows[OF grows_ok[OF g0(1)] c(2)]
    note k = grows_known[OF g1(1) g0(2)]
    note g2 = mark_grows(1)[OF grows_ok[OF g1(1)] k g1(2) m(1)]
    note g3 = mark_grows(1)[OF grows_ok[OF g2] grows_known[OF g2 g1(2)] grows_known[OF g2 k] m(2)]
    have "sym (both n (fd_name fd))" by (auto simp: sym_def both_def)
    moreover have "grows (both n (fd_name fd)) {} {} db db'"
      using grows_trans[OF grows_trans[OF g0(1) g1(1)] grows_trans[OF g2 g3]]
      by (simp add: both_def insert_commute)
    ultimately show ?thesis by blast
  qed
qed

lemma visit_fields_grows:
  assumes "names_ok db" "foldR (visit_field n) fds db = Inr db'"
  shows "\<exists>G. sym G \<and> grows G {} {} db db'"
  using assms
proof (induction fds arbitrary: db)
  case Nil
  then show ?case using grows_refl[of db] by (intro exI[of _ "{}"]) (simp add: sym_def)
next
  case (Cons fd fds)
  from Cons.prems(2) obtain u where v: "visit_field n fd db = Inr u" and f: "foldR (visit_field n) fds u = Inr db'"
    by (auto split: sum.splits)
  from visit_field_grows[OF Cons.prems(1) v] obtain G where G: "sym G" "grows G {} {} db u" by blast
  from Cons.IH[OF grows_ok[OF G(2)] f] obtain H where H: "sym H" "grows H {} {} u db'" by blast
  from grows_trans[OF G(2) H(2)] have "grows (G \<union> H) {} {} db db'" by simp
  moreover have "sym (G \<union> H)" using G(1) H(1) by (rule sym_Un)
  ultimately show ?case by blast
qed

lemma visit_layout_grows:
  assumes "names_ok db" "visit_layout r db = Inr db'"
  shows "\<exists>G. sym G \<and> grows G {} {} db db'"
proof -
  let ?u = "db\<lparr>hasVisitedField := set_insert (getName r) (hasVisitedField db),
      classSize := map_insert (getName r) (rd_alignment (rd_of r)) (classSize db)\<rparr>"
  have ok: "names_ok ?u" and same: "grows G {} {} ?u db' = grows G {} {} db db'" for G
    using assms(1) by (simp_all add: names_ok_def grows_def rel_of_def)
  have u: "\<exists>G. sym G \<and> grows G {} {} db ?u" "\<exists>G. sym G \<and> grows G {} {} db db"
    using assms(1) by (auto intro!: exI[of _ "{}"] simp: sym_def grows_def names_ok_def rel_of_def)
  show ?thesis
    using assms(2) u visit_fields_grows[OF ok, of "getName r" "rd_fields (rd_of r)" db']
    by (auto simp: visit_layout_def Let_def same split: if_splits)
qed

lemma VisitCXXRecordDecl_grows:
  assumes "names_ok db" "VisitCXXRecordDecl r db = Inr db'"
    "rd_has_definition (rd_of r)" "\<not> rd_anonymous (rd_of r)" "getName r \<noteq> []"
  defines "bs \<equiv> filter (\<lambda>b. getName b \<noteq> []) (CollectAllBases r)"
  shows "\<exists>G. sym G \<and> fam_pairs r bs \<subseteq> G \<and> grows G (fam_pairs r bs) (phantom_pairs r bs) db db'"
proof -
  from assms(2-5) obtain db0 where l: "visit_layout r db = Inr db0"
    by (auto simp: VisitCXXRecordDecl_def Let_def bindR_Inr_iff)
  from visit_layout_grows[OF assms(1) l] obtain G where G: "sym G" "grows G {} {} db db0" by blast
  obtain d db1 where c: "class_index (getName r) db0 = (d, db1)" by force
  note g1 = class_index_grows[OF grows_ok[OF G(2)] c]
  from assms(2-5) l obtain db2 tmp where
    f: "foldR (visit_base r d) (CollectAllBases r) (db1, []) = Inr (db2, tmp)"
    and db': "db' = merge_relation (getName r) tmp db2"
    by (auto simp: VisitCXXRecordDecl_def Let_def bindR_Inr_iff c)
  note g2 = visit_bases_grows[OF grows_ok[OF g1(1)] g1(2) f, folded bs_def]
  note g3 = merge_relation_grows[OF grows_ok[OF g2], of "getName r" tmp]
  from grows_trans[OF grows_trans[OF G(2) g1(1)] grows_trans[OF g2 g3]]
  have "grows (G \<union> fam_pairs r bs) (fam_pairs r bs) (phantom_pairs r bs) db db'" by (simp add: db')
  moreover have "sym (fam_pairs r bs)" by (auto simp: sym_def fam_pairs_def both_def)
  ultimately show ?thesis using sym_Un[OF G(1)] by (intro exI[of _ "G \<union> fam_pairs r bs"]) simp
qed

section \<open>A whole run\<close>

text \<open>The pairs a node of the syntax tree contributes, for one of the relations above.\<close>

definition bitcast_class :: "clang_type \<Rightarrow> cxx_record list" where
  "bitcast_class ty = (case ty of
     PointerTo (Some r) \<Rightarrow>
       if rd_complete (rd_of r) \<and> rd_has_definition (rd_of r) \<and> \<not> rd_anonymous (rd_of r) then [r] else []
   | _ \<Rightarrow> [])"

definition upcast_class :: "clang_type \<Rightarrow> cxx_record list" where
  "upcast_class ty = (case getPointeeCXXRecordDecl ty of None \<Rightarrow> [] | Some r \<Rightarrow> [r])"

definition cast_node_pairs ::
  "(cxx_record \<Rightarrow> cxx_record list \<Rightarrow> (string \<times> string) set) \<Rightarrow> cast_expr \<Rightarrow> (string \<times> string) set" where
  "cast_node_pairs f c = (case ce_kind c of
     CK_BaseToDerived \<Rightarrow> \<Union> (set (map (hierarchy_sets f) (upcast_class (ce_type c))))
   | CK_DerivedToBase \<Rightarrow> \<Union> (set (map (hierarchy_sets f) (upcast_class (ce_sub_type c))))
   | CK_BitCast \<Rightarrow> \<Union> (set (map (\<lambda>r. f r (CollectAllBases r))
        (bitcast_class (ce_type c) @ bitcast_class (ce_sub_type c))))
   | CK_Other \<Rightarrow> {})"

fun node_pairs ::
  "(cxx_record \<Rightarrow> cxx_record list \<Rightarrow> (string \<times> string) set) \<Rightarrow> ast_node \<Rightarrow> (string \<times> string) set" where
  "node_pairs f (RecordDecl r) =
     (if rd_has_definition (rd_of r) \<and> \<not> rd_anonymous (rd_of r) \<and> getName r \<noteq> []
      then f r (filter (\<lambda>b. getName b \<noteq> []) (CollectAllBases r)) else {})"
| "node_pairs f (CastNode c) = cast_node_pairs f c"

lemma grows_cong:
  assumes "grows G F P db db'"
    "numberName db'' = numberName db'" "classCode db'' = classCode db'" "relations db'' = relations db'"
    "currentIndex db'' = currentIndex db'" "graph db'' = graph db'" "graph_family db'' = graph_family db'"
    "graph_phantoms db'' = graph_phantoms db'"
  shows "grows G F P db db''"
  using assms by (simp add: grows_def names_ok_def rel_of_def)

lemma grows_cong_left:
  assumes "grows G F P db db'"
    "numberName db = numberName db''" "graph db = graph db''" "graph_family db = graph_family db''"
    "graph_phantoms db = graph_phantoms db''"
  shows "grows G F P db'' db'"
  using assms by (simp add: grows_def rel_of_def)

lemma bitcast_side_grows:
  assumes "names_ok db" "visit_bitcast_side ty db = Inr db'"
  shows "grows (\<Union> (set (map (\<lambda>r. cast_pairs r (CollectAllBases r)) (bitcast_class ty))))
     (\<Union> (set (map (\<lambda>r. fam_pairs r (CollectAllBases r)) (bitcast_class ty))))
     (\<Union> (set (map (\<lambda>r. phantom_pairs r (CollectAllBases r)) (bitcast_class ty)))) db db'"
proof -
  have "(\<exists>r. bitcast_class ty = [r] \<and>
      visit_bitcast_side ty db = addRelationShip (CollectAllBases r) r db) \<or>
    bitcast_class ty = [] \<and> visit_bitcast_side ty db = Inr db"
    by (simp add: visit_bitcast_side_def bitcast_class_def split: clang_type.split option.split)
  then show ?thesis
    using assms(2) addRelationShip_grows[OF assms(1)] grows_refl[OF assms(1)] by auto
qed

lemma visit_BaseToDerived_grows:
  assumes "names_ok db" "visit_BaseToDerived c db = Inr db'"
  shows "grows (\<Union> (set (map (hierarchy_sets cast_pairs) (upcast_class (ce_type c)))))
     (\<Union> (set (map (hierarchy_sets fam_pairs) (upcast_class (ce_type c)))))
     (\<Union> (set (map (hierarchy_sets phantom_pairs) (upcast_class (ce_type c))))) db db'"
proof -
  define db0 where "db0 = note_location (ce_loc c) db"
  have same: "numberName db0 = numberName db" "classCode db0 = classCode db" "relations db0 = relations db"
    "currentIndex db0 = currentIndex db" "graph db0 = graph db" "graph_family db0 = graph_family db"
    "graph_phantoms db0 = graph_phantoms db"
    by (simp_all add: db0_def note_location_def split: option.split)
  then have ok0: "names_ok db0" using assms(1) by (simp add: names_ok_def)
  from assms(2) obtain db1 where
    one: "(case getPointeeCXXRecordDecl (ce_type c) of None \<Rightarrow> Inr db0
       | Some d \<Rightarrow> bindR (relate_hierarchy d (db0\<lparr>downCastVec := set_insert (getName d) (downCastVec db0)\<rparr>))
          (\<lambda>db. Inr (db\<lparr>castClass := set_insert (getName d) (castClass db)\<rparr>))) = Inr db1"
    and two: "numberName db' = numberName db1" "classCode db' = classCode db1" "relations db' = relations db1"
      "currentIndex db' = currentIndex db1" "graph db' = graph db1" "graph_family db' = graph_family db1"
      "graph_phantoms db' = graph_phantoms db1"
    by (auto simp: visit_BaseToDerived_def Let_def bindR_Inr_iff db0_def[symmetric] split: option.splits)
  show ?thesis
  proof (cases "getPointeeCXXRecordDecl (ce_type c)")
    case None
    with one have "db1 = db0" by simp
    with two same have "grows {} {} {} db db'"
      by (intro grows_cong[OF grows_refl[OF assms(1)]]) simp_all
    with None show ?thesis by (simp add: upcast_class_def)
  next
    case (Some d)
    let ?u = "db0\<lparr>downCastVec := set_insert (getName d) (downCastVec db0)\<rparr>"
    from one Some obtain db2 where r: "relate_hierarchy d ?u = Inr db2"
      and db1: "db1 = db2\<lparr>castClass := set_insert (getName d) (castClass db2)\<rparr>"
      by (auto simp: bindR_Inr_iff)
    have "names_ok ?u" using ok0 by (simp add: names_ok_def)
    from relate_hierarchy_grows[OF this r]
    have "grows (hierarchy_sets cast_pairs d) (hierarchy_sets fam_pairs d) (hierarchy_sets phantom_pairs d) ?u db'"
      by (rule grows_cong) (simp_all add: two db1)
    then have "grows (hierarchy_sets cast_pairs d) (hierarchy_sets fam_pairs d) (hierarchy_sets phantom_pairs d) db db'"
      by (rule grows_cong_left) (simp_all add: same)
    with Some show ?thesis by (simp add: upcast_class_def)
  qed
qed

lemma VisitCastExpr_grows:
  assumes "names_ok db" "VisitCastExpr c db = Inr db'"
  shows "grows (cast_node_pairs cast_pairs c) (cast_node_pairs fam_pairs c)
     (cast_node_pairs phantom_pairs c) db db'"
proof (cases "ce_kind c")
  case CK_BaseToDerived
  with assms visit_BaseToDerived_grows[OF assms(1)] show ?thesis
    by (simp add: VisitCastExpr_def cast_node_pairs_def)
next
  case CK_DerivedToBase
  with assms relate_hierarchy_grows[OF assms(1)] grows_refl[OF assms(1)] show ?thesis
    by (auto simp: VisitCastExpr_def cast_node_pairs_def visit_DerivedToBase_def upcast_class_def
        split: option.splits)
next
  case CK_BitCast
  with assms(2) obtain u where s: "visit_bitcast_side (ce_type c) db = Inr u"
    "visit_bitcast_side (ce_sub_type c) u = Inr db'"
    by (auto simp: VisitCastExpr_def visit_BitCast_def bindR_Inr_iff)
  note g = bitcast_side_grows[OF assms(1) s(1)]
  from grows_trans[OF g bitcast_side_grows[OF grows_ok[OF g] s(2)]] CK_BitCast
  show ?thesis by (simp add: cast_node_pairs_def)
next
  case CK_Other
  with assms grows_refl[OF assms(1)] show ?thesis by (simp add: VisitCastExpr_def cast_node_pairs_def)
qed

fun is_decl :: "ast_node \<Rightarrow> bool" where
  "is_decl (RecordDecl _) = True"
| "is_decl (CastNode _) = False"

lemma visit_node_grows:
  assumes "names_ok db" "visit_node x db = Inr db'"
  shows "\<exists>G. (is_decl x \<longrightarrow> sym G \<and> node_pairs fam_pairs x \<subseteq> G) \<and>
     grows G (node_pairs fam_pairs x) (node_pairs phantom_pairs x) db db'"
proof (cases x)
  case (RecordDecl r)
  show ?thesis
  proof (cases "rd_has_definition (rd_of r) \<and> \<not> rd_anonymous (rd_of r) \<and> getName r \<noteq> []")
    case True
    with VisitCXXRecordDecl_grows[OF assms(1), of r db'] assms(2) RecordDecl show ?thesis by simp
  next
    case False
    with assms(2) RecordDecl have "db' = db" by (auto simp: VisitCXXRecordDecl_def split: if_splits)
    moreover have "node_pairs f x = {}" for f using False RecordDecl by auto
    ultimately show ?thesis using grows_refl[OF assms(1)]
      by (intro exI[of _ "{}"]) (simp add: sym_def)
  qed
next
  case (CastNode c)
  with VisitCastExpr_grows[OF assms(1), of c db'] assms(2) show ?thesis by auto
qed

lemma run_grows:
  assumes "names_ok db" "HandleTopLevelDecl nodes db = Inr db'"
  shows "\<exists>G. (list_all is_decl nodes \<longrightarrow> sym G \<and> \<Union> (set (map (node_pairs fam_pairs) nodes)) \<subseteq> G) \<and>
     grows G (\<Union> (set (map (node_pairs fam_pairs) nodes))) (\<Union> (set (map (node_pairs phantom_pairs) nodes))) db db'"
  using assms unfolding HandleTopLevelDecl_def
proof (induction nodes arbitrary: db)
  case Nil
  then show ?case using grows_refl[of db] by (intro exI[of _ "{}"]) (simp add: sym_def)
next
  case (Cons x xs)
  from Cons.prems(2) obtain u where v: "visit_node x db = Inr u" and f: "foldR visit_node xs u = Inr db'"
    by (auto split: sum.splits)
  from visit_node_grows[OF Cons.prems(1) v] obtain G where
    G: "is_decl x \<longrightarrow> sym G \<and> node_pairs fam_pairs x \<subseteq> G"
    "grows G (node_pairs fam_pairs x) (node_pairs phantom_pairs x) db u" by blast
  from Cons.IH[OF grows_ok[OF G(2)] f] obtain H where
    H: "list_all is_decl xs \<longrightarrow> sym H \<and> \<Union> (set (map (node_pairs fam_pairs) xs)) \<subseteq> H"
    "grows H (\<Union> (set (map (node_pairs fam_pairs) xs))) (\<Union> (set (map (node_pairs phantom_pairs) xs))) u db'"
    by blast
  from grows_trans[OF G(2) H(2)] G(1) H(1) show ?case
    by (intro exI[of _ "G \<union> H"]) (auto intro: sym_Un)
qed

text \<open>
  Whatever is visited, phantoms are family pairs and a family pair is in the graph in at least one
  direction.
\<close>

lemma hierarchy_sets_mono: "(\<And>r bs. f r bs \<subseteq> g r bs) \<Longrightarrow> hierarchy_sets f r \<subseteq> hierarchy_sets g r"
  unfolding hierarchy_sets_def by blast

lemma cast_node_pairs_mono:
  assumes "\<And>r bs. f r bs \<subseteq> g r bs"
  shows "cast_node_pairs f c \<subseteq> cast_node_pairs g c"
proof -
  have u: "\<Union> (set (map p xs)) \<subseteq> \<Union> (set (map q xs))" if "\<And>r. p r \<subseteq> q r" for p q :: "cxx_record \<Rightarrow> (string \<times> string) set" and xs
    using that by (induction xs) auto
  show ?thesis
    by (cases "ce_kind c"; simp only: cast_node_pairs_def cast_kind.case)
      (intro u hierarchy_sets_mono assms subset_refl)+
qed

lemma node_phantom_subset: "node_pairs phantom_pairs x \<subseteq> node_pairs fam_pairs x"
proof -
  have p: "phantom_pairs r bs \<subseteq> fam_pairs r bs" for r bs by (auto simp: phantom_pairs_def fam_pairs_def)
  then show ?thesis
    using cast_node_pairs_mono[of phantom_pairs fam_pairs] by (cases x) simp_all
qed

lemma cast_fam_subset:
  "cast_node_pairs fam_pairs c \<subseteq> cast_node_pairs cast_pairs c \<union> (cast_node_pairs cast_pairs c)\<inverse>"
proof -
  let ?g = "\<lambda>r bs. cast_pairs r bs \<union> (cast_pairs r bs)\<inverse>"
  have "fam_pairs r bs \<subseteq> ?g r bs" for r bs
    by (auto simp: fam_pairs_def cast_pairs_def both_def)
  then have "cast_node_pairs fam_pairs c \<subseteq> cast_node_pairs ?g c" by (rule cast_node_pairs_mono)
  also have "\<dots> \<subseteq> cast_node_pairs cast_pairs c \<union> (cast_node_pairs cast_pairs c)\<inverse>"
    by (cases "ce_kind c") (auto simp: cast_node_pairs_def hierarchy_sets_def)
  finally show ?thesis .
qed

lemma run_subsets:
  assumes "names_ok db" "HandleTopLevelDecl nodes db = Inr db'"
    "rel_of graph_phantoms db \<subseteq> rel_of graph_family db"
    "rel_of graph_family db \<subseteq> rel_of graph db \<union> (rel_of graph db)\<inverse>"
  shows "names_ok db' \<and> rel_of graph_phantoms db' \<subseteq> rel_of graph_family db' \<and>
    rel_of graph_family db' \<subseteq> rel_of graph db' \<union> (rel_of graph db')\<inverse>"
  using assms unfolding HandleTopLevelDecl_def
proof (induction nodes arbitrary: db)
  case (Cons x xs)
  from Cons.prems(2) obtain u where v: "visit_node x db = Inr u" and f: "foldR visit_node xs u = Inr db'"
    by (auto split: sum.splits)
  have "\<exists>G. grows G (node_pairs fam_pairs x) (node_pairs phantom_pairs x) db u \<and>
      node_pairs fam_pairs x \<subseteq> G \<union> G\<inverse>"
  proof (cases x)
    case (RecordDecl r)
    then have "is_decl x" by simp
    with visit_node_grows[OF Cons.prems(1) v] show ?thesis by blast
  next
    case (CastNode c)
    with VisitCastExpr_grows[OF Cons.prems(1), of c u] v cast_fam_subset[of c] show ?thesis by auto
  qed
  then obtain G where G: "grows G (node_pairs fam_pairs x) (node_pairs phantom_pairs x) db u"
    "node_pairs fam_pairs x \<subseteq> G \<union> G\<inverse>" by blast
  have "rel_of graph_phantoms u \<subseteq> rel_of graph_family u"
    using G(1) Cons.prems(3) node_phantom_subset[of x] by (auto simp: grows_def)
  moreover have "rel_of graph_family u \<subseteq> rel_of graph u \<union> (rel_of graph u)\<inverse>"
    using G Cons.prems(4) by (auto simp: grows_def)
  ultimately show ?case using Cons.IH[OF grows_ok[OF G(1)] f] by blast
qed simp

text \<open>
  C12: After the tool has walked its syntax trees, names and indices are in a bijection, and the
  family matrix relates exactly the classes that a visited declaration or cast puts into a common
  hierarchy, the phantom matrix exactly those of them that are not in a dependent context and have
  the same size; both matrices are symmetric.
\<close>

theorem run_relations:
  assumes "HandleTopLevelDecl nodes initgraph = Inr db"
  shows "(\<forall>n i. map_find (classCode db) n = Some i \<longleftrightarrow> map_find (numberName db) i = Some n) \<and>
    rel_of graph_family db = (\<Union>x\<in>set nodes. node_pairs fam_pairs x) \<and>
    rel_of graph_phantoms db = (\<Union>x\<in>set nodes. node_pairs phantom_pairs x)"
proof -
  from run_grows[OF names_ok_init assms] obtain G where
    g: "grows G (\<Union> (set (map (node_pairs fam_pairs) nodes)))
      (\<Union> (set (map (node_pairs phantom_pairs) nodes))) initgraph db" by blast
  then show ?thesis by (auto simp: grows_def names_ok_def)
qed

text \<open>
  The graph of a run: symmetric for the declarations, and with one direction of every pair of a cast. It is symmetric
  when every class that casts bring into a hierarchy has been declared in it too.
\<close>

abbreviation decl_pairs :: "ast_node list \<Rightarrow> (string \<times> string) set" where
  "decl_pairs nodes \<equiv> \<Union> (set (map (node_pairs fam_pairs) (filter is_decl nodes)))"

abbreviation undeclared_pairs ::
  "(cxx_record \<Rightarrow> cxx_record list \<Rightarrow> (string \<times> string) set) \<Rightarrow> ast_node list \<Rightarrow> (string \<times> string) set" where
  "undeclared_pairs f nodes \<equiv> \<Union> (set (map (node_pairs f) (filter (\<lambda>x. \<not> is_decl x) nodes)))"

definition declared_casts :: "ast_node list \<Rightarrow> bool" where
  "declared_casts nodes \<longleftrightarrow> undeclared_pairs fam_pairs nodes \<subseteq> decl_pairs nodes"

lemma run_graph:
  assumes "names_ok db" "HandleTopLevelDecl nodes db = Inr db'"
  shows "\<exists>S. sym S \<and> decl_pairs nodes \<subseteq> S \<and> rel_of graph db' = rel_of graph db \<union> S \<union> undeclared_pairs cast_pairs nodes"
  using assms unfolding HandleTopLevelDecl_def
proof (induction nodes arbitrary: db)
  case Nil
  then show ?case by (intro exI[of _ "{}"]) (simp add: sym_def)
next
  case (Cons x xs)
  from Cons.prems(2) obtain u where v: "visit_node x db = Inr u" and f: "foldR visit_node xs u = Inr db'"
    by (auto split: sum.splits)
  obtain G T where G: "sym T" "is_decl x \<Longrightarrow> node_pairs fam_pairs x \<subseteq> T" "rel_of graph u = rel_of graph db \<union> T \<union> G"
    "G = (if is_decl x then {} else node_pairs cast_pairs x)" "names_ok u"
  proof (cases x)
    case (RecordDecl r)
    with visit_node_grows[OF Cons.prems(1) v] obtain T where "sym T" "node_pairs fam_pairs x \<subseteq> T"
      "rel_of graph u = rel_of graph db \<union> T" "names_ok u" by (auto simp: grows_def)
    with RecordDecl show ?thesis by (intro that[of T "{}"]) simp_all
  next
    case (CastNode c)
    with VisitCastExpr_grows[OF Cons.prems(1), of c u] v show ?thesis
      by (intro that[of "{}" "cast_node_pairs cast_pairs c"]) (simp_all add: grows_def sym_def)
  qed
  from Cons.IH[OF G(5) f] obtain S where S: "sym S" "decl_pairs xs \<subseteq> S"
    "rel_of graph db' = rel_of graph u \<union> S \<union> undeclared_pairs cast_pairs xs" by blast
  show ?case
    by (rule exI[of _ "T \<union> S"]) (use G S sym_Un[OF G(1) S(1)] in \<open>cases "is_decl x"; auto\<close>)
qed

lemma cast_pairs_converse: "(cast_node_pairs cast_pairs c)\<inverse> \<subseteq> cast_node_pairs cast_pairs c \<union> cast_node_pairs fam_pairs c"
proof -
  have "(cast_pairs r bs)\<inverse> \<subseteq> cast_pairs r bs \<union> fam_pairs r bs" for r bs
    by (auto simp: cast_pairs_def fam_pairs_def both_def)
  then show ?thesis by (cases "ce_kind c") (fastforce simp: cast_node_pairs_def hierarchy_sets_def)+
qed

lemma graph_symmetric:
  assumes "HandleTopLevelDecl nodes initgraph = Inr db" "declared_casts nodes"
  shows "\<forall>i j. graph db i j \<longrightarrow> graph db j i"
proof (intro allI impI)
  fix i j assume g: "graph db i j"
  from run_graph[OF names_ok_init assms(1)] obtain S where S: "sym S" "decl_pairs nodes \<subseteq> S"
    "rel_of graph db = S \<union> undeclared_pairs cast_pairs nodes" by auto
  have ok: "names_ok db" using run_grows[OF names_ok_init assms(1)] by (auto simp: grows_def)
  with g have "i < currentIndex db" "j < currentIndex db" by (auto simp: names_ok_def)
  then obtain a b where k: "known db i a" "known db j b" using known_exists[OF ok] by blast
  with g rel_of_iff[OF ok k] have "(a, b) \<in> S \<or> (a, b) \<in> undeclared_pairs cast_pairs nodes" using S(3) by blast
  moreover have "(b, a) \<in> undeclared_pairs cast_pairs nodes \<union> undeclared_pairs fam_pairs nodes"
    if "(a, b) \<in> undeclared_pairs cast_pairs nodes"
  proof -
    from that obtain c where c: "CastNode c \<in> set nodes" "(a, b) \<in> cast_node_pairs cast_pairs c"
      by (auto elim!: is_decl.elims)
    with cast_pairs_converse[of c] have "(b, a) \<in> cast_node_pairs cast_pairs c \<union> cast_node_pairs fam_pairs c" by blast
    with c(1) show ?thesis by force
  qed
  moreover have "undeclared_pairs fam_pairs nodes \<subseteq> S"
    using assms(2)[unfolded declared_casts_def] S(2) by (rule subset_trans)
  ultimately have "(b, a) \<in> rel_of graph db" unfolding S(3) using symD[OF S(1)] by blast
  with rel_of_iff[OF ok k(2,1)] show "graph db j i" by simp
qed

text \<open>
  C13: When every pair of classes that the casts of a program bring into a hierarchy has been declared in it as well,
  the graph of the run is symmetric, although a cast alone enters only one direction of a pair.
\<close>

theorem declared_graph_symmetric:
  assumes "HandleTopLevelDecl nodes initgraph = Inr db" "declared_casts nodes"
  shows "graph db i j \<longleftrightarrow> graph db j i"
  using graph_symmetric[OF assms] by blast

end
