(* ===== verification/ClassCodes.thy ===== *)
theory ClassCodes
  imports ClassTables "HOL-Library.Code_Target_Nat"
begin

text \<open>
  Code numbers. Inside a family the classes that are the target of a down cast are numbered from 1;
  classes of the same phantom set (same layout along a chain of bases) share a number. The numbers
  tell such classes apart exactly up to phantoms, provided the families are those of a symmetric
  graph; the theory ends with the runs in which they are not: two classes met only in casts from one base.
\<close>

section \<open>What a code number distinguishes\<close>

definition same_phantom :: "nat list list \<Rightarrow> nat \<Rightarrow> nat \<Rightarrow> bool" where
  "same_phantom Ps c d \<longleftrightarrow> c = d \<or> (\<exists>P\<in>set Ps. c \<in> set P \<and> d \<in> set P)"

text \<open>The classes the tool numbers; one without a name goes by the empty name.\<close>

definition coded_class :: "class_db \<Rightarrow> nat \<Rightarrow> bool" where
  "coded_class db c \<longleftrightarrow>
     (case map_find (numberName db) c of None \<Rightarrow> [] | Some n \<Rightarrow> n) \<in> set (downCastVec db)"

definition coding_ok :: "nat list list \<Rightarrow> nat list list \<Rightarrow> bool" where
  "coding_ok Fs Ps \<longleftrightarrow> distinct (concat Fs) \<and> distinct (concat Ps) \<and>
     (\<forall>P\<in>set Ps. \<forall>F\<in>set Fs. set P \<inter> set F \<noteq> {} \<longrightarrow> set P \<subseteq> set F)"

lemma distinct_concat_unique:
  "distinct (concat Ps) \<Longrightarrow> P \<in> set Ps \<Longrightarrow> Q \<in> set Ps \<Longrightarrow> c \<in> set P \<Longrightarrow> c \<in> set Q \<Longrightarrow> P = Q"
  by (induction Ps) auto

lemma same_phantom_sym: "same_phantom Ps c d \<Longrightarrow> same_phantom Ps d c"
  by (auto simp: same_phantom_def)

lemma same_phantom_trans:
  "distinct (concat Ps) \<Longrightarrow> same_phantom Ps c d \<Longrightarrow> same_phantom Ps d e \<Longrightarrow> same_phantom Ps c e"
  unfolding same_phantom_def using distinct_concat_unique by metis

lemma map_of_fold_map_insert:
  "map_of (fold (\<lambda>t. map_insert t k) ts m) d =
     (if d \<in> set ts \<and> map_of m d = None then Some k else map_of m d)"
  by (induction ts arbitrary: m) (auto simp: map_of_map_insert)

text \<open>The step that gives out a number, as a function update.\<close>

lemma code_class_new:
  assumes ps: "distinct (concat Ps)" and c: "coded_class db c" "\<not> map_has res c"
    and closed: "\<And>d. same_phantom Ps c d \<Longrightarrow> map_of res d = None"
  shows "\<exists>res'. code_class db Ps c (res, fs, idx) = (res', idx, idx + 1) \<and>
    map_of res' = (\<lambda>d. if same_phantom Ps c d then Some idx else map_of res d)"
proof (cases "find (\<lambda>P. c \<in> set P) Ps")
  case None
  then have "same_phantom Ps c d \<longleftrightarrow> c = d" for d
    by (auto simp: same_phantom_def find_None_iff)
  with None c show ?thesis
    by (simp add: code_class_def coded_class_def Let_def) (auto simp: map_of_map_insert fun_eq_iff)
next
  case (Some P)
  then have P: "P \<in> set Ps" "c \<in> set P" by (auto simp: find_Some_iff)
  then have s: "same_phantom Ps c d \<longleftrightarrow> d \<in> set P" for d
    using distinct_concat_unique[OF ps] by (auto simp: same_phantom_def)
  let ?r = "fold (\<lambda>t. map_insert t idx) P res"
  have r: "map_of ?r = (\<lambda>d. if d \<in> set P then Some idx else map_of res d)"
    using closed by (auto simp: map_of_fold_map_insert s fun_eq_iff)
  then have "map_of (map_insert c idx ?r) = map_of ?r" using P(2) by (simp add: map_of_map_insert)
  with Some c r show ?thesis
    by (simp add: code_class_def coded_class_def Let_def s)
qed

text \<open>The invariant of the numbering of family \<open>F\<close>, after its classes \<open>xs\<close>.\<close>

definition code_inv ::
  "class_db \<Rightarrow> nat list list \<Rightarrow> nat list \<Rightarrow> (nat, nat) smap \<Rightarrow> nat list \<Rightarrow>
     (nat, nat) smap \<times> nat \<times> nat \<Rightarrow> bool" where
  "code_inv db Ps F res0 xs = (\<lambda>(res, fs, idx). idx = fs + 1 \<and>
     (\<forall>c\<in>set xs. coded_class db c \<longrightarrow> map_has res c) \<and>
     (\<forall>c. c \<notin> set F \<longrightarrow> map_of res c = map_of res0 c) \<and>
     (\<forall>c\<in>set F. \<forall>k. map_of res c = Some k \<longrightarrow> 1 \<le> k \<and> k \<le> fs) \<and>
     (\<forall>c\<in>set F. \<forall>d. same_phantom Ps c d \<longrightarrow> map_of res c = map_of res d) \<and>
     (\<forall>c\<in>set F. \<forall>d\<in>set F. map_of res c = map_of res d \<longrightarrow> map_has res c \<longrightarrow> same_phantom Ps c d))"

lemma code_inv_iff:
  "code_inv db Ps F res0 xs (res, fs, idx) \<longleftrightarrow> idx = fs + 1 \<and>
     (\<forall>c\<in>set xs. coded_class db c \<longrightarrow> map_has res c) \<and>
     (\<forall>c. c \<notin> set F \<longrightarrow> map_of res c = map_of res0 c) \<and>
     (\<forall>c\<in>set F. \<forall>k. map_of res c = Some k \<longrightarrow> 1 \<le> k \<and> k \<le> fs) \<and>
     (\<forall>c\<in>set F. \<forall>d. same_phantom Ps c d \<longrightarrow> map_of res c = map_of res d) \<and>
     (\<forall>c\<in>set F. \<forall>d\<in>set F. map_of res c = map_of res d \<longrightarrow> map_has res c \<longrightarrow> same_phantom Ps c d)"
  unfolding code_inv_def prod.case by (rule refl)

lemma code_invI:
  assumes "idx = fs + 1" "\<And>c. c \<in> set xs \<Longrightarrow> coded_class db c \<longrightarrow> map_has res c"
    "\<And>c. c \<notin> set F \<Longrightarrow> map_of res c = map_of res0 c"
    "\<And>c k. c \<in> set F \<Longrightarrow> map_of res c = Some k \<Longrightarrow> 1 \<le> k \<and> k \<le> fs"
    "\<And>c d. c \<in> set F \<Longrightarrow> same_phantom Ps c d \<Longrightarrow> map_of res c = map_of res d"
    "\<And>c d. c \<in> set F \<Longrightarrow> d \<in> set F \<Longrightarrow> map_of res c = map_of res d \<Longrightarrow> map_has res c \<Longrightarrow> same_phantom Ps c d"
  shows "code_inv db Ps F res0 xs (res, fs, idx)"
proof -
  have "\<forall>c\<in>set xs. coded_class db c \<longrightarrow> map_has res c" by (rule ballI) (rule assms(2))
  moreover have "\<forall>c. c \<notin> set F \<longrightarrow> map_of res c = map_of res0 c" by (intro allI impI) (rule assms(3))
  moreover have "\<forall>c\<in>set F. \<forall>k. map_of res c = Some k \<longrightarrow> 1 \<le> k \<and> k \<le> fs"
    by (intro ballI allI impI) (rule assms(4))
  moreover have "\<forall>c\<in>set F. \<forall>d. same_phantom Ps c d \<longrightarrow> map_of res c = map_of res d"
    by (intro ballI allI impI) (rule assms(5))
  moreover have "\<forall>c\<in>set F. \<forall>d\<in>set F. map_of res c = map_of res d \<longrightarrow> map_has res c \<longrightarrow> same_phantom Ps c d"
    by (intro ballI allI impI) (rule assms(6))
  ultimately show ?thesis unfolding code_inv_iff using assms(1) by blast
qed

lemma code_invD:
  assumes "code_inv db Ps F res0 xs (res, fs, idx)"
  shows "idx = fs + 1" "\<And>c. c \<in> set xs \<Longrightarrow> coded_class db c \<Longrightarrow> map_has res c"
    "\<And>c. c \<notin> set F \<Longrightarrow> map_of res c = map_of res0 c"
    "\<And>c k. c \<in> set F \<Longrightarrow> map_of res c = Some k \<Longrightarrow> 1 \<le> k \<and> k \<le> fs"
    "\<And>c d. c \<in> set F \<Longrightarrow> same_phantom Ps c d \<Longrightarrow> map_of res c = map_of res d"
    "\<And>c d. c \<in> set F \<Longrightarrow> d \<in> set F \<Longrightarrow> map_of res c = map_of res d \<Longrightarrow> map_has res c \<Longrightarrow> same_phantom Ps c d"
  using assms unfolding code_inv_iff by blast+

lemma code_class_inv:
  assumes ok: "distinct (concat Ps)" and inF: "\<forall>c\<in>set F. \<forall>d. same_phantom Ps c d \<longrightarrow> d \<in> set F"
    and x: "x \<in> set F" and inv: "code_inv db Ps F res0 xs st"
  shows "code_inv db Ps F res0 (xs @ [x]) (code_class db Ps x st)"
proof -
  obtain res fs idx where st: "st = (res, fs, idx)" by (cases st)
  note i = code_invD[OF inv[unfolded st]]
  show ?thesis
  proof (cases "coded_class db x \<and> \<not> map_has res x")
    case False
    then have "code_class db Ps x st = st"
      by (auto simp: st code_class_def coded_class_def Let_def)
    moreover have "code_inv db Ps F res0 (xs @ [x]) (res, fs, idx)"
    proof (rule code_invI)
      fix c assume "c \<in> set (xs @ [x])"
      then show "coded_class db c \<longrightarrow> map_has res c" using False i(2) by auto
    qed (fact i)+
    ultimately show ?thesis by (simp only: st)
  next
    case True
    with i(5) x have "same_phantom Ps x d \<Longrightarrow> map_of res d = None" for d by metis
    from code_class_new[OF ok _ _ this] True obtain res' where
      r: "code_class db Ps x st = (res', idx, idx + 1)"
      and m: "map_of res' = (\<lambda>d. if same_phantom Ps x d then Some idx else map_of res d)"
      unfolding st by blast
    have tr: "same_phantom Ps x c \<Longrightarrow> same_phantom Ps x d \<longleftrightarrow> same_phantom Ps c d" for c d
      using same_phantom_trans[OF ok] same_phantom_sym by blast
    have sx: "same_phantom Ps x x" by (simp add: same_phantom_def)
    have old: "map_of res e \<noteq> Some idx" if "e \<in> set F" for e
      using i(1,4) that by fastforce
    show ?thesis
      unfolding r
    proof (rule code_invI)
      fix c assume "c \<in> set (xs @ [x])"
      then show "coded_class db c \<longrightarrow> map_has res' c" using i(2) sx by (auto simp: m)
    next
      fix c assume "c \<notin> set F"
      then show "map_of res' c = map_of res0 c" using i(3) inF x by (auto simp: m)
    next
      fix c k assume "c \<in> set F" "map_of res' c = Some k"
      then show "1 \<le> k \<and> k \<le> idx" using i(1) i(4)[of c k] by (auto simp: m split: if_splits)
    next
      fix c d assume cd: "c \<in> set F" "same_phantom Ps c d"
      then have "same_phantom Ps x c \<longleftrightarrow> same_phantom Ps x d"
        using same_phantom_trans[OF ok] same_phantom_sym by blast
      with i(5)[OF cd] show "map_of res' c = map_of res' d" by (simp add: m)
    next
      fix c d
      assume cd: "c \<in> set F" "d \<in> set F" "map_of res' c = map_of res' d" "map_has res' c"
      show "same_phantom Ps c d"
      proof (cases "same_phantom Ps x c")
        case True
        with cd(3) old[OF cd(2)] have "same_phantom Ps x d" by (auto simp: m split: if_splits)
        with True tr show ?thesis by blast
      next
        case False
        with cd(3) old[OF cd(1)] have "\<not> same_phantom Ps x d" by (auto simp: m split: if_splits)
        with False cd i(6)[OF cd(1,2)] show ?thesis by (simp add: m)
      qed
    qed simp
  qed
qed

lemma code_fold_inv:
  assumes ok: "distinct (concat Ps)" and inF: "\<forall>c\<in>set F. \<forall>d. same_phantom Ps c d \<longrightarrow> d \<in> set F"
    and inv: "code_inv db Ps F res0 xs st" and ys: "set ys \<subseteq> set F"
  shows "code_inv db Ps F res0 (xs @ ys) (fold (code_class db Ps) ys st)"
  using inv ys
proof (induction ys arbitrary: xs st)
  case (Cons y ys)
  from Cons.prems have "y \<in> set F" by simp
  from Cons.IH[OF code_class_inv[OF ok inF this Cons.prems(1)]] Cons.prems(2) show ?case by simp
qed simp

definition family_coded ::
  "class_db \<Rightarrow> nat list list \<Rightarrow> nat list \<Rightarrow> (nat \<rightharpoonup> nat) \<Rightarrow> (nat \<rightharpoonup> nat) \<Rightarrow> bool" where
  "family_coded db Ps F code related \<longleftrightarrow> (\<exists>m.
     (\<forall>c\<in>set F. related c = Some m) \<and>
     (\<forall>c\<in>set F. coded_class db c \<longrightarrow> code c \<noteq> None) \<and>
     (\<forall>c\<in>set F. \<forall>k. code c = Some k \<longrightarrow> 1 \<le> k \<and> k \<le> m) \<and>
     (\<forall>c\<in>set F. \<forall>d\<in>set F. code c \<noteq> None \<longrightarrow> (code c = code d \<longleftrightarrow> same_phantom Ps c d)))"

lemma code_family_spec:
  assumes ok: "distinct (concat Ps)" and inF: "\<forall>c\<in>set F. \<forall>d. same_phantom Ps c d \<longrightarrow> d \<in> set F"
    and fresh: "\<forall>c\<in>set F. map_of res c = None \<and> map_of rel c = None"
    and r: "code_family db Ps F (res, rel) = (res', rel')"
  shows "family_coded db Ps F (map_of res') (map_of rel')"
    "c \<notin> set F \<Longrightarrow> map_of res' c = map_of res c \<and> map_of rel' c = map_of rel c"
proof -
  obtain fs idx where f: "fold (code_class db Ps) F (res, 0, 1) = (res', fs, idx)"
    and rel': "rel' = fold (\<lambda>c. map_insert c fs) F rel"
    using r by (auto simp: code_family_def split: prod.splits)
  have "code_inv db Ps F res [] (res, 0, 1)"
    using fresh inF by (intro code_invI) auto
  from code_fold_inv[OF ok inF this subset_refl] have
    i: "code_inv db Ps F res F (res', fs, idx)" by (simp only: f append_Nil)
  note d = code_invD[OF i]
  have relF: "map_of rel' c = (if c \<in> set F then Some fs else map_of rel c)" for c
    using fresh by (auto simp: rel' map_of_fold_map_insert)
  show "family_coded db Ps F (map_of res') (map_of rel')"
    unfolding family_coded_def
  proof (rule exI[of _ fs], intro conjI ballI impI allI)
    fix c e assume "c \<in> set F" "e \<in> set F" "map_of res' c \<noteq> None"
    then show "map_of res' c = map_of res' e \<longleftrightarrow> same_phantom Ps c e" using d(5,6) by metis
  next
    fix c k assume "c \<in> set F" "map_of res' c = Some k"
    then show "1 \<le> k" "k \<le> fs" using d(4) by blast+
  qed (use d(2) in \<open>auto simp: relF\<close>)
  show "c \<notin> set F \<Longrightarrow> map_of res' c = map_of res c \<and> map_of rel' c = map_of rel c"
    using d(3) by (simp add: relF)
qed

lemma phantom_in_family:
  assumes "coding_ok Fs Ps" "F \<in> set Fs" "c \<in> set F" "same_phantom Ps c d"
  shows "d \<in> set F"
  using assms unfolding coding_ok_def same_phantom_def by blast

lemma coding_fold:
  assumes "coding_ok (Fs @ Gs) Ps"
    and "\<And>c. c \<in> set (concat Gs) \<Longrightarrow> map_of (fst st) c = None \<and> map_of (snd st) c = None"
    and "\<And>F. F \<in> set Fs \<Longrightarrow> family_coded db Ps F (map_of (fst st)) (map_of (snd st))"
    and "F \<in> set (Fs @ Gs)"
  shows "family_coded db Ps F (map_of (fst (fold (code_family db Ps) Gs st)))
     (map_of (snd (fold (code_family db Ps) Gs st)))"
  using assms
proof (induction Gs arbitrary: Fs st)
  case (Cons G Gs)
  obtain res rel res' rel' where st: "st = (res, rel)" and r: "code_family db Ps G (res, rel) = (res', rel')"
    by (cases st, cases "code_family db Ps G st") auto
  have ok: "distinct (concat Ps)" and d: "distinct (concat (Fs @ G # Gs))"
    using Cons.prems(1) by (auto simp: coding_ok_def)
  have inG: "\<forall>c\<in>set G. \<forall>e. same_phantom Ps c e \<longrightarrow> e \<in> set G"
    using phantom_in_family[OF Cons.prems(1)] by auto
  have fresh: "\<forall>c\<in>set G. map_of res c = None \<and> map_of rel c = None"
    using Cons.prems(2) by (auto simp: st)
  note g = code_family_spec[OF ok inG fresh r]
  have step: "family_coded db Ps F (map_of res') (map_of rel')" if F: "F \<in> set (Fs @ [G])" for F
  proof (cases "F = G")
    case True
    with g(1) show ?thesis by simp
  next
    case False
    with F have "F \<in> set Fs" by simp
    then have disj: "c \<notin> set G" if "c \<in> set F" for c using d that by auto
    from Cons.prems(3)[OF \<open>F \<in> set Fs\<close>] show ?thesis
      by (simp add: family_coded_def st g(2)[OF disj] cong: ball_cong conj_cong)
  qed
  have later: "map_of res' c = None \<and> map_of rel' c = None" if "c \<in> set (concat Gs)" for c
  proof -
    have "c \<notin> set G" using d that by auto
    from g(2)[OF this] Cons.prems(2)[of c] that show ?thesis by (simp add: st)
  qed
  from Cons.IH[of "Fs @ [G]" "(res', rel')"] Cons.prems(1,4) later step
  show ?case by (simp add: st r)
qed simp

lemma codingFunc_spec:
  assumes "coding_ok Fs Ps" "F \<in> set Fs" "codingFunc db Fs Ps = (code, related)"
  shows "family_coded db Ps F (map_find code) (map_find related)"
  using coding_fold[of "[]" Fs Ps "([], [])" db F] assms by (simp add: codingFunc_def)

text \<open>
  For disjoint families, each phantom set inside one of them, the numbering gives every class
  that is the target of a down cast a number, the numbers of a family lie between 1 and the size
  recorded for all its classes, and two numbered classes of a family have the same number exactly
  when they are in the same phantom set.
\<close>

theorem codingFunc_distinguishes:
  assumes "coding_ok Fs Ps" "F \<in> set Fs" "codingFunc db Fs Ps = (code, related)"
  shows "family_coded db Ps F (map_find code) (map_find related)"
  by (rule codingFunc_spec[OF assms])

section \<open>From the syntax trees to the codes\<close>

lemma matrix_of_rel:
  assumes "names_ok db" "rel_of f db \<subseteq> R" "R \<subseteq> rel_of g db \<union> (rel_of g db)\<inverse>"
    and "\<forall>i j. g db i j \<longrightarrow> g db j i" "f \<in> {graph_phantoms, graph_family}" "f db i j"
  shows "g db i j"
proof -
  from assms(1,5,6) have "i < currentIndex db" "j < currentIndex db" by (auto simp: names_ok_def)
  with known_exists[OF assms(1)] obtain a b where ab: "known db i a" "known db j b" by blast
  note r = rel_of_iff[OF assms(1)]
  from assms(6) r[OF ab, of f] have "(a, b) \<in> R" using assms(2) by blast
  with assms(3) r[OF ab, of g] r[OF ab(2,1), of g] assms(4) show ?thesis by blast
qed

text \<open>A family matrix that comes out of a run is symmetric.\<close>

lemma run_family_sym:
  assumes "HandleTopLevelDecl nodes initgraph = Inr db" "f \<in> {graph_phantoms, graph_family}"
  shows "f db i j \<longrightarrow> f db j i"
proof
  assume fij: "f db i j"
  have ok: "names_ok db" using run_grows[OF names_ok_init assms(1)] by (auto simp: grows_def)
  have s: "sym (node_pairs fam_pairs x)" "sym (node_pairs phantom_pairs x)" for x
  proof -
    have b: "sym (fam_pairs r bs)" "sym (phantom_pairs r bs)" for r bs
      by (auto simp: fam_pairs_def phantom_pairs_def both_def sym_def)
    then have "sym (hierarchy_sets fam_pairs r)" "sym (hierarchy_sets phantom_pairs r)" for r
      unfolding hierarchy_sets_def by (auto intro!: sym_Un sym_UNION)
    with b show "sym (node_pairs fam_pairs x)" "sym (node_pairs phantom_pairs x)"
      by (cases x; auto simp: cast_node_pairs_def sym_def split: cast_kind.split; fastforce)+
  qed
  have r: "sym (rel_of f db)"
  proof -
    have "sym (\<Union>x\<in>set nodes. node_pairs fam_pairs x)" "sym (\<Union>x\<in>set nodes. node_pairs phantom_pairs x)"
      by (intro sym_UNION ballI s)+
    with run_grows[OF names_ok_init assms(1)] assms(2) show ?thesis by (auto simp: grows_def)
  qed
  from ok fij assms(2) have "i < currentIndex db" "j < currentIndex db" by (auto simp: names_ok_def)
  with known_exists[OF ok] obtain a b where ab: "known db i a" "known db j b" by blast
  from fij rel_of_iff[OF ok ab, of f] have "(a, b) \<in> rel_of f db" by blast
  with r have "(b, a) \<in> rel_of f db" by (auto simp: sym_def)
  with rel_of_iff[OF ok ab(2,1), of f] show "f db j i" by blast
qed

lemma coding_ok_DFS:
  assumes n: "n < MAX_NUM_CLASS" and sym: "\<forall>i j. g i j \<longrightarrow> g j i" "\<forall>i j. p i j \<longrightarrow> p j i"
    and sub: "\<forall>i j. p i j \<longrightarrow> g i j" and Fs: "DFS g n = Inr Fs" and Ps: "DFS p n = Inr Ps"
  shows "coding_ok Fs Ps"
proof -
  have f: "distinct (concat Fs)" "\<forall>F\<in>set Fs. \<forall>a\<in>set F. set F = {b. (a, b) \<in> (edges g n)\<^sup>*}"
    using DFS_components[OF n, of g] sym(1) Fs by auto
  have q: "distinct (concat Ps)" "\<forall>P\<in>set Ps. \<forall>a\<in>set P. set P = {b. (a, b) \<in> (edges p n)\<^sup>*}"
    using DFS_components[OF n, of p] sym(2) Ps by auto
  have "edges p n \<subseteq> edges g n" using sub by (auto simp: edges_def)
  then have e: "(a, b) \<in> (edges p n)\<^sup>* \<Longrightarrow> (a, b) \<in> (edges g n)\<^sup>*" for a b
    using rtrancl_mono by blast
  have "set P \<subseteq> set F" if "P \<in> set Ps" "F \<in> set Fs" "a \<in> set P" "a \<in> set F" for P F a
    using f(2) q(2) that e by blast
  with f(1) q(1) show ?thesis unfolding coding_ok_def by blast
qed

text \<open>
  C11: After a run over fewer than \<open>MAX_NUM_CLASS\<close> classes whose graph came out symmetric, the two
  searches succeed, related classes are in one family, and the code numbers of every family
  distinguish its down-cast targets up to phantoms.
\<close>

theorem codes_of_run:
  assumes run: "HandleTopLevelDecl nodes initgraph = Inr db" and n: "currentIndex db < MAX_NUM_CLASS"
    and sym: "\<forall>i j. graph db i j \<longrightarrow> graph db j i"
  shows "\<exists>Fs Ps code related. DFS (graph db) (currentIndex db) = Inr Fs \<and>
    DFS (graph_phantoms db) (currentIndex db) = Inr Ps \<and> codingFunc db Fs Ps = (code, related) \<and>
    (\<forall>i j. graph_family db i j \<longrightarrow> (\<exists>F\<in>set Fs. i \<in> set F \<and> j \<in> set F)) \<and>
    (\<forall>F\<in>set Fs. family_coded db Ps F (map_find code) (map_find related))"
proof -
  let ?n = "currentIndex db"
  have s: "names_ok db \<and> rel_of graph_phantoms db \<subseteq> rel_of graph_family db \<and>
      rel_of graph_family db \<subseteq> rel_of graph db \<union> (rel_of graph db)\<inverse>"
    by (rule run_subsets[OF names_ok_init run]) simp_all
  have fam: "graph_family db i j \<Longrightarrow> graph db i j" for i j
    using matrix_of_rel[of db graph_family "rel_of graph_family db" graph] s sym by blast
  have ph: "graph_phantoms db i j \<Longrightarrow> graph db i j" for i j
    using matrix_of_rel[of db graph_phantoms "rel_of graph_family db" graph] s sym by blast
  have psym: "\<forall>i j. graph_phantoms db i j \<longrightarrow> graph_phantoms db j i"
    using run_family_sym[OF run] by blast
  obtain Fs where F: "DFS (graph db) ?n = Inr Fs" "set (concat Fs) = {..<?n}"
      "\<forall>F\<in>set Fs. F \<noteq> [] \<and> (\<forall>a\<in>set F. set F = {b. (a, b) \<in> (edges (graph db) ?n)\<^sup>*})"
    using DFS_components[OF n, of "graph db"] sym by blast
  obtain Ps where P: "DFS (graph_phantoms db) ?n = Inr Ps"
    using DFS_components[OF n, of "graph_phantoms db"] psym by blast
  obtain code related where c: "codingFunc db Fs Ps = (code, related)" by force
  have ok: "coding_ok Fs Ps"
    by (rule coding_ok_DFS[OF n sym psym _ F(1) P]) (use ph in blast)
  have "\<exists>F\<in>set Fs. i \<in> set F \<and> j \<in> set F" if "graph_family db i j" for i j
  proof -
    have g: "graph db i j" "i < ?n" "j < ?n" using fam[OF that] that s by (auto simp: names_ok_def)
    then have "(i, j) \<in> (edges (graph db) ?n)\<^sup>*" by (auto simp: edges_def)
    moreover from g F(2) obtain F' where "F' \<in> set Fs" "i \<in> set F'" by auto
    ultimately show ?thesis using F(3) by blast
  qed
  with F(1) P c codingFunc_spec[OF ok _ c] show ?thesis by blast
qed

section \<open>Examples\<close>

definition demo_info :: "string \<Rightarrow> int \<Rightarrow> rd_info" where
  "demo_info n sz = \<lparr>rd_name = n, rd_has_definition = True, rd_complete = True, rd_anonymous = False,
     rd_dependent = False, rd_aggregate = False, rd_polymorphic = True, rd_alignment = 8, rd_size = sz,
     rd_fields = []\<rparr>"

definition demo_base :: cxx_record where
  "demo_base = CXXRecord (demo_info ''B'' 8) []"

definition demo_derived :: cxx_record where
  "demo_derived = CXXRecord (demo_info ''D'' 16) [DefinedBase demo_base]"

definition demo_cast :: "cxx_record \<Rightarrow> ast_node" where
  "demo_cast target = CastNode \<lparr>ce_kind = CK_BaseToDerived, ce_loc = Some (''a.cpp'', 12),
     ce_type = PointerTo (Some target), ce_sub_type = PointerTo (Some demo_base)\<rparr>"

definition run_ok :: "ast_node list \<Rightarrow> class_db option" where
  "run_ok nodes = (case HandleTopLevelDecl nodes initgraph of Inl _ \<Rightarrow> None | Inr db \<Rightarrow> Some db)"

lemma run_okD: "run_ok nodes = Some db \<Longrightarrow> HandleTopLevelDecl nodes initgraph = Inr db"
  by (simp add: run_ok_def split: sum.splits)

definition demo_declared :: "ast_node list" where
  "demo_declared = [RecordDecl demo_base, RecordDecl demo_derived, demo_cast demo_derived]"

lemma demo_declared_run:
  "case run_ok demo_declared of None \<Rightarrow> False
   | Some db \<Rightarrow> currentIndex db = 2 \<and> (\<forall>i\<in>{0, 1}. \<forall>j\<in>{0, 1}. graph db i j \<longrightarrow> graph db j i) \<and>
       graph_family db 0 1 \<and> numberName db = [(0, ''B''), (1, ''D'')] \<and> DFS (graph db) 2 = Inr [[0, 1]] \<and>
       DFS (graph_phantoms db) 2 = Inr [[0], [1]]"
  by code_simp

lemma demo_declared_casts: "declared_casts demo_declared"
proof -
  have "CollectAllBases demo_base = []" "CollectAllBases demo_derived = [demo_base]" by code_simp+
  then show ?thesis
    by (simp add: declared_casts_def demo_declared_def demo_cast_def cast_node_pairs_def upcast_class_def hierarchy_sets_def
        fam_pairs_def demo_base_def demo_derived_def demo_info_def)
qed

lemma run_relations_witness:
  "\<exists>db. HandleTopLevelDecl demo_declared initgraph = Inr db \<and>
     rel_of graph_family db = (\<Union>x\<in>set demo_declared. node_pairs fam_pairs x)"
proof -
  obtain db where "run_ok demo_declared = Some db" using demo_declared_run by (auto split: option.splits)
  then have r: "HandleTopLevelDecl demo_declared initgraph = Inr db" by (rule run_okD)
  from run_relations[OF r] r show ?thesis by blast
qed

lemma declared_graph_symmetric_witness:
  "\<exists>db. HandleTopLevelDecl demo_declared initgraph = Inr db \<and> (graph db 0 1 \<longleftrightarrow> graph db 1 0)"
proof -
  obtain db where "run_ok demo_declared = Some db" using demo_declared_run by (auto split: option.splits)
  then have r: "HandleTopLevelDecl demo_declared initgraph = Inr db" by (rule run_okD)
  from declared_graph_symmetric[OF r demo_declared_casts, of 0 1] r show ?thesis by blast
qed

lemma codes_of_run_witness:
  "\<exists>db Fs. HandleTopLevelDecl demo_declared initgraph = Inr db \<and> DFS (graph db) 2 = Inr Fs \<and>
     (\<exists>F\<in>set Fs. 0 \<in> set F \<and> 1 \<in> set F)"
proof -
  obtain db where o: "run_ok demo_declared = Some db" using demo_declared_run by (auto split: option.splits)
  with demo_declared_run have d: "currentIndex db = 2"
    "\<forall>i\<in>{0, 1}. \<forall>j\<in>{0, 1}. graph db i j \<longrightarrow> graph db j i" "graph_family db 0 1" by simp_all
  from o have r: "HandleTopLevelDecl demo_declared initgraph = Inr db" by (rule run_okD)
  have "\<forall>i j. graph db i j \<longrightarrow> graph db j i" by (rule graph_symmetric[OF r demo_declared_casts])
  from codes_of_run[OF r _ this] d r show ?thesis by (auto simp: MAX_NUM_CLASS_def)
qed

lemma codingFunc_distinguishes_witness:
  "case run_ok demo_declared of None \<Rightarrow> False
   | Some db \<Rightarrow> family_coded db [[0], [1]] [0, 1] (map_find (fst (codingFunc db [[0, 1]] [[0], [1]])))
       (map_find (snd (codingFunc db [[0, 1]] [[0], [1]])))"
proof -
  have "coding_ok [[0, 1]] [[0], [1]]" by (simp add: coding_ok_def)
  from codingFunc_distinguishes[OF this _ prod.collapse[symmetric], of "[0, 1]"] demo_declared_run
  show ?thesis by (cases "run_ok demo_declared") simp_all
qed

section \<open>Classes that are only met in casts\<close>

text \<open>The cast of a pointer to \<open>base\<close> to a class with \<open>base\<close> as its only base; \<open>base\<close> has none.\<close>

definition sibling_cast :: "rd_info \<Rightarrow> rd_info \<Rightarrow> (string \<times> nat) option \<Rightarrow> ast_node" where
  "sibling_cast base derived loc = CastNode \<lparr>ce_kind = CK_BaseToDerived, ce_loc = loc,
     ce_type = PointerTo (Some (CXXRecord derived [DefinedBase (CXXRecord base [])])),
     ce_sub_type = PointerTo (Some (CXXRecord base []))\<rparr>"

lemma sibling_bases:
  "CollectAllBases (CXXRecord d [DefinedBase (CXXRecord b [])]) = [CXXRecord b []]" "CollectAllBases (CXXRecord b []) = []"
  by (simp_all add: CollectAllBases_def collect_loop.simps direct_bases_def)

lemma sibling_run:
  assumes "rd_name b \<noteq> rd_name d" "rd_name b \<noteq> rd_name e" "rd_name d \<noteq> rd_name e"
    "rd_size d \<noteq> rd_size b" "rd_size e \<noteq> rd_size b"
  shows "\<exists>db. HandleTopLevelDecl [sibling_cast b d l, sibling_cast b e k] initgraph = Inr db \<and> currentIndex db = 3 \<and>
    numberName db = [(0, rd_name d), (1, rd_name b), (2, rd_name e)] \<and>
    set (downCastVec db) = {rd_name e, rd_name d} \<and> map_find (classCode db) (rd_name d) = Some 0 \<and>
    map_find (classCode db) (rd_name e) = Some 2 \<and> (\<forall>i j. \<not> graph_phantoms db i j) \<and>
    (\<forall>i j. graph db i j \<longleftrightarrow> (i, j) \<in> {(0, 0), (1, 0), (1, 2), (2, 2)}) \<and>
    (\<forall>i j. graph_family db i j \<longleftrightarrow> (i, j) \<in> {(0, 1), (1, 0), (1, 2), (2, 1)})"
  using assms
  by (simp add: HandleTopLevelDecl_def sibling_cast_def VisitCastExpr_def visit_BaseToDerived_def Let_def sibling_bases
    relate_hierarchy_def addRelationShip_def class_index_def relate_base_def mark_graph_def mark_family_def mark_def MAX_NUM_CLASS_def
    note_location_def initgraph_def map_of_map_insert merge_relation_def map_insert_def split: option.split)

lemma sibling_search:
  "DFS (\<lambda>_ _. False) 3 = Inr [[0], [1], [2]]"
  "DFS (\<lambda>i j. (i, j) \<in> {(0, 0), (1, 0), (1, 2), (2, 2)}) 3 = Inr [[0], [1, 2]]"
  "DFS (\<lambda>i j. (i, j) \<in> {(0, 1), (1, 0), (1, 2), (2, 1)}) 3 = Inr [[0, 1, 2]]"
  by code_simp+


end
