(* ===== verification/StrRef.thy ===== *)
theory StrRef
  imports Bitype_Prelude "HOL-Library.Word"
begin

text \<open>
  The parts of LLVM's \<open>StringRef\<close> (\<open>lib/Support/StringRef.cpp\<close>, \<open>include/llvm/ADT/StringRef.h\<close>) that
  the readers of the class files rest on: searching and splitting at a character, prefixes and
  suffixes, and the parsing of integers, with its 64-bit overflow test. Two functions of the C++
  library the program uses on the same lines are here too: \<open>std::getline\<close> in a loop over a file, and
  \<open>std::stoi\<close>. A function that returns \<open>true\<close> for failure is an option, \<open>None\<close> the failure.
\<close>

section \<open>Searching and splitting\<close>

fun sr_find :: "char \<Rightarrow> string \<Rightarrow> nat option" where
  "sr_find C [] = None"
| "sr_find C (c # s) = (if c = C then Some 0 else map_option Suc (sr_find C s))"

definition slice :: "nat \<Rightarrow> nat \<Rightarrow> string \<Rightarrow> string" where
  "slice Start End s =
     (let Start = min Start (length s); End = min (max Start End) (length s)
      in take (End - Start) (drop Start s))"

definition split :: "char \<Rightarrow> string \<Rightarrow> string \<times> string" where
  "split Separator s =
     (case sr_find Separator s of
        None \<Rightarrow> (s, [])
      | Some Idx \<Rightarrow> (slice 0 Idx s, slice (Idx + 1) (length s) s))"

definition startswith :: "string \<Rightarrow> string \<Rightarrow> bool" where
  "startswith s Prefix \<longleftrightarrow> length s \<ge> length Prefix \<and> take (length Prefix) s = Prefix"

definition endswith :: "string \<Rightarrow> string \<Rightarrow> bool" where
  "endswith s Suffix \<longleftrightarrow> length s \<ge> length Suffix \<and> drop (length s - length Suffix) s = Suffix"

section \<open>Integers\<close>

definition char_code :: "char \<Rightarrow> nat" where
  "char_code c = of_char c"

definition isDigit :: "char \<Rightarrow> bool" where
  "isDigit c \<longleftrightarrow> CHR ''0'' \<le> c \<and> c \<le> CHR ''9''"

definition GetAutoSenseRadix :: "string \<Rightarrow> nat \<times> string" where
  "GetAutoSenseRadix Str =
     (if Str = [] then (10, Str)
      else if startswith Str ''0x'' \<or> startswith Str ''0X'' then (16, drop 2 Str)
      else if startswith Str ''0b'' \<or> startswith Str ''0B'' then (2, drop 2 Str)
      else if startswith Str ''0o'' then (8, drop 2 Str)
      else if hd Str = CHR ''0'' \<and> length Str > 1 \<and> isDigit (Str ! 1) then (8, drop 1 Str)
      else (10, Str))"

text \<open>The value of a digit of any radix up to 36; \<open>None\<close> ends the number.\<close>

definition CharVal :: "char \<Rightarrow> nat option" where
  "CharVal c =
     (if CHR ''0'' \<le> c \<and> c \<le> CHR ''9'' then Some (char_code c - 48)
      else if CHR ''a'' \<le> c \<and> c \<le> CHR ''z'' then Some (char_code c - 97 + 10)
      else if CHR ''A'' \<le> c \<and> c \<le> CHR ''Z'' then Some (char_code c - 65 + 10)
      else None)"

text \<open>The loop over the digits; the 64-bit product may wrap, and dividing back detects it.\<close>

fun consume_digits :: "nat \<Rightarrow> string \<Rightarrow> 64 word \<Rightarrow> (string \<times> 64 word) option" where
  "consume_digits Radix [] Result = Some ([], Result)"
| "consume_digits Radix (c # Str2) Result =
     (case CharVal c of
        None \<Rightarrow> Some (c # Str2, Result)
      | Some v \<Rightarrow>
          if v \<ge> Radix then Some (c # Str2, Result)
          else let PrevResult = Result;
                   Result = Result * of_nat Radix + of_nat v
               in if Result div of_nat Radix < PrevResult then None
                  else consume_digits Radix Str2 Result)"

definition consumeUnsignedInteger :: "nat \<Rightarrow> string \<Rightarrow> (string \<times> 64 word) option" where
  "consumeUnsignedInteger Radix Str =
     (let (Radix, Str) = (if Radix = 0 then GetAutoSenseRadix Str else (Radix, Str)) in
      if Str = [] then None
      else case consume_digits Radix Str 0 of
        None \<Rightarrow> None
      | Some (Str2, Result) \<Rightarrow>
          if length Str = length Str2 then None else Some (Str2, Result))"

definition consumeSignedInteger :: "nat \<Rightarrow> string \<Rightarrow> (string \<times> 64 word) option" where
  "consumeSignedInteger Radix Str =
     (if Str = [] \<or> hd Str \<noteq> CHR ''-''
      then (case consumeUnsignedInteger Radix Str of
              None \<Rightarrow> None
            | Some (Str', ULLVal) \<Rightarrow> if sint ULLVal < 0 then None else Some (Str', ULLVal))
      else (case consumeUnsignedInteger Radix (drop 1 Str) of
              None \<Rightarrow> None
            | Some (Str2, ULLVal) \<Rightarrow> if sint (- ULLVal) > 0 then None else Some (Str2, - ULLVal)))"

definition getAsUnsignedInteger :: "nat \<Rightarrow> string \<Rightarrow> 64 word option" where
  "getAsUnsignedInteger Radix Str =
     (case consumeUnsignedInteger Radix Str of
        None \<Rightarrow> None | Some (Str, Result) \<Rightarrow> if Str \<noteq> [] then None else Some Result)"

definition getAsSignedInteger :: "nat \<Rightarrow> string \<Rightarrow> 64 word option" where
  "getAsSignedInteger Radix Str =
     (case consumeSignedInteger Radix Str of
        None \<Rightarrow> None | Some (Str, Result) \<Rightarrow> if Str \<noteq> [] then None else Some Result)"

text \<open>\<open>getAsInteger\<close> at type \<open>int\<close>: the value has to survive the cast to 32 bits.\<close>

definition getAsInteger :: "nat \<Rightarrow> string \<Rightarrow> int option" where
  "getAsInteger Radix s =
     (case getAsSignedInteger Radix s of
        None \<Rightarrow> None
      | Some LLVal \<Rightarrow>
          let T = (ucast LLVal :: 32 word) in
          if scast T \<noteq> LLVal then None else Some (sint T))"

text \<open>The same at type \<open>unsigned\<close>.\<close>

definition getAsInteger_unsigned :: "nat \<Rightarrow> string \<Rightarrow> nat option" where
  "getAsInteger_unsigned Radix s =
     (case getAsUnsignedInteger Radix s of
        None \<Rightarrow> None
      | Some ULLVal \<Rightarrow>
          let T = (ucast ULLVal :: 32 word) in
          if ucast T \<noteq> ULLVal then None else Some (unat T))"

section \<open>The C++ library\<close>

text \<open>The lines a loop \<open>while(std::getline(ifile, s))\<close> sees of a file.\<close>

fun getlines_from :: "string \<Rightarrow> string \<Rightarrow> string list" where
  "getlines_from line [] = (if line = [] then [] else [line])"
| "getlines_from line (c # s) =
     (if c = CHR 0x0A then line # getlines_from [] s else getlines_from (line @ [c]) s)"

definition getlines :: "string \<Rightarrow> string list" where
  "getlines = getlines_from []"

datatype stoi_error = InvalidArgument | OutOfRange

definition is_space :: "char \<Rightarrow> bool" where
  "is_space c \<longleftrightarrow> c = CHR 0x20 \<or> CHR 0x09 \<le> c \<and> c \<le> CHR 0x0D"

fun decimal :: "string \<Rightarrow> nat \<Rightarrow> nat" where
  "decimal [] n = n"
| "decimal (c # s) n = decimal s (10 * n + (char_code c - 48))"

text \<open>\<open>std::stoi\<close>: leading white space, an optional sign, as many decimal digits as there are.\<close>

definition stoi :: "string \<Rightarrow> stoi_error + int" where
  "stoi s =
     (let s = dropWhile is_space s;
          (sg, s) = (if s \<noteq> [] \<and> hd s = CHR ''-'' then (-1, tl s)
                     else if s \<noteq> [] \<and> hd s = CHR ''+'' then (1, tl s) else (1, s));
          ds = takeWhile isDigit s
      in if ds = [] then Inl InvalidArgument
         else let v = sg * int (decimal ds 0) in
           if v < -(2 ^ 31) \<or> v \<ge> 2 ^ 31 then Inl OutOfRange else Inr v)"

definition print_int :: "int \<Rightarrow> string" where
  "print_int i = (if i < 0 then CHR ''-'' # digits_of (nat (- i)) else digits_of (nat i))"

section \<open>Splitting\<close>

lemma sr_find_None: "sr_find C s = None \<longleftrightarrow> C \<notin> set s"
  by (induction s) auto

lemma sr_find_append: "C \<notin> set a \<Longrightarrow> sr_find C (a @ C # b) = Some (length a)"
  by (induction a) auto

lemma split_at: "C \<notin> set a \<Longrightarrow> split C (a @ C # b) = (a, b)"
  by (simp add: split_def sr_find_append slice_def)

lemma split_none: "C \<notin> set a \<Longrightarrow> split C a = (a, [])"
  by (simp add: split_def sr_find_None[symmetric])

lemma split_length: "s \<noteq> [] \<Longrightarrow> length (snd (split C s)) < length s"
  by (auto simp: split_def slice_def split: option.split)

text \<open>A line up to its end, and the rest.\<close>

lemma getlines_from_line:
  "CHR 0x0A \<notin> set a \<Longrightarrow> getlines_from line (a @ CHR 0x0A # s) = (line @ a) # getlines_from [] s"
  by (induction a arbitrary: line) auto

lemma getlines_Nil [simp]: "getlines [] = []"
  by (simp add: getlines_def)

lemma getlines_line: "CHR 0x0A \<notin> set a \<Longrightarrow> getlines (a @ CHR 0x0A # s) = a # getlines s"
  by (simp add: getlines_def getlines_from_line)

text \<open>A file written line by line is read line by line.\<close>

lemma getlines_concat:
  "\<forall>a\<in>set ls. CHR 0x0A \<notin> set a \<Longrightarrow> getlines (concat (map (\<lambda>a. a @ [CHR 0x0A]) ls)) = ls"
  by (induction ls) (auto simp: getlines_line)

section \<open>Printing and parsing numbers\<close>

lemma char_code_digit: "d < 10 \<Longrightarrow> char_code (char_of (48 + d)) = 48 + d"
  by (simp add: char_code_def of_char_of)

lemma isDigit_iff: "isDigit c \<longleftrightarrow> 48 \<le> char_code c \<and> char_code c \<le> 57"
  by (simp add: isDigit_def less_eq_char_def char_code_def)

lemma isDigit_char: "d < (10 :: nat) \<Longrightarrow> isDigit (char_of (48 + d))"
  by (simp add: isDigit_iff char_code_digit)

lemma CharVal_digit: "d < (10 :: nat) \<Longrightarrow> CharVal (char_of (48 + d)) = Some d"
  using isDigit_char[of d] by (simp add: CharVal_def isDigit_def char_code_digit)

definition is_digit_of :: "nat \<Rightarrow> char \<Rightarrow> bool" where
  "is_digit_of r c \<longleftrightarrow> (case CharVal c of None \<Rightarrow> False | Some v \<Rightarrow> v < r)"

fun value_of :: "nat \<Rightarrow> string \<Rightarrow> nat \<Rightarrow> nat" where
  "value_of r [] n = n"
| "value_of r (c # s) n = value_of r s (n * r + the (CharVal c))"

lemma value_of_ge: "1 \<le> r \<Longrightarrow> n \<le> value_of r s n"
proof (induction s arbitrary: n)
  case (Cons c s)
  have "n \<le> n * r + the (CharVal c)" using Cons.prems by (simp add: trans_le_add1)
  also have "\<dots> \<le> value_of r s (n * r + the (CharVal c))" by (rule Cons.IH[OF Cons.prems])
  finally show ?case by simp
qed simp

lemma value_of_append: "value_of r (s @ t) n = value_of r t (value_of r s n)"
  by (induction s arbitrary: n) auto

text \<open>
  Dividing back by the radix detects every overflow of \<open>Result * Radix + CharVal\<close> and nothing else.
\<close>

lemma overflow_test:
  fixes w :: "64 word"
  assumes "2 \<le> r" "r \<le> 36" "v < r"
  shows "(w * of_nat r + of_nat v) div of_nat r < w \<longleftrightarrow> 2 ^ 64 \<le> unat w * r + v"
    "unat w * r + v < 2 ^ 64 \<Longrightarrow> unat (w * of_nat r + of_nat v) = unat w * r + v"
proof -
  let ?n = "unat w * r + v" and ?M = "2 ^ 64 :: nat"
  have m: "unat (w * of_nat r + of_nat v) = ?n mod ?M"
    using assms by (simp add: unat_word_ariths unsigned_of_nat take_bit_eq_mod mod_simps)
  have r: "unat (of_nat r :: 64 word) = r"
    using assms by (simp add: unsigned_of_nat take_bit_eq_mod)
  have "(w * of_nat r + of_nat v) div of_nat r < w \<longleftrightarrow> (?n mod ?M) div r < unat w"
    by (simp add: word_less_nat_alt unat_div m r)
  also have "\<dots> \<longleftrightarrow> ?M \<le> ?n"
  proof
    assume d: "(?n mod ?M) div r < unat w"
    show "?M \<le> ?n"
    proof (rule ccontr)
      assume "\<not> ?M \<le> ?n"
      then have "?n mod ?M = ?n" by simp
      moreover have "?n div r = unat w" using assms by simp
      ultimately show False using d by simp
    qed
  next
    assume M: "?M \<le> ?n"
    have "?n mod ?M = (?n - ?M) mod ?M" using M by (simp add: le_mod_geq)
    also have "\<dots> \<le> ?n - ?M" by simp
    also have "\<dots> < unat w * r"
    proof -
      have "v < ?M" using assms by simp
      with M show ?thesis by (simp add: less_diff_conv2)
    qed
    finally show "(?n mod ?M) div r < unat w" by (rule less_mult_imp_div_less)
  qed
  finally show "(w * of_nat r + of_nat v) div of_nat r < w \<longleftrightarrow> 2 ^ 64 \<le> unat w * r + v" .
  show "?n < 2 ^ 64 \<Longrightarrow> unat (w * of_nat r + of_nat v) = ?n" using m by simp
qed

lemma consume_digits_spec:
  assumes "2 \<le> r" "r \<le> 36"
  shows "consume_digits r s w =
    (let n = value_of r (takeWhile (is_digit_of r) s) (unat w) in
     if n < 2 ^ 64 then Some (dropWhile (is_digit_of r) s, of_nat n) else None)"
proof (induction s arbitrary: w)
  case Nil
  then show ?case using unsigned_less[of w, where 'a = nat] by simp
next
  case (Cons c s)
  show ?case
  proof (cases "is_digit_of r c")
    case False
    then show ?thesis using unsigned_less[of w, where 'a = nat]
      by (auto simp: is_digit_of_def split: option.splits)
  next
    case True
    then obtain v where v: "CharVal c = Some v" "v < r" by (auto simp: is_digit_of_def split: option.splits)
    let ?n = "unat w * r + v" and ?w = "w * of_nat r + of_nat v"
    note o = overflow_test[OF assms v(2), of w]
    show ?thesis
    proof (cases "?n < 2 ^ 64")
      case small: True
      with o have "\<not> ?w div of_nat r < w" "unat ?w = ?n" by simp_all
      with v True Cons.IH[of ?w] show ?thesis by (simp add: Let_def)
    next
      case False
      with o have "?w div of_nat r < w" by simp
      moreover have "\<not> value_of r (takeWhile (is_digit_of r) s) ?n < 2 ^ 64"
        using False value_of_ge[of r ?n "takeWhile (is_digit_of r) s"] assms by simp
      ultimately show ?thesis using v True by (simp add: Let_def)
    qed
  qed
qed

text \<open>
  In every radix from 2 to 36, \<open>consumeUnsignedInteger\<close> takes the longest prefix of digits and
  returns its value and the rest, and fails exactly when that prefix is empty or its value does not
  fit 64 bits: the test by division misses no overflow and reports none that did not happen.
\<close>

theorem consumeUnsignedInteger_correct:
  assumes "2 \<le> r" "r \<le> 36"
  shows "consumeUnsignedInteger r s =
    (let ds = takeWhile (is_digit_of r) s; n = value_of r ds 0 in
     if ds = [] \<or> 2 ^ 64 \<le> n then None else Some (drop (length ds) s, of_nat n))"
proof -
  have len: "length s = length (dropWhile (is_digit_of r) s) \<longleftrightarrow> takeWhile (is_digit_of r) s = []"
    by (metis add_cancel_left_left length_0_conv length_append takeWhile_dropWhile_id)
  show ?thesis
    using assms len
    by (cases "s = []")
      (auto simp: consumeUnsignedInteger_def consume_digits_spec Let_def dropWhile_eq_drop)
qed

lemma consumeUnsignedInteger_correct_witness:
  "consumeUnsignedInteger 10 ''18446744073709551616'' = None \<and>
   consumeUnsignedInteger 10 ''42,'' = Some ('','', 42)"
proof -
  have "(2 :: nat) \<le> 10" "(10 :: nat) \<le> 36" by simp_all
  from consumeUnsignedInteger_correct[OF this] show ?thesis
    by (simp add: is_digit_of_def CharVal_def char_code_def Let_def)
qed

end
