(* ===== verification/ClassOutput.thy ===== *)
theory ClassOutput
  imports ClassFamilies StrRef
begin

text \<open>
  The class finder, last part: the files it writes, the search for source files, and \<open>main\<close>. The
  file system is a map from paths to contents; \<open>opens\<close> says which paths can be opened for writing.
  Progress messages on the error stream are left out. A directory is its list of entries in the
  order \<open>readdir\<close> gives them, without the entries \<open>.\<close> and \<open>..\<close> being special to the model;
  \<open>None\<close> is a directory that cannot be opened.
\<close>

type_synonym files = "string \<rightharpoonup> string"

abbreviation newline :: string where
  "newline \<equiv> [CHR 0x0A]"

section \<open>Writers\<close>

text \<open>\<open>output\<close>: one family per line. It stops at a class without a name and returns -1.\<close>

fun family_line :: "class_db \<Rightarrow> nat list \<Rightarrow> string \<Rightarrow> bool \<times> string" where
  "family_line db [] out = (True, out)"
| "family_line db (c # cs) out =
     (case map_find (numberName db) c of
        None \<Rightarrow> (False, out)
      | Some name \<Rightarrow> family_line db cs (out @ name @ (if cs = [] then newline else '','')))"

fun family_lines :: "class_db \<Rightarrow> nat list list \<Rightarrow> string \<Rightarrow> bool \<times> string" where
  "family_lines db [] out = (True, out)"
| "family_lines db (v # vs) out =
     (let (ok, out) = family_line db v out in if ok then family_lines db vs out else (False, out))"

definition output_families ::
  "(string \<Rightarrow> bool) \<Rightarrow> class_db \<Rightarrow> nat list list \<Rightarrow> string \<Rightarrow> files \<Rightarrow> int \<times> files" where
  "output_families opens db result fileName fs =
     (if \<not> opens fileName then (-1, fs)
      else let (ok, out) = family_lines db result [] in
        (if ok then 1 else -1, fs(fileName \<mapsto> out)))"

text \<open>
  The function is declared \<open>int\<close> and has no \<open>return\<close> at its end; no caller uses its value, and the
  model has none.
\<close>

definition outputCodeResult ::
  "(string \<Rightarrow> bool) \<Rightarrow> class_db \<Rightarrow> (nat, nat) smap \<Rightarrow> string \<Rightarrow> files \<Rightarrow> tool_error + files" where
  "outputCodeResult opens db result fileName fs =
     (if \<not> opens fileName then Inr fs
      else bindR (foldR (\<lambda>(currentClass, code) out.
             case map_find (numberName db) currentClass of
               None \<Rightarrow> Inl (ToolExit (-1))
             | Some className \<Rightarrow> Inr (out @ className @ '','' @ digits_of code @ newline)) result [])
           (\<lambda>out. Inr (fs(fileName \<mapsto> out))))"

definition outputCastedRelatedSet ::
  "(string \<Rightarrow> bool) \<Rightarrow> class_db \<Rightarrow> (nat, nat) smap \<Rightarrow> string \<Rightarrow> string \<Rightarrow> files
     \<Rightarrow> tool_error + int \<times> files" where
  "outputCastedRelatedSet opens db result fileName fileName2 fs =
     (if \<not> opens fileName then Inr (-1, fs)
      else if \<not> opens fileName2 then Inr (-1, fs(fileName \<mapsto> []))
      else bindR (foldR (\<lambda>(currentClass, size) (out, out2).
             case map_find (numberName db) currentClass of
               None \<Rightarrow> Inl (ToolExit (-1))
             | Some className \<Rightarrow>
                 if className \<notin> set (castrelatedClass db) then Inr (out, out2)
                 else if size > 0
                 then Inr (out @ className @ '','' @ digits_of size @ newline,
                           (case map_find (classSize db) className of
                              None \<Rightarrow> out2
                            | Some a \<Rightarrow> out2 @ className @ '' : '' @ print_int a @ newline))
                 else Inr (out, out2)) result ([], []))
           (\<lambda>(out, out2). Inr (1, fs(fileName \<mapsto> out, fileName2 \<mapsto> out2))))"

definition outputBases :: "(string \<Rightarrow> bool) \<Rightarrow> class_db \<Rightarrow> string \<Rightarrow> files \<Rightarrow> int \<times> files" where
  "outputBases opens db fileName fs =
     (if \<not> opens fileName then (-1, fs)
      else (1, fs(fileName \<mapsto> fold (\<lambda>(c, bases) out.
             fold (\<lambda>base out. out @ '','' @ base) bases (out @ c) @ newline) (relations db) [])))"

definition outputDownCastLoc :: "(string \<Rightarrow> bool) \<Rightarrow> class_db \<Rightarrow> string \<Rightarrow> files \<Rightarrow> int \<times> files" where
  "outputDownCastLoc opens db fileName fs =
     (if \<not> opens fileName then (-1, fs)
      else (1, fs(fileName \<mapsto> fst (fold (\<lambda>tempLoc (out, i).
             (out @ tempLoc @ '','' @ digits_of i @ newline, i + 1)) (downCastLoc db) ([], 0)))))"

definition safecast_line :: "class_db \<Rightarrow> string \<Rightarrow> string list \<Rightarrow> string" where
  "safecast_line db currentClass castedSet =
     fold (\<lambda>t out. if t \<in> set (downCastVec db) then out @ '','' @ t else out) castedSet currentClass
       @ newline"

definition outputSafeCast :: "(string \<Rightarrow> bool) \<Rightarrow> class_db \<Rightarrow> string \<Rightarrow> files \<Rightarrow> int \<times> files" where
  "outputSafeCast opens db fileName fs =
     (if \<not> opens fileName then (-1, fs)
      else (1, fs(fileName \<mapsto> fold (\<lambda>(currentClass, castedSet) out.
             if currentClass \<in> set (castrelatedClass db)
             then out @ safecast_line db currentClass castedSet else out) (relations db) [])))"

section \<open>Finding the source files\<close>

datatype dirent = Directory string "dirent list option" | FileEntry string

fun contains :: "string \<Rightarrow> string \<Rightarrow> bool" where
  "contains p [] = (p = [])"
| "contains p (c # s) = (take (length p) (c # s) = p \<or> contains p s)"

definition join_path :: "string \<Rightarrow> string \<Rightarrow> string" where
  "join_path directory name =
     (if directory \<noteq> [] \<and> last directory = CHR ''/'' then directory @ name
      else directory @ ''/'' @ name)"

text \<open>The part after the last dot, the whole name without one.\<close>

definition suffix_of :: "string \<Rightarrow> string" where
  "suffix_of filename = rev (takeWhile (\<lambda>c. c \<noteq> CHR ''.'') (rev filename))"

definition is_source :: "string \<Rightarrow> bool" where
  "is_source filename \<longleftrightarrow> suffix_of filename \<in> {''cpp'', ''cc'', ''cxx'', ''c++'', ''C''}"

fun getFiles :: "string \<Rightarrow> dirent list option \<Rightarrow> string list \<Rightarrow> int \<times> string list"
  and read_entries :: "string \<Rightarrow> dirent list \<Rightarrow> string list \<Rightarrow> int \<times> string list" where
  "getFiles directory None files = (-1, files @ [directory])"
| "getFiles directory (Some entries) files = read_entries directory entries files"
| "read_entries directory [] files = (0, files)"
| "read_entries directory (Directory name sub # es) files =
     (if name = ''.'' \<or> name = ''..'' \<or> contains ''test'' name then read_entries directory es files
      else let (r, files) = getFiles (join_path directory name) sub files in
        if r = -1 then (-1, files) else read_entries directory es files)"
| "read_entries directory (FileEntry name # es) files =
     (if name = ''.'' \<or> name = ''..'' then read_entries directory es files
      else read_entries directory es
        (if is_source name then files @ [join_path directory name] else files))"

section \<open>The program\<close>

text \<open>
  \<open>main\<close> for a command line whose third argument is \<open>directory\<close> (\<open>None\<close> when there is none).
  \<open>parse\<close> is the Clang tool: the nodes its visitor meets for a list of files. The empty path stands
  for the output names left unset when the directory cannot be opened.
\<close>

definition class_finder ::
  "(string \<Rightarrow> bool) \<Rightarrow> (string list \<Rightarrow> ast_node list) \<Rightarrow> string option \<Rightarrow> dirent list option \<Rightarrow> files
     \<Rightarrow> tool_error + int \<times> files" where
  "class_finder opens parse directory tree fs =
     (case directory of
        None \<Rightarrow> Inr (-1, fs)
      | Some directory \<Rightarrow>
          let outFileStr = (if tree = None then [] else join_path directory ''coding-num.txt'');
              outFileSafeSet = (if tree = None then [] else join_path directory ''safecast.txt'');
              (_, fileLists) = getFiles directory tree []
          in bindR (HandleTopLevelDecl (parse fileLists) initgraph) (\<lambda>db.
             let db = calculateRelatedClass db in
             bindR (DFS (graph db) (currentIndex db)) (\<lambda>result.
             bindR (DFS (graph_phantoms db) (currentIndex db)) (\<lambda>phantomSets.
             bindR (DFS (graph_family db) (currentIndex db)) (\<lambda>castedVec.
             let (codeResult, relatedResult) = codingFunc db result phantomSets in
             bindR (outputCodeResult opens db codeResult outFileStr fs) (\<lambda>fs.
             bindR (outputCastedRelatedSet opens db relatedResult (directory @ ''/castrelated-set.txt'')
                      (directory @ ''/class_alignment.txt'') fs) (\<lambda>(_, fs).
             let (_, fs) = outputSafeCast opens db outFileSafeSet fs;
                 (_, fs) = outputBases opens db (directory @ ''/bases-set.txt'') fs;
                 (_, fs) = outputDownCastLoc opens db (directory @ ''/downcastLoc.txt'') fs
             in Inr (0, fs))))))))"

end
