(* ===== verification/CodeFiles.thy ===== *)
theory CodeFiles
  imports StrRef
begin

text \<open>
  The readers of the files the class finder writes: in the instrumentation passes,
  \<open>lib/Transforms/Utils/BitypeUtil.cpp\<close>, and in Clang's code generator,
  \<open>clang/lib/Basic/SanitizerRelation.cpp\<close>. A reader gets the contents of its file, empty for a file
  that cannot be opened. The maps of \<open>BitypeUtil\<close> are the record \<open>code_maps\<close>.
\<close>

section \<open>The passes\<close>

record code_maps =
  bitypeCodeMap :: "(string, int) smap"
  bitypeCastRelatedClass :: "(string, int) smap"
  bitypeClassIndexSet :: "(nat, string) smap"
  bitypeClassIndexSet2 :: "(string, nat) smap"
  BitypeInheritanceSet :: "(string, string sset) smap"
  BitypeInheritanceAllSet :: "(string, string sset) smap"

definition empty_maps :: code_maps where
  "empty_maps = \<lparr>bitypeCodeMap = [], bitypeCastRelatedClass = [], bitypeClassIndexSet = [],
     bitypeClassIndexSet2 = [], BitypeInheritanceSet = [], BitypeInheritanceAllSet = []\<rparr>"

definition readCodeMap :: "string \<Rightarrow> code_maps \<Rightarrow> code_maps" where
  "readCodeMap file u =
     fold (\<lambda>I u.
       if I = [] then u
       else let SplitLine = split CHR '','' I in
         case getAsInteger 10 (snd SplitLine) of
           None \<Rightarrow> u
         | Some code \<Rightarrow> u\<lparr>bitypeCodeMap := map_insert (fst SplitLine) code (bitypeCodeMap u)\<rparr>)
       (getlines file) u"

definition readRelatedClass :: "string \<Rightarrow> code_maps \<Rightarrow> code_maps" where
  "readRelatedClass file u =
     fst (fold (\<lambda>I (u, currentIndex).
       if I = [] then (u, currentIndex)
       else let SplitLine = split CHR '','' I in
         case getAsInteger 10 (snd SplitLine) of
           None \<Rightarrow> (u, currentIndex)
         | Some code \<Rightarrow>
             (u\<lparr>bitypeCastRelatedClass := map_insert (fst SplitLine) code (bitypeCastRelatedClass u),
                bitypeClassIndexSet := map_insert currentIndex (fst SplitLine) (bitypeClassIndexSet u),
                bitypeClassIndexSet2 := map_insert (fst SplitLine) currentIndex (bitypeClassIndexSet2 u)\<rparr>,
              (currentIndex + 1) mod 2 ^ 32)) (getlines file) (u, 0))"

text \<open>The names of a line: all of them but an empty one at its end.\<close>

function line_names :: "string \<times> string \<Rightarrow> string sset \<Rightarrow> string sset" where
  "line_names SplitLine tempVec =
     (if snd SplitLine = []
      then (if fst SplitLine = [] then tempVec else set_insert (fst SplitLine) tempVec)
      else line_names (split CHR '','' (snd SplitLine)) (set_insert (fst SplitLine) tempVec))"
  by pat_completeness auto
termination by (relation "measure (length \<circ> snd \<circ> fst)") (auto simp: split_length)

declare line_names.simps [simp del]

definition readInheritanceSet :: "string \<Rightarrow> code_maps \<Rightarrow> code_maps" where
  "readInheritanceSet file u =
     fold (\<lambda>I u.
       if I = [] then u
       else let SplitLine = split CHR '','' I in
         if snd SplitLine = [] then u
         else u\<lparr>BitypeInheritanceSet :=
                  map_insert (fst SplitLine) (line_names SplitLine []) (BitypeInheritanceSet u)\<rparr>)
       (getlines file) u"

definition readInheritanceAllSet :: "string \<Rightarrow> code_maps \<Rightarrow> code_maps" where
  "readInheritanceAllSet file u =
     fold (\<lambda>I u.
       if I = [] then u
       else let SplitLine = split CHR '','' I in
         if snd SplitLine = [] then u
         else u\<lparr>BitypeInheritanceAllSet :=
                  map_insert (fst SplitLine) (line_names SplitLine []) (BitypeInheritanceAllSet u)\<rparr>)
       (getlines file) u"

text \<open>The three files are the options \<open>bitype-codemap\<close>, \<open>bitype-castrelated\<close> and \<open>bitype-inheritance\<close>.\<close>

definition InitReadFiles :: "string \<Rightarrow> string \<Rightarrow> string \<Rightarrow> code_maps \<Rightarrow> code_maps" where
  "InitReadFiles codemap castrelated inheritance u =
     readInheritanceSet inheritance (readRelatedClass castrelated (readCodeMap codemap u))"

section \<open>Clang\<close>

text \<open>
  The maps have \<open>unsigned\<close> values; an exception of \<open>std::stoi\<close> leaves the reader.
\<close>

definition createCodeMap :: "string \<Rightarrow> stoi_error + (string, 32 word) smap" where
  "createCodeMap file =
     foldR (\<lambda>I result.
       if I = [] then Inr result
       else let SplitLine = split CHR '','' I; codeNum = split CHR '','' (snd SplitLine) in
         bindR (stoi (fst codeNum)) (\<lambda>codeNum1.
           Inr (map_insert (fst SplitLine) (word_of_int codeNum1) result)))
       (getlines file) []"

definition getClassIndex :: "string \<Rightarrow> (string, nat) smap" where
  "getClassIndex file =
     fst (fold (\<lambda>I (result, currentIndex).
       if I = [] then (result, currentIndex)
       else (map_insert (fst (split CHR '','' I)) currentIndex result, (currentIndex + 1) mod 2 ^ 32))
       (getlines file) ([], 0))"

definition getDebugInfo :: "string \<Rightarrow> stoi_error + (string, 32 word) smap" where
  "getDebugInfo file =
     foldR (\<lambda>I result.
       if I = [] then Inr result
       else let SplitLine = split CHR '','' I in
         bindR (stoi (snd SplitLine)) (\<lambda>codeNum1.
           Inr (map_insert (fst SplitLine) (word_of_int codeNum1) result)))
       (getlines file) []"

section \<open>Numbers come back\<close>

lemma digits_of_chars: "c \<in> set (digits_of n) \<Longrightarrow> \<exists>d<10 :: nat. c = char_of (48 + d)"
proof (induction n rule: digits_of.induct)
  case (1 n)
  then show ?case by (auto simp: digits_of.simps[of n] split: if_splits intro: exI[of _ "n mod 10"])
qed

lemma digits_of_ne [simp]: "digits_of n \<noteq> []"
  by (simp add: digits_of.simps[of n])

lemma value_digits_of: "value_of 10 (digits_of n) 0 = n"
proof (induction n rule: digits_of.induct)
  case (1 n)
  show ?case
  proof (cases "n < 10")
    case True
    then show ?thesis by (simp add: digits_of.simps[of n] CharVal_digit)
  next
    case False
    with "1.IH" show ?thesis by (simp add: digits_of.simps[of n] value_of_append CharVal_digit)
  qed
qed

lemma digits_of_digit: "c \<in> set (digits_of n) \<Longrightarrow> is_digit_of 10 c \<and> isDigit c"
  by (drule digits_of_chars) (auto simp: is_digit_of_def CharVal_digit isDigit_char)

lemma digits_of_clean: "CHR '','' \<notin> set (digits_of n)" "CHR 0x0A \<notin> set (digits_of n)"
  "hd (digits_of n) \<noteq> CHR ''-''" "hd (digits_of n) \<noteq> CHR ''+''"
proof -
  have "\<not> isDigit CHR '',''" "\<not> isDigit CHR 0x0A" "\<not> isDigit CHR ''-''" "\<not> isDigit CHR ''+''"
    by (simp_all add: isDigit_def)
  moreover have "isDigit (hd (digits_of n))" using digits_of_digit[of "hd (digits_of n)" n] by simp
  ultimately show "CHR '','' \<notin> set (digits_of n)" "CHR 0x0A \<notin> set (digits_of n)"
    "hd (digits_of n) \<noteq> CHR ''-''" "hd (digits_of n) \<noteq> CHR ''+''"
    using digits_of_digit by metis+
qed

lemma takeWhile_digits: "takeWhile (is_digit_of 10) (digits_of n) = digits_of n"
  "takeWhile isDigit (digits_of n) = digits_of n"
  "dropWhile (is_digit_of 10) (digits_of n) = []"
  by (simp_all add: takeWhile_eq_all_conv digits_of_digit dropWhile_eq_Nil_conv)

lemma decimal_value: "\<forall>c\<in>set s. isDigit c \<Longrightarrow> decimal s n = value_of 10 s n"
proof (induction s arbitrary: n)
  case (Cons c s)
  then have "CharVal c = Some (char_code c - 48)" by (simp add: CharVal_def isDigit_def)
  with Cons show ?case by (simp add: mult.commute)
qed simp

lemma getAsInteger_digits:
  assumes "n < 2 ^ 31"
  shows "getAsInteger 10 (digits_of n) = Some (int n)"
proof -
  have "consumeUnsignedInteger 10 (digits_of n) = Some ([], of_nat n)"
    using assms consume_digits_spec[of 10 "digits_of n" 0]
    by (simp add: consumeUnsignedInteger_def
        takeWhile_digits value_digits_of Let_def)
  moreover have u: "unat (of_nat n :: 64 word) = n"
    using assms by (simp add: unsigned_of_nat take_bit_nat_eq_self)
  moreover have "sint (of_nat n :: 64 word) = int n"
    using assms by (simp add: signed_of_nat signed_take_bit_int_eq_self)
  moreover have "sint (ucast (of_nat n :: 64 word) :: 32 word) = int n"
    using assms by (simp add: unsigned_of_nat signed_of_nat signed_take_bit_int_eq_self take_bit_nat_eq_self)
  moreover then have "scast (ucast (of_nat n :: 64 word) :: 32 word) = (of_nat n :: 64 word)"
    by (simp add: scast_eq del: of_nat_unat)
  ultimately show ?thesis
    using digits_of_clean(3)[of n]
    by (simp add: getAsInteger_def getAsSignedInteger_def consumeSignedInteger_def Let_def)
qed

lemma stoi_digits:
  assumes "n < 2 ^ 31"
  shows "stoi (digits_of n) = Inr (int n)"
proof -
  have "\<not> is_space (hd (digits_of n))"
  proof -
    have "isDigit (hd (digits_of n))" using digits_of_digit[of "hd (digits_of n)" n] by simp
    then show ?thesis by (auto simp: isDigit_def is_space_def less_eq_char_def)
  qed
  then have "dropWhile is_space (digits_of n) = digits_of n"
    by (metis digits_of_ne dropWhile.simps(2) list.collapse)
  moreover have "decimal (digits_of n) 0 = n"
    using decimal_value[of "digits_of n" 0] digits_of_digit value_digits_of by simp
  ultimately show ?thesis
    using assms digits_of_clean(3,4)[of n] by (simp add: stoi_def Let_def takeWhile_digits)
qed

text \<open>A name that can stand on a line: the readers cut at commas and line ends.\<close>

definition clean_name :: "string \<Rightarrow> bool" where
  "clean_name n \<longleftrightarrow> CHR '','' \<notin> set n \<and> CHR 0x0A \<notin> set n"

definition code_line :: "string \<times> nat \<Rightarrow> string" where
  "code_line = (\<lambda>(n, k). n @ '','' @ digits_of k)"

definition code_file :: "(string \<times> nat) list \<Rightarrow> string" where
  "code_file rs = concat (map (\<lambda>r. code_line r @ [CHR 0x0A]) rs)"

lemma getlines_code_file:
  "\<forall>(n, k)\<in>set rs. clean_name n \<Longrightarrow> getlines (code_file rs) = map code_line rs"
proof -
  assume "\<forall>(n, k)\<in>set rs. clean_name n"
  then have "\<forall>a\<in>set (map code_line rs). CHR 0x0A \<notin> set a"
    by (auto simp: code_line_def clean_name_def digits_of_clean)
  from getlines_concat[OF this] show ?thesis by (simp add: code_file_def comp_def)
qed

lemma split_code_line: "clean_name n \<Longrightarrow> split CHR '','' (code_line (n, k)) = (n, digits_of k)"
  using split_at[of "CHR '',''" n "digits_of k"] by (simp add: code_line_def clean_name_def)

lemma code_line_ne: "code_line r \<noteq> []"
  by (simp add: code_line_def split: prod.split)

lemma readCodeMap_back:
  assumes "\<forall>(n, k)\<in>set rs. clean_name n \<and> k < 2 ^ 31"
  shows "map_find (bitypeCodeMap (readCodeMap (code_file rs) empty_maps)) = map_of (map (\<lambda>(n, k). (n, int k)) rs)"
proof -
  have step: "bitypeCodeMap (fold (\<lambda>I u.
       if I = [] then u
       else let SplitLine = split CHR '','' I in
         case getAsInteger 10 (snd SplitLine) of
           None \<Rightarrow> u
         | Some code \<Rightarrow> u\<lparr>bitypeCodeMap := map_insert (fst SplitLine) code (bitypeCodeMap u)\<rparr>)
       (map code_line rs) u) = fold (\<lambda>(n, k). map_insert n k) (map (\<lambda>(n, k). (n, int k)) rs) (bitypeCodeMap u)" for u
    using assms
  proof (induction rs arbitrary: u)
    case (Cons r rs)
    obtain n k where r: "r = (n, k)" by force
    with Cons.prems have n: "clean_name n" "k < 2 ^ 31" by simp_all
    have "getAsInteger 10 (digits_of k) = Some (int k)" by (rule getAsInteger_digits[OF n(2)])
    with Cons show ?case
      by (simp add: r split_code_line[OF n(1)] code_line_ne Let_def)
  qed simp
  have "getlines (code_file rs) = map code_line rs" by (rule getlines_code_file) (use assms in auto)
  then show ?thesis
    by (simp only: readCodeMap_def step) (simp add: empty_maps_def map_of_fold_insert)
qed

text \<open>
  What a pass reads of a code file is what was written: for names without commas and line ends and
  numbers below \<open>2 ^ 31\<close> the code map is exactly the list of lines, the first line of a name winning.
\<close>

theorem readCodeMap_roundtrip:
  assumes "\<forall>(n, k)\<in>set rs. clean_name n \<and> k < 2 ^ 31"
  shows "map_find (bitypeCodeMap (readCodeMap (code_file rs) empty_maps)) = map_of (map (\<lambda>(n, k). (n, int k)) rs)"
  by (rule readCodeMap_back[OF assms])

text \<open>
  Clang reads the same file to the same codes, as unsigned numbers, and no line of it makes
  \<open>std::stoi\<close> throw.
\<close>

theorem createCodeMap_roundtrip:
  assumes "\<forall>(n, k)\<in>set rs. clean_name n \<and> k < 2 ^ 31"
  shows "\<exists>m. createCodeMap (code_file rs) = Inr m \<and>
    map_find m = map_of (map (\<lambda>(n, k). (n, of_nat k)) rs)"
proof -
  have step: "foldR (\<lambda>I result.
       if I = [] then Inr result
       else let SplitLine = split CHR '','' I; codeNum = split CHR '','' (snd SplitLine) in
         bindR (stoi (fst codeNum)) (\<lambda>codeNum1.
           Inr (map_insert (fst SplitLine) (word_of_int codeNum1) result)))
       (map code_line rs) m = Inr (fold (\<lambda>(n, k). map_insert n k) (map (\<lambda>(n, k). (n, of_nat k)) rs) m)"
    for m :: "(string, 32 word) smap"
    using assms
  proof (induction rs arbitrary: m)
    case (Cons r rs)
    obtain n k where r: "r = (n, k)" by force
    with Cons.prems have n: "clean_name n" "k < 2 ^ 31" by simp_all
    have "split CHR '','' (digits_of k) = (digits_of k, [])" by (rule split_none[OF digits_of_clean(1)])
    with Cons stoi_digits[OF n(2)] show ?case
      by (simp add: r split_code_line[OF n(1)] code_line_ne Let_def)
  qed simp
  have "getlines (code_file rs) = map code_line rs" by (rule getlines_code_file) (use assms in auto)
  then show ?thesis
    by (simp only: createCodeMap_def step) (simp add: map_of_fold_insert)
qed

lemma readCodeMap_roundtrip_witness:
  "map_find (bitypeCodeMap (readCodeMap (code_file [(''A'', 3), (''B'', 12)]) empty_maps)) ''B'' = Some 12"
  using readCodeMap_roundtrip[of "[(''A'', 3), (''B'', 12)]"] by (simp add: clean_name_def)

lemma createCodeMap_roundtrip_witness:
  "\<exists>m. createCodeMap (code_file [(''A'', 3), (''B'', 12)]) = Inr m \<and> map_find m ''B'' = Some 12"
  using createCodeMap_roundtrip[of "[(''A'', 3), (''B'', 12)]"] by (auto simp: clean_name_def)

end
