(* ===== verification/FilesRoundtrip.thy ===== *)
theory FilesRoundtrip
  imports ClassOutput CodeFiles ClassTables
begin

text \<open>
  What the class finder writes and what the compiler reads: the codes and the safe-cast sets arrive
  as they were computed, for class names that contain no comma and no line end.
\<close>

section \<open>Codes\<close>

lemma code_lines_written:
  assumes "foldR (\<lambda>(currentClass, code) out.
      case map_find (numberName db) currentClass of
        None \<Rightarrow> Inl (ToolExit (-1))
      | Some className \<Rightarrow> Inr (out @ className @ '','' @ digits_of code @ newline)) result out = Inr out'"
  shows "\<exists>rs. result = map (\<lambda>(c, p). (c, snd p)) rs \<and>
    (\<forall>(c, p)\<in>set rs. map_find (numberName db) c = Some (fst p)) \<and> out' = out @ code_file (map snd rs)"
  using assms
proof (induction result arbitrary: out)
  case Nil
  then show ?case by (intro exI[of _ "[]"]) (simp add: code_file_def)
next
  case (Cons p result)
  obtain c k where p: "p = (c, k)" by force
  from Cons.prems obtain n where n: "map_find (numberName db) c = Some n"
    by (auto simp: p split: option.splits)
  with Cons.prems have f: "foldR (\<lambda>(currentClass, code) out.
      case map_find (numberName db) currentClass of
        None \<Rightarrow> Inl (ToolExit (-1))
      | Some className \<Rightarrow> Inr (out @ className @ '','' @ digits_of code @ newline)) result
      (out @ n @ '','' @ digits_of k @ newline) = Inr out'" by (simp add: p)
  from Cons.IH[OF f] obtain rs where rs: "result = map (\<lambda>(c, p). (c, snd p)) rs"
    "\<forall>(c, p)\<in>set rs. map_find (numberName db) c = Some (fst p)"
    "out' = (out @ n @ '','' @ digits_of k @ newline) @ code_file (map snd rs)" by blast
  show ?case
    by (rule exI[of _ "(c, n, k) # rs"]) (use rs n in \<open>simp add: p code_file_def code_line_def\<close>)
qed

lemma outputCodeResult_file:
  assumes "outputCodeResult opens db result f fs = Inr fs'" "opens f"
  obtains rs where "result = map (\<lambda>(c, p). (c, snd p)) rs"
    "\<forall>(c, p)\<in>set rs. map_find (numberName db) c = Some (fst p)"
    "fs' f = Some (code_file (map snd rs))"
proof -
  from assms obtain out where "foldR (\<lambda>(currentClass, code) out.
      case map_find (numberName db) currentClass of
        None \<Rightarrow> Inl (ToolExit (-1))
      | Some className \<Rightarrow> Inr (out @ className @ '','' @ digits_of code @ newline)) result [] = Inr out"
    and "fs' = fs(f \<mapsto> out)" by (auto simp: outputCodeResult_def bindR_Inr_iff)
  from code_lines_written[OF this(1)] this(2) that show ?thesis by auto
qed

text \<open>
  A code the class finder gives a class is the code the passes look up under the name of the class,
  through the file: with names and indices in a bijection no other class can shadow it.
\<close>

theorem codes_arrive:
  assumes ok: "names_ok db" and out: "outputCodeResult opens db result f fs = Inr fs'" "opens f"
    and res: "smap_ok result" "\<forall>k\<in>snd ` set result. k < 2 ^ 31"
    and clean: "\<forall>n\<in>snd ` set (numberName db). clean_name n"
    and c: "map_find result c = Some k" "map_find (numberName db) c = Some n"
  shows "\<exists>file. fs' f = Some file \<and>
    map_find (bitypeCodeMap (readCodeMap file empty_maps)) n = Some (int k)"
proof -
  obtain rs where rs: "result = map (\<lambda>(c, p). (c, snd p)) rs"
    "\<forall>(c, p)\<in>set rs. map_find (numberName db) c = Some (fst p)"
    "fs' f = Some (code_file (map snd rs))"
    using outputCodeResult_file[OF out] .
  have in_res: "(c', k') \<in> set result" if "(c', n', k') \<in> set rs" for c' n' k'
    unfolding rs(1) using that by force
  have cl: "\<forall>(n, k)\<in>set (map snd rs). clean_name n \<and> k < 2 ^ 31"
  proof (clarsimp)
    fix c' n' k' assume r: "(c', n', k') \<in> set rs"
    with rs(2) have "map_find (numberName db) c' = Some n'" by auto
    then have "(c', n') \<in> set (numberName db)" by (rule map_of_SomeD)
    with clean in_res[OF r] res(2) show "clean_name n' \<and> k' < 2147483648" by force
  qed
  have one: "n' = n \<Longrightarrow> c' = c" "c' = c \<Longrightarrow> n' = n" if "(c', n', k') \<in> set rs" for c' n' k'
    using that rs(2) c(2) known_inj[OF ok] by fastforce+
  have uniq: "k' = k" if "(c, n', k') \<in> set rs" for n' k'
    using in_res[OF that] c(1) res(1) by (simp add: smap_ok_map_of_iff[symmetric])
  from c(1) res(1) have "(c, k) \<in> set result" by (simp add: smap_ok_map_of_iff)
  then obtain n' where "(c, n', k) \<in> set rs" unfolding rs(1) by auto
  with one(2) have "(n, k) \<in> set (map snd rs)" by force
  then obtain k' where k': "map_of (map snd rs) n = Some k'" using weak_map_of_SomeI by fast
  then obtain c' where "(c', n, k') \<in> set rs" by (auto dest!: map_of_SomeD)
  with one(1) uniq have "k' = k" by blast
  with k' have "map_of (map (\<lambda>(n, k). (n, int k)) (map snd rs)) n = Some (int k)"
    by (simp only: map_of_map_vals) simp
  with readCodeMap_back[OF cl] rs(3) show ?thesis by (simp only:) simp
qed

section \<open>Safe-cast sets\<close>

definition comma_join :: "string list \<Rightarrow> string" where
  "comma_join ns = (case ns of [] \<Rightarrow> [] | n # ns \<Rightarrow> n @ concat (map (\<lambda>b. CHR '','' # b) ns))"

lemma comma_join_simps [simp]:
  "comma_join [] = []" "comma_join [n] = n" "comma_join (n # m # ns) = n @ CHR '','' # comma_join (m # ns)"
  by (simp_all add: comma_join_def)

lemma split_comma_join:
  "clean_name n \<Longrightarrow> split CHR '','' (comma_join (n # ns)) = (n, comma_join ns)"
  by (cases ns) (simp_all add: split_at split_none clean_name_def)

lemma comma_join_ne: "n \<noteq> [] \<Longrightarrow> comma_join (n # ns) \<noteq> []"
  by (cases ns) auto

lemma line_names_join:
  "\<forall>n\<in>set (n # ns). clean_name n \<and> n \<noteq> [] \<Longrightarrow>
     set (line_names (n, comma_join ns) acc) = insert n (set ns) \<union> set acc"
proof (induction ns arbitrary: n acc)
  case Nil
  then show ?case by (subst line_names.simps) simp
next
  case (Cons m ns)
  then have "comma_join (m # ns) \<noteq> []" by (intro comma_join_ne) simp
  with Cons show ?case by (subst line_names.simps) (auto simp: split_comma_join)
qed

lemma safecast_line_join:
  "safecast_line db c bs = comma_join (c # filter (\<lambda>b. b \<in> set (downCastVec db)) bs) @ newline"
proof -
  have "fold (\<lambda>t out. if t \<in> set (downCastVec db) then out @ '','' @ t else out) bs out =
      out @ concat (map (\<lambda>b. CHR '','' # b) (filter (\<lambda>b. b \<in> set (downCastVec db)) bs))" for out
    by (induction bs arbitrary: out) auto
  then show ?thesis by (simp add: safecast_line_def comma_join_def)
qed

text \<open>The lines of the safe-cast file.\<close>

definition safe_rows :: "class_db \<Rightarrow> (string \<times> string list) list" where
  "safe_rows db = map (\<lambda>(c, bs). (c, filter (\<lambda>b. b \<in> set (downCastVec db)) bs))
     (filter (\<lambda>(c, bs). c \<in> set (castrelatedClass db)) (relations db))"

lemma outputSafeCast_file:
  assumes "opens f"
  shows "outputSafeCast opens db f fs =
    (1, fs(f \<mapsto> concat (map (\<lambda>a. a @ newline) (map (\<lambda>(c, bs). comma_join (c # bs)) (safe_rows db)))))"
proof -
  have "fold (\<lambda>(c, bs) out. if c \<in> set (castrelatedClass db) then out @ safecast_line db c bs else out) rs out =
    out @ concat (map (\<lambda>a. a @ newline) (map (\<lambda>(c, bs). comma_join (c # bs))
      (map (\<lambda>(c, bs). (c, filter (\<lambda>b. b \<in> set (downCastVec db)) bs))
         (filter (\<lambda>(c, bs). c \<in> set (castrelatedClass db)) rs))))" for rs out
    by (induction rs arbitrary: out) (auto simp: safecast_line_join)
  then show ?thesis using assms by (simp add: outputSafeCast_def safe_rows_def)
qed

lemma readInheritance_rows:
  assumes "\<forall>(c, bs)\<in>set rows. \<forall>n\<in>set (c # bs). clean_name n \<and> n \<noteq> []"
  shows "BitypeInheritanceSet (fold (\<lambda>I u.
       if I = [] then u
       else let SplitLine = split CHR '','' I in
         if snd SplitLine = [] then u
         else u\<lparr>BitypeInheritanceSet :=
                  map_insert (fst SplitLine) (line_names SplitLine []) (BitypeInheritanceSet u)\<rparr>)
      (map (\<lambda>(c, bs). comma_join (c # bs)) rows) u) =
    fold (\<lambda>(c, s). map_insert c s) (map (\<lambda>(c, bs). (c, line_names (c, comma_join bs) []))
      (filter (\<lambda>(c, bs). bs \<noteq> []) rows)) (BitypeInheritanceSet u)"
  using assms
proof (induction rows arbitrary: u)
  case (Cons r rows)
  obtain c bs where r: "r = (c, bs)" by force
  have c: "clean_name c" "comma_join (c # bs) \<noteq> []"
    using Cons.prems by (auto simp: r intro!: comma_join_ne)
  have b: "comma_join bs = [] \<longleftrightarrow> bs = []"
    using Cons.prems comma_join_ne[of "hd bs" "tl bs"] by (cases bs) (auto simp: r)
  have s: "split CHR '','' (comma_join (c # bs)) = (c, comma_join bs)" by (rule split_comma_join[OF c(1)])
  show ?case
    using Cons c b s by (cases "bs = []") (simp_all add: r Let_def del: comma_join_simps)
qed simp

lemma safecast_sets_back:
  assumes "opens f" "smap_ok (relations db)" "outputSafeCast opens db f fs = (r, fs')"
    and clean: "\<forall>(c, bs)\<in>set (relations db). \<forall>n\<in>set (c # bs). clean_name n \<and> n \<noteq> []"
    and c: "c \<in> set (castrelatedClass db)" "map_find (relations db) c = Some bs"
  shows "\<exists>file. fs' f = Some file \<and>
    map_option set (map_find (BitypeInheritanceSet (readInheritanceSet file empty_maps)) c) =
      (if set bs \<inter> set (downCastVec db) = {} then None else Some (insert c (set bs \<inter> set (downCastVec db))))"
proof -
  let ?rows = "safe_rows db" and ?ds = "filter (\<lambda>b. b \<in> set (downCastVec db)) bs"
  let ?file = "concat (map (\<lambda>a. a @ newline) (map (\<lambda>(c, bs). comma_join (c # bs)) ?rows))"
  have rows: "\<forall>(c, bs)\<in>set ?rows. \<forall>n\<in>set (c # bs). clean_name n \<and> n \<noteq> []"
    using clean by (auto simp: safe_rows_def)
  have nl: "CHR 0x0A \<notin> set (comma_join ns)" if "\<forall>n\<in>set ns. clean_name n" for ns
    using that by (induction ns rule: induct_list012) (auto simp: clean_name_def)
  have lines: "getlines ?file = map (\<lambda>(c, bs). comma_join (c # bs)) ?rows"
    by (rule getlines_concat) (use rows nl in fastforce)
  have "map_option set (map_find (BitypeInheritanceSet (readInheritanceSet ?file empty_maps)) c) =
      map_option (\<lambda>bs. set (line_names (c, comma_join bs) [])) (map_of (filter (\<lambda>(c, bs). bs \<noteq> []) ?rows) c)"
    unfolding readInheritanceSet_def lines readInheritance_rows[OF rows]
    by (simp add: empty_maps_def map_of_fold_insert map_of_map_vals option.map_comp comp_def)
  also have "map_of (filter (\<lambda>(c, bs). bs \<noteq> []) ?rows) c = (if ?ds = [] then None else Some ?ds)"
  proof -
    have d: "distinct (map fst (relations db))" by (rule smap_ok_distinct[OF assms(2)])
    have r: "map_of ?rows c = Some ?ds"
      using c by (simp add: safe_rows_def map_of_map_vals map_of_filter_distinct[OF d])
    have "distinct (map fst ?rows)"
      using distinct_map_filter[OF d] by (simp add: safe_rows_def comp_def case_prod_unfold)
    from map_of_filter_distinct[OF this, of "\<lambda>_ bs. bs \<noteq> []" c] r show ?thesis by simp
  qed
  finally have look: "map_option set (map_find (BitypeInheritanceSet (readInheritanceSet ?file empty_maps)) c) =
      (if ?ds = [] then None else Some (set (line_names (c, comma_join ?ds) [])))"
    by simp
  have "(c, bs) \<in> set (relations db)" using c(2) by (rule map_of_SomeD)
  with clean have "\<forall>n\<in>set (c # ?ds). clean_name n \<and> n \<noteq> []" by fastforce
  from line_names_join[OF this, of "[]"]
  have "set (line_names (c, comma_join ?ds) []) = insert c (set bs \<inter> set (downCastVec db))" by auto
  moreover have "?ds = [] \<longleftrightarrow> set bs \<inter> set (downCastVec db) = {}" by (auto simp: filter_empty_conv)
  moreover have "fs' f = Some ?file" using assms(3) outputSafeCast_file[of opens f db fs, OF assms(1)] by auto
  ultimately show ?thesis using look by auto
qed

text \<open>
  C18: The safe-cast set a pass reads for a class related to a cast is the class and those of its
  recorded bases that are targets of a down cast, or no set at all when there is no such base.
\<close>

theorem safecast_sets_arrive:
  assumes "opens f" "smap_ok (relations db)" "outputSafeCast opens db f fs = (r, fs')"
    and clean: "\<forall>(c, bs)\<in>set (relations db). \<forall>n\<in>set (c # bs). clean_name n \<and> n \<noteq> []"
    and c: "c \<in> set (castrelatedClass db)" "map_find (relations db) c = Some bs"
  shows "\<exists>file. fs' f = Some file \<and>
    map_option set (map_find (BitypeInheritanceSet (readInheritanceSet file empty_maps)) c) =
      (if set bs \<inter> set (downCastVec db) = {} then None else Some (insert c (set bs \<inter> set (downCastVec db))))"
  by (rule safecast_sets_back[OF assms])

section \<open>An example\<close>

definition demo_db :: class_db where
  "demo_db = initgraph\<lparr>classCode := [(''B'', 0), (''D'', 1)], numberName := [(0, ''B''), (1, ''D'')],
     currentIndex := 2, relations := [(''D'', [''B''])], castrelatedClass := [''B'', ''D''],
     downCastVec := [''B'', ''D'']\<rparr>"

lemma demo_db_ok: "names_ok demo_db"
  by (auto simp: names_ok_def demo_db_def initgraph_def smap_ok_def less_Suc_eq numeral_2_eq_2
      split: if_splits)

lemma codes_arrive_witness:
  "\<exists>fs' file. outputCodeResult (\<lambda>_. True) demo_db [(1, 1)] ''f'' (\<lambda>_. None) = Inr fs' \<and>
     fs' ''f'' = Some file \<and> map_find (bitypeCodeMap (readCodeMap file empty_maps)) ''D'' = Some 1"
proof -
  let ?fs = "[''f'' \<mapsto> ''D,'' @ digits_of 1 @ newline] :: files"
  have out: "outputCodeResult (\<lambda>_. True) demo_db [(1, 1)] ''f'' (\<lambda>_. None) = Inr ?fs"
    by (simp add: outputCodeResult_def demo_db_def)
  have "map_find [(1 :: nat, 1 :: nat)] 1 = Some 1" "map_find (numberName demo_db) 1 = Some ''D''"
    "smap_ok [(1 :: nat, 1 :: nat)]" "\<forall>k\<in>snd ` set [(1 :: nat, 1)]. k < (2 :: nat) ^ 31"
    "\<forall>n\<in>snd ` set (numberName demo_db). clean_name n"
    by (simp_all add: demo_db_def smap_ok_def clean_name_def)
  from codes_arrive[OF demo_db_ok out TrueI this(3-5) this(1,2)] out show ?thesis by auto
qed

lemma safecast_sets_arrive_witness:
  "\<exists>fs' file. outputSafeCast (\<lambda>_. True) demo_db ''f'' (\<lambda>_. None) = (1, fs') \<and> fs' ''f'' = Some file \<and>
     map_option set (map_find (BitypeInheritanceSet (readInheritanceSet file empty_maps)) ''D'') =
       Some {''B'', ''D''}"
proof -
  obtain r fs' where o: "outputSafeCast (\<lambda>_. True) demo_db ''f'' (\<lambda>_. None) = (r, fs')" by force
  have r: "r = 1" using o by (simp add: outputSafeCast_def)
  have "smap_ok (relations demo_db)" "''D'' \<in> set (castrelatedClass demo_db)"
    "map_find (relations demo_db) ''D'' = Some [''B'']"
    "\<forall>(c, bs)\<in>set (relations demo_db). \<forall>n\<in>set (c # bs). clean_name n \<and> n \<noteq> []"
    by (simp_all add: demo_db_def smap_ok_def clean_name_def)
  from safecast_sets_arrive[OF TrueI this(1) o this(4,2,3)] o r show ?thesis
    by (auto simp: demo_db_def insert_commute)
qed

end
