(* ===== verification/DataLayout.thy ===== *)
theory DataLayout
  imports StrRef "HOL-Library.Product_Lexorder" "HOL-Library.Monad_Syntax"
begin

text \<open>
  LLVM's types, as far as the layout of objects in memory goes, and the \<open>DataLayout\<close> of a target
  (\<open>lib/IR/DataLayout.cpp\<close>, \<open>include/llvm/IR/DataLayout.h\<close>): the alignment tables, sizes and alignments
  of types, and \<open>StructLayout\<close>, which places the elements of a structure. A pointer does not carry the
  type it points to, so types are finite trees. Sizes are natural numbers below \<open>2 ^ 64\<close>; every sum and product of
  the code wraps around, which the model writes out with \<open>wrap64\<close>, and where the code narrows to \<open>unsigned\<close>, the
  model does. A call of \<open>report_fatal_error\<close> is \<open>None\<close>. An alignment 0 divides by zero in \<open>alignTo\<close>; the
  model gives no meaning to that.
\<close>

unbundle bit_operations_syntax

section \<open>Types\<close>

text \<open>
  What identifies a structure type: \<open>structId\<close> is its address, the order of a \<open>std::set\<close> of types.
\<close>

record struct_info =
  structId :: nat
  structName :: "string option"
  isLiteral :: bool
  isOpaque :: bool
  isPacked :: bool

datatype ir_type =
    LabelTy | HalfTy | FloatTy | DoubleTy | X86_FP80Ty | FP128Ty | PPC_FP128Ty | X86_MMXTy
  | IntegerTy nat
  | PointerTy nat
  | VectorTy nat ir_type
  | ArrayTy nat ir_type
  | StructTy struct_info "ir_type list"

section \<open>Powers of two\<close>

definition NextPowerOf2 :: "64 word \<Rightarrow> 64 word" where
  "NextPowerOf2 A =
     (let A = A OR drop_bit 1 A;
          A = A OR drop_bit 2 A;
          A = A OR drop_bit 4 A;
          A = A OR drop_bit 8 A;
          A = A OR drop_bit 16 A;
          A = A OR drop_bit 32 A
      in A + 1)"

definition PowerOf2Ceil :: "nat \<Rightarrow> nat" where
  "PowerOf2Ceil A = (if A = 0 then 0 else unat (NextPowerOf2 (of_nat (A - 1))))"

abbreviation wrap64 :: "nat \<Rightarrow> nat" where
  "wrap64 n \<equiv> n mod 2 ^ 64"

definition alignTo :: "nat \<Rightarrow> nat \<Rightarrow> nat" where
  "alignTo Value Align = wrap64 (Value + Align - 1) div Align * Align"

definition isPowerOf2 :: "nat \<Rightarrow> bool" where
  "isPowerOf2 Value \<longleftrightarrow> Value \<noteq> 0 \<and> Value AND (Value - 1) = 0"

section \<open>The tables\<close>

datatype AlignTypeEnum = INVALID_ALIGN | INTEGER_ALIGN | VECTOR_ALIGN | FLOAT_ALIGN | AGGREGATE_ALIGN

text \<open>The values of the enumeration are characters; the table is sorted by them.\<close>

fun align_code :: "AlignTypeEnum \<Rightarrow> nat" where
  "align_code INVALID_ALIGN = 0"
| "align_code INTEGER_ALIGN = of_char CHR ''i''"
| "align_code VECTOR_ALIGN = of_char CHR ''v''"
| "align_code FLOAT_ALIGN = of_char CHR ''f''"
| "align_code AGGREGATE_ALIGN = of_char CHR ''a''"

lemma align_code_inject [simp]: "align_code a = align_code b \<longleftrightarrow> a = b"
  by (cases a; cases b) simp_all

instantiation AlignTypeEnum :: linorder
begin

definition "a \<le> b \<longleftrightarrow> align_code a \<le> align_code b" for a b :: AlignTypeEnum

definition "a < b \<longleftrightarrow> align_code a < align_code b" for a b :: AlignTypeEnum

instance
  by standard (auto simp: less_eq_AlignTypeEnum_def less_AlignTypeEnum_def)

end

record LayoutAlignElem =
  AlignType :: AlignTypeEnum
  TypeBitWidth :: nat
  ABIAlign :: nat
  PrefAlign :: nat

record PointerAlignElem =
  pABIAlign :: nat
  pPrefAlign :: nat
  TypeByteWidth :: nat
  AddressSpace :: nat
  IndexWidth :: nat

datatype mangling = MM_None | MM_ELF | MM_MachO | MM_Mips | MM_WinCOFF | MM_WinCOFFX86

record data_layout =
  BigEndian :: bool
  AllocaAddrSpace :: nat
  StackNaturalAlign :: nat
  ProgramAddrSpace :: nat
  ManglingMode :: mangling
  LegalIntWidths :: "nat list"
  NonIntegralAddressSpaces :: "nat list"
  Alignments :: "LayoutAlignElem list"
  Pointers :: "PointerAlignElem list"

abbreviation elem_key :: "LayoutAlignElem \<Rightarrow> AlignTypeEnum \<times> nat" where
  "elem_key e \<equiv> (AlignType e, TypeBitWidth e)"

text \<open>Both binary searches return the first position whose key is not smaller.\<close>

definition findAlignmentLowerBound :: "data_layout \<Rightarrow> AlignTypeEnum \<Rightarrow> nat \<Rightarrow> nat" where
  "findAlignmentLowerBound dl T BitWidth =
     length (takeWhile (\<lambda>e. elem_key e < (T, BitWidth)) (Alignments dl))"

definition findPointerLowerBound :: "data_layout \<Rightarrow> nat \<Rightarrow> nat" where
  "findPointerLowerBound dl AS = length (takeWhile (\<lambda>p. AddressSpace p < AS) (Pointers dl))"

definition insert_at :: "nat \<Rightarrow> 'a \<Rightarrow> 'a list \<Rightarrow> 'a list" where
  "insert_at I x xs = take I xs @ x # drop I xs"

definition setAlignment :: "AlignTypeEnum \<Rightarrow> nat \<Rightarrow> nat \<Rightarrow> nat \<Rightarrow> data_layout \<Rightarrow> data_layout option" where
  "setAlignment align_type abi_align pref_align bit_width dl =
     (if \<not> bit_width < 2 ^ 24 then None
      else if \<not> abi_align < 2 ^ 16 then None
      else if \<not> pref_align < 2 ^ 16 then None
      else if abi_align \<noteq> 0 \<and> \<not> isPowerOf2 abi_align then None
      else if pref_align \<noteq> 0 \<and> \<not> isPowerOf2 pref_align then None
      else if pref_align < abi_align then None
      else let I = findAlignmentLowerBound dl align_type bit_width; es = Alignments dl in
        if I \<noteq> length es \<and> AlignType (es ! I) = align_type \<and> TypeBitWidth (es ! I) = bit_width
        then Some (dl\<lparr>Alignments := es[I := (es ! I)\<lparr>ABIAlign := abi_align, PrefAlign := pref_align\<rparr>]\<rparr>)
        else Some (dl\<lparr>Alignments := insert_at I \<lparr>AlignType = align_type, TypeBitWidth = bit_width,
                        ABIAlign = abi_align, PrefAlign = pref_align\<rparr> es\<rparr>))"

definition setPointerAlignment ::
  "nat \<Rightarrow> nat \<Rightarrow> nat \<Rightarrow> nat \<Rightarrow> nat \<Rightarrow> data_layout \<Rightarrow> data_layout option" where
  "setPointerAlignment AddrSpace abi pref ByteWidth Index dl =
     (if pref < abi then None
      else let I = findPointerLowerBound dl AddrSpace; ps = Pointers dl in
        if I = length ps \<or> AddressSpace (ps ! I) \<noteq> AddrSpace
        then Some (dl\<lparr>Pointers := insert_at I \<lparr>pABIAlign = abi, pPrefAlign = pref,
                        TypeByteWidth = ByteWidth, AddressSpace = AddrSpace, IndexWidth = Index\<rparr> ps\<rparr>)
        else Some (dl\<lparr>Pointers := ps[I := (ps ! I)\<lparr>pABIAlign := abi, pPrefAlign := pref,
                        TypeByteWidth := ByteWidth, IndexWidth := Index\<rparr>]\<rparr>))"

text \<open>The entry of an address space, that of address space 0 when it has none.\<close>

definition pointer_entry :: "data_layout \<Rightarrow> nat \<Rightarrow> PointerAlignElem" where
  "pointer_entry dl AS =
     (let I = findPointerLowerBound dl AS;
          I = (if I = length (Pointers dl) \<or> AddressSpace (Pointers dl ! I) \<noteq> AS
               then findPointerLowerBound dl 0 else I)
      in Pointers dl ! I)"

definition getPointerABIAlignment :: "data_layout \<Rightarrow> nat \<Rightarrow> nat" where
  "getPointerABIAlignment dl AS = pABIAlign (pointer_entry dl AS)"

definition getPointerPrefAlignment :: "data_layout \<Rightarrow> nat \<Rightarrow> nat" where
  "getPointerPrefAlignment dl AS = pPrefAlign (pointer_entry dl AS)"

definition getPointerSize :: "data_layout \<Rightarrow> nat \<Rightarrow> nat" where
  "getPointerSize dl AS = TypeByteWidth (pointer_entry dl AS)"

definition getIndexSize :: "data_layout \<Rightarrow> nat \<Rightarrow> nat" where
  "getIndexSize dl AS = IndexWidth (pointer_entry dl AS)"

section \<open>The description of a target\<close>

definition checked_split :: "string \<Rightarrow> char \<Rightarrow> (string \<times> string) option" where
  "checked_split Str Separator =
     (let Split = split Separator Str in
      if snd Split = [] \<and> fst Split \<noteq> Str then None
      else if snd Split \<noteq> [] \<and> fst Split = [] then None
      else Some Split)"

definition getInt :: "string \<Rightarrow> nat option" where
  "getInt R = getAsInteger_unsigned 10 R"

definition inBytes :: "nat \<Rightarrow> nat option" where
  "inBytes Bits = (if Bits mod 8 \<noteq> 0 then None else Some (Bits div 8))"

definition getAddrSpace :: "string \<Rightarrow> nat option" where
  "getAddrSpace R = do { AddrSpace \<leftarrow> getInt R; if \<not> AddrSpace < 2 ^ 24 then None else Some AddrSpace }"

definition getBytes :: "string \<Rightarrow> nat option" where
  "getBytes Tok = do { n \<leftarrow> getInt Tok; inBytes n }"

text \<open>The loops of the specifiers \<open>ni\<close> and \<open>n\<close>.\<close>

lemma checked_split_shorter:
  "checked_split Str c = Some (t, r) \<Longrightarrow> Str \<noteq> [] \<Longrightarrow> length r < length Str"
  using split_length[of Str c] by (auto simp: checked_split_def Let_def split: if_splits)

function read_ni :: "string \<Rightarrow> data_layout \<Rightarrow> data_layout option" where
  "read_ni Rest dl =
     (case checked_split Rest CHR '':'' of
        None \<Rightarrow> None
      | Some (Tok, Rest') \<Rightarrow>
          (case getInt Tok of
             None \<Rightarrow> None
           | Some AS \<Rightarrow>
               if AS = 0 then None
               else let dl = dl\<lparr>NonIntegralAddressSpaces := NonIntegralAddressSpaces dl @ [AS]\<rparr> in
                 if Rest' = [] then Some dl else read_ni Rest' dl))"
  by pat_completeness auto

termination
proof (relation "measure (length \<circ> fst)", goal_cases)
  case (2 Rest dl p Tok Rest' AS u)
  then have s: "checked_split Rest CHR '':'' = Some (Tok, Rest')" by simp
  moreover have "Rest \<noteq> []"
  proof
    assume "Rest = []"
    with s have "Rest' = []" by (auto simp: checked_split_def split_def Let_def split: if_splits)
    with 2 show False by simp
  qed
  ultimately show ?case using checked_split_shorter by simp
qed simp

function read_widths :: "string \<Rightarrow> string \<Rightarrow> data_layout \<Rightarrow> data_layout option" where
  "read_widths Tok Rest dl =
     (case getInt Tok of
        None \<Rightarrow> None
      | Some Width \<Rightarrow>
          if Width = 0 then None
          else let dl = dl\<lparr>LegalIntWidths := LegalIntWidths dl @ [Width]\<rparr> in
            if Rest = [] then Some dl
            else case checked_split Rest CHR '':'' of
                None \<Rightarrow> None
              | Some (Tok', Rest') \<Rightarrow> read_widths Tok' Rest' dl)"
  by pat_completeness auto
termination by (relation "measure (\<lambda>(_, Rest, _). length Rest)") (auto dest: checked_split_shorter)

declare read_ni.simps [simp del] read_widths.simps [simp del]

text \<open>The specifier \<open>p\<close>, after its letter.\<close>

definition read_pointer :: "string \<Rightarrow> string \<Rightarrow> data_layout \<Rightarrow> data_layout option" where
  "read_pointer Tok Rest dl = do {
     AddrSpace \<leftarrow> (if Tok = [] then Some 0 else getInt Tok);
     (if \<not> AddrSpace < 2 ^ 24 \<or> Rest = [] then None else do {
       (Tok, Rest) \<leftarrow> checked_split Rest CHR '':'';
       PointerMemSize \<leftarrow> getBytes Tok;
       (if PointerMemSize = 0 \<or> Rest = [] then None else do {
         (Tok, Rest) \<leftarrow> checked_split Rest CHR '':'';
         PointerABIAlign \<leftarrow> getBytes Tok;
         (if \<not> isPowerOf2 PointerABIAlign then None
          else if Rest = []
          then setPointerAlignment AddrSpace PointerABIAlign PointerABIAlign PointerMemSize PointerMemSize dl
          else do {
            (Tok, Rest) \<leftarrow> checked_split Rest CHR '':'';
            PointerPrefAlign \<leftarrow> getBytes Tok;
            (if \<not> isPowerOf2 PointerPrefAlign then None
             else if Rest = []
             then setPointerAlignment AddrSpace PointerABIAlign PointerPrefAlign PointerMemSize PointerMemSize dl
             else do {
               (Tok, Rest) \<leftarrow> checked_split Rest CHR '':'';
               IndexSize \<leftarrow> getBytes Tok;
               (if IndexSize = 0 then None
                else setPointerAlignment AddrSpace PointerABIAlign PointerPrefAlign PointerMemSize IndexSize dl)
             })
          })
       })
     })
   }"

definition read_align :: "AlignTypeEnum \<Rightarrow> string \<Rightarrow> string \<Rightarrow> data_layout \<Rightarrow> data_layout option" where
  "read_align T Tok Rest dl = do {
     Size \<leftarrow> (if Tok = [] then Some 0 else getInt Tok);
     (if T = AGGREGATE_ALIGN \<and> Size \<noteq> 0 \<or> Rest = [] then None else do {
       (Tok, Rest) \<leftarrow> checked_split Rest CHR '':'';
       abi \<leftarrow> getBytes Tok;
       (if T \<noteq> AGGREGATE_ALIGN \<and> abi = 0 then None
        else if Rest = [] then setAlignment T abi abi Size dl
        else do {
          (Tok, Rest) \<leftarrow> checked_split Rest CHR '':'';
          pref \<leftarrow> getBytes Tok;
          setAlignment T abi pref Size dl
        })
     })
   }"

definition read_mangling :: "string \<Rightarrow> string \<Rightarrow> data_layout \<Rightarrow> data_layout option" where
  "read_mangling Tok Rest dl =
     (if Tok \<noteq> [] \<or> Rest = [] \<or> length Rest > 1 then None
      else map_option (\<lambda>m. dl\<lparr>ManglingMode := m\<rparr>)
        (map_of [(''e'', MM_ELF), (''o'', MM_MachO), (''m'', MM_Mips), (''w'', MM_WinCOFF),
                 (''x'', MM_WinCOFFX86)] Rest))"

text \<open>One piece of the description, split at its first colon.\<close>

definition read_spec :: "string \<Rightarrow> string \<Rightarrow> data_layout \<Rightarrow> data_layout option" where
  "read_spec Tok Rest dl =
     (if Tok = ''ni'' then read_ni Rest dl
      else let Specifier = hd Tok; Tok = tl Tok in
        if Specifier = CHR ''s'' then Some dl
        else if Specifier = CHR ''E'' then Some (dl\<lparr>BigEndian := True\<rparr>)
        else if Specifier = CHR ''e'' then Some (dl\<lparr>BigEndian := False\<rparr>)
        else if Specifier = CHR ''p'' then read_pointer Tok Rest dl
        else if Specifier = CHR ''i'' then read_align INTEGER_ALIGN Tok Rest dl
        else if Specifier = CHR ''v'' then read_align VECTOR_ALIGN Tok Rest dl
        else if Specifier = CHR ''f'' then read_align FLOAT_ALIGN Tok Rest dl
        else if Specifier = CHR ''a'' then read_align AGGREGATE_ALIGN Tok Rest dl
        else if Specifier = CHR ''n'' then read_widths Tok Rest dl
        else if Specifier = CHR ''S''
        then do { n \<leftarrow> getBytes Tok; Some (dl\<lparr>StackNaturalAlign := n\<rparr>) }
        else if Specifier = CHR ''P''
        then do { n \<leftarrow> getAddrSpace Tok; Some (dl\<lparr>ProgramAddrSpace := n\<rparr>) }
        else if Specifier = CHR ''A''
        then do { n \<leftarrow> getAddrSpace Tok; Some (dl\<lparr>AllocaAddrSpace := n\<rparr>) }
        else if Specifier = CHR ''m'' then read_mangling Tok Rest dl
        else None)"

function parseSpecifier :: "string \<Rightarrow> data_layout \<Rightarrow> data_layout option" where
  "parseSpecifier Desc dl =
     (if Desc = [] then Some dl
      else case checked_split Desc CHR ''-'' of
          None \<Rightarrow> None
        | Some (piece, Desc') \<Rightarrow>
            (case checked_split piece CHR '':'' of
               None \<Rightarrow> None
             | Some (Tok, Rest) \<Rightarrow>
                 (case read_spec Tok Rest dl of None \<Rightarrow> None | Some dl \<Rightarrow> parseSpecifier Desc' dl)))"
  by pat_completeness auto
termination by (relation "measure (length \<circ> fst)") (auto dest: checked_split_shorter)

declare parseSpecifier.simps [simp del]

definition DefaultAlignments :: "(AlignTypeEnum \<times> nat \<times> nat \<times> nat) list" where
  "DefaultAlignments =
    [(INTEGER_ALIGN, 1, 1, 1), (INTEGER_ALIGN, 8, 1, 1), (INTEGER_ALIGN, 16, 2, 2),
     (INTEGER_ALIGN, 32, 4, 4), (INTEGER_ALIGN, 64, 4, 8), (FLOAT_ALIGN, 16, 2, 2),
     (FLOAT_ALIGN, 32, 4, 4), (FLOAT_ALIGN, 64, 8, 8), (FLOAT_ALIGN, 128, 16, 16),
     (VECTOR_ALIGN, 64, 8, 8), (VECTOR_ALIGN, 128, 16, 16), (AGGREGATE_ALIGN, 0, 0, 8)]"

definition reset :: "string \<Rightarrow> data_layout option" where
  "reset Desc = do {
     dl \<leftarrow> fold (\<lambda>(T, width, abi, pref) r. do { dl \<leftarrow> r; setAlignment T abi pref width dl })
       DefaultAlignments
       (Some \<lparr>BigEndian = False, AllocaAddrSpace = 0, StackNaturalAlign = 0, ProgramAddrSpace = 0,
          ManglingMode = MM_None, LegalIntWidths = [], NonIntegralAddressSpaces = [],
          Alignments = [], Pointers = []\<rparr>);
     dl \<leftarrow> setPointerAlignment 0 8 8 8 8 dl;
     parseSpecifier Desc dl
   }"

section \<open>Sizes and alignments\<close>

record StructLayout =
  StructSize :: nat
  StructAlignment :: nat
  IsPadded :: bool
  MemberOffsets :: "nat list"

text \<open>\<open>getTypeStoreSize\<close> and \<open>getTypeAllocSize\<close> as functions of the size in bits and the ABI alignment.\<close>

definition store_size :: "nat \<Rightarrow> nat" where
  "store_size bits = wrap64 (bits + 7) div 8"

definition alloc_size :: "nat \<Rightarrow> nat \<Rightarrow> nat" where
  "alloc_size bits align = alignTo (store_size bits) align"

definition finish_layout :: "StructLayout \<Rightarrow> StructLayout" where
  "finish_layout L =
     (let align = (if StructAlignment L = 0 then 1 else StructAlignment L);
          padded = StructSize L AND (align - 1) \<noteq> 0
      in L\<lparr>StructAlignment := align, IsPadded := IsPadded L \<or> padded,
           StructSize := (if padded then alignTo (StructSize L) align else StructSize L)\<rparr>)"

definition start_layout :: StructLayout where
  "start_layout = \<lparr>StructSize = 0, StructAlignment = 0, IsPadded = False, MemberOffsets = []\<rparr>"

definition place_one :: "nat \<Rightarrow> nat \<Rightarrow> StructLayout \<Rightarrow> StructLayout" where
  "place_one TyAlign Sz L =
     (let padded = StructSize L AND (TyAlign - 1) \<noteq> 0;
          offset = (if padded then alignTo (StructSize L) TyAlign else StructSize L)
      in \<lparr>StructSize = wrap64 (offset + Sz), StructAlignment = max TyAlign (StructAlignment L),
          IsPadded = IsPadded L \<or> padded, MemberOffsets = MemberOffsets L @ [offset]\<rparr>)"

text \<open>
  The four functions call each other: \<open>place_elements\<close> is the loop of the constructor of
  \<open>StructLayout\<close>, whose results the code caches. \<open>abi\<close> chooses the ABI or the preferred alignment.
\<close>

function getTypeSizeInBits :: "data_layout \<Rightarrow> ir_type \<Rightarrow> nat"
  and getAlignmentInfo :: "data_layout \<Rightarrow> AlignTypeEnum \<Rightarrow> nat \<Rightarrow> bool \<Rightarrow> ir_type \<Rightarrow> nat"
  and getAlignment :: "data_layout \<Rightarrow> ir_type \<Rightarrow> bool \<Rightarrow> nat"
  and place_elements :: "data_layout \<Rightarrow> bool \<Rightarrow> ir_type list \<Rightarrow> StructLayout \<Rightarrow> StructLayout" where
  "getTypeSizeInBits dl Ty =
     (case Ty of
        LabelTy \<Rightarrow> getPointerSize dl 0 * 8 mod 2 ^ 32
      | PointerTy AS \<Rightarrow> getPointerSize dl AS * 8 mod 2 ^ 32
      | ArrayTy n Ty \<Rightarrow> wrap64 (n * wrap64 (8 * alloc_size (getTypeSizeInBits dl Ty) (getAlignment dl Ty True)))
      | StructTy ST Tys \<Rightarrow> wrap64 (8 * StructSize (finish_layout (place_elements dl (isPacked ST) Tys start_layout)))
      | IntegerTy w \<Rightarrow> w
      | HalfTy \<Rightarrow> 16
      | FloatTy \<Rightarrow> 32
      | DoubleTy \<Rightarrow> 64
      | X86_MMXTy \<Rightarrow> 64
      | PPC_FP128Ty \<Rightarrow> 128
      | FP128Ty \<Rightarrow> 128
      | X86_FP80Ty \<Rightarrow> 80
      | VectorTy n Ty \<Rightarrow> wrap64 (n * getTypeSizeInBits dl Ty))"
| "getAlignmentInfo dl T BitWidth abi Ty =
     (let es = Alignments dl; I = findAlignmentLowerBound dl T BitWidth;
          align = (\<lambda>e. if abi then ABIAlign e else PrefAlign e)
      in if I \<noteq> length es \<and> AlignType (es ! I) = T \<and>
            (TypeBitWidth (es ! I) = BitWidth \<or> T = INTEGER_ALIGN)
         then align (es ! I)
         else if T = INTEGER_ALIGN \<and> I \<noteq> 0 \<and> AlignType (es ! (I - 1)) = INTEGER_ALIGN
         then align (es ! (I - 1))
         else case (T, Ty) of
             (VECTOR_ALIGN, VectorTy n ElTy) \<Rightarrow>
               PowerOf2Ceil
                 (alloc_size (getTypeSizeInBits dl ElTy) (getAlignment dl ElTy True) mod 2 ^ 32 * n
                    mod 2 ^ 32) mod 2 ^ 32
           | _ \<Rightarrow> PowerOf2Ceil (store_size (getTypeSizeInBits dl Ty) mod 2 ^ 32) mod 2 ^ 32)"
| "getAlignment dl Ty abi =
     (case Ty of
        LabelTy \<Rightarrow> if abi then getPointerABIAlignment dl 0 else getPointerPrefAlignment dl 0
      | PointerTy AS \<Rightarrow> if abi then getPointerABIAlignment dl AS else getPointerPrefAlignment dl AS
      | ArrayTy n ElTy \<Rightarrow> getAlignment dl ElTy abi
      | StructTy ST Tys \<Rightarrow>
          if isPacked ST \<and> abi then 1
          else max (getAlignmentInfo dl AGGREGATE_ALIGN 0 abi Ty)
                 (StructAlignment (finish_layout (place_elements dl (isPacked ST) Tys start_layout)))
      | IntegerTy w \<Rightarrow> getAlignmentInfo dl INTEGER_ALIGN (getTypeSizeInBits dl Ty mod 2 ^ 32) abi Ty
      | X86_MMXTy \<Rightarrow> getAlignmentInfo dl VECTOR_ALIGN (getTypeSizeInBits dl Ty mod 2 ^ 32) abi Ty
      | VectorTy n ElTy \<Rightarrow> getAlignmentInfo dl VECTOR_ALIGN (getTypeSizeInBits dl Ty mod 2 ^ 32) abi Ty
      | _ \<Rightarrow> getAlignmentInfo dl FLOAT_ALIGN (getTypeSizeInBits dl Ty mod 2 ^ 32) abi Ty)"
| "place_elements dl packed [] L = L"
| "place_elements dl packed (Ty # Tys) L =
     place_elements dl packed Tys
       (place_one (if packed then 1 else getAlignment dl Ty True)
          (alloc_size (getTypeSizeInBits dl Ty) (getAlignment dl Ty True)) L)"
  by pat_completeness auto
termination
  by (relation "measure (\<lambda>x. case x of
        Inl (Inl (_, Ty)) \<Rightarrow> 4 * size Ty + 1
      | Inl (Inr (_, _, _, _, Ty)) \<Rightarrow> 4 * size Ty + 2
      | Inr (Inl (_, Ty, _)) \<Rightarrow> 4 * size Ty + 3
      | Inr (Inr (_, _, Tys, _)) \<Rightarrow> 4 * size_list size Tys)") auto

declare getTypeSizeInBits.simps [simp del] getAlignmentInfo.simps [simp del] getAlignment.simps [simp del]

definition getABITypeAlignment :: "data_layout \<Rightarrow> ir_type \<Rightarrow> nat" where
  "getABITypeAlignment dl Ty = getAlignment dl Ty True"

definition getTypeStoreSize :: "data_layout \<Rightarrow> ir_type \<Rightarrow> nat" where
  "getTypeStoreSize dl Ty = store_size (getTypeSizeInBits dl Ty)"

definition getTypeAllocSize :: "data_layout \<Rightarrow> ir_type \<Rightarrow> nat" where
  "getTypeAllocSize dl Ty = alloc_size (getTypeSizeInBits dl Ty) (getABITypeAlignment dl Ty)"

definition getStructLayout :: "data_layout \<Rightarrow> struct_info \<Rightarrow> ir_type list \<Rightarrow> StructLayout" where
  "getStructLayout dl ST Tys = finish_layout (place_elements dl (isPacked ST) Tys start_layout)"

definition getElementOffset :: "StructLayout \<Rightarrow> nat \<Rightarrow> nat" where
  "getElementOffset L Idx = MemberOffsets L ! Idx"

end
