(* ===== verification/LayoutProps.thy ===== *)
theory LayoutProps
  imports DataLayout "HOL-Library.Code_Target_Nat"
begin

text \<open>
  What the data layout guarantees: rounding up to powers of two, alignment tables that stay sorted and
  well formed under every description a target can give, and structures whose elements are aligned, do
  not overlap and fill the structure.
\<close>

section \<open>Powers of two\<close>

lemma spread_bit:
  fixes A :: "64 word"
  assumes "\<And>n. bit B n \<longleftrightarrow> (\<exists>d<k. bit A (n + d))"
  shows "bit (B OR drop_bit k B) n \<longleftrightarrow> (\<exists>d<2 * k. bit A (n + d))"
proof -
  have "bit (B OR drop_bit k B) n \<longleftrightarrow> (\<exists>d<k. bit A (n + d)) \<or> (\<exists>d<k. bit A (n + k + d))"
    by (simp add: bit_or_iff bit_drop_bit_eq assms add.commute)
  also have "\<dots> \<longleftrightarrow> (\<exists>d<2 * k. bit A (n + d))"
  proof
    assume "(\<exists>d<k. bit A (n + d)) \<or> (\<exists>d<k. bit A (n + k + d))"
    then show "\<exists>d<2 * k. bit A (n + d)"
    proof
      assume "\<exists>d<k. bit A (n + d)"
      then show ?thesis by (metis trans_less_add1 mult_2)
    next
      assume "\<exists>d<k. bit A (n + k + d)"
      then obtain d where "d < k" "bit A (n + k + d)" by blast
      then have "k + d < 2 * k" "bit A (n + (k + d))" by (simp_all add: add.assoc)
      then show ?thesis by blast
    qed
  next
    assume "\<exists>d<2 * k. bit A (n + d)"
    then obtain d where d: "d < 2 * k" "bit A (n + d)" by blast
    show "(\<exists>d<k. bit A (n + d)) \<or> (\<exists>d<k. bit A (n + k + d))"
    proof (cases "d < k")
      case False
      then have "d - k < k" "n + k + (d - k) = n + d" using d(1) by simp_all
      with d(2) show ?thesis by metis
    qed (use d in blast)
  qed
  finally show ?thesis .
qed

definition smeared :: "64 word \<Rightarrow> 64 word" where
  "smeared A = NextPowerOf2 A - 1"

lemma bit_smeared: "bit (smeared A) n \<longleftrightarrow> (\<exists>d<64. bit A (n + d))"
proof -
  let ?a = "A OR drop_bit 1 A"
  let ?b = "?a OR drop_bit 2 ?a"
  let ?c = "?b OR drop_bit 4 ?b"
  let ?d = "?c OR drop_bit 8 ?c"
  let ?e = "?d OR drop_bit 16 ?d"
  have 0: "bit A n \<longleftrightarrow> (\<exists>d<1. bit A (n + d))" for n by simp
  have "bit ?a n \<longleftrightarrow> (\<exists>d<2. bit A (n + d))" for n using spread_bit[OF 0] by simp
  from spread_bit[OF this] have "bit ?b n \<longleftrightarrow> (\<exists>d<4. bit A (n + d))" for n by simp
  from spread_bit[OF this] have "bit ?c n \<longleftrightarrow> (\<exists>d<8. bit A (n + d))" for n by simp
  from spread_bit[OF this] have "bit ?d n \<longleftrightarrow> (\<exists>d<16. bit A (n + d))" for n by simp
  from spread_bit[OF this] have "bit ?e n \<longleftrightarrow> (\<exists>d<32. bit A (n + d))" for n by simp
  from spread_bit[OF this] show ?thesis by (simp add: smeared_def NextPowerOf2_def Let_def)
qed

lemma unat_small: "m < 2 ^ 64 \<Longrightarrow> unat (of_nat m :: 64 word) = m"
  by (simp add: unsigned_of_nat take_bit_nat_eq_self)

lemma next_power:
  assumes "unat A < 2 ^ 63"
  shows "\<exists>k. unat (NextPowerOf2 A) = 2 ^ k \<and> unat A < 2 ^ k \<and> (A \<noteq> 0 \<longrightarrow> 2 ^ k \<le> 2 * unat A)"
proof (cases "A = 0")
  case True
  then show ?thesis by (intro exI[of _ 0]) (simp add: NextPowerOf2_def)
next
  case False
  let ?x = "unat A"
  from False have "?x \<ge> 1" by (simp add: unat_gt_0 Suc_leI)
  then obtain h where low: "2 ^ h \<le> ?x" and up: "?x < 2 ^ (h + 1)"
    using ex_power_ivl1[of 2 ?x] by auto
  have h: "h < 63" by (rule power_less_imp_less_exp[OF _ le_less_trans[OF low assms]]) simp
  have "?x div 2 ^ h = 1" using low up by (simp add: div_nat_eqI)
  then have "bit ?x h" by (simp add: bit_iff_odd)
  then have bit_h: "bit A h" using bit_unsigned_iff[of A h] by blast
  have top: "m \<le> h" if "bit A m" for m
  proof (rule ccontr)
    assume "\<not> m \<le> h"
    then have "2 ^ (h + 1) \<le> (2 :: nat) ^ m" by (intro power_increasing) auto
    with up have "?x div 2 ^ m = 0" by simp
    then have "\<not> bit ?x m" by (simp add: bit_iff_odd)
    moreover have "m < 64" using bit_imp_le_length[OF that] by simp
    ultimately show False using that bit_unsigned_iff[of A m] by auto
  qed
  have "smeared A = mask (Suc h)"
  proof (rule bit_word_eqI)
    fix n assume "n < LENGTH(64)"
    show "bit (smeared A) n \<longleftrightarrow> bit (mask (Suc h) :: 64 word) n"
    proof
      assume "bit (smeared A) n"
      then obtain d where "bit A (n + d)" by (auto simp: bit_smeared)
      with top \<open>n < LENGTH(64)\<close> show "bit (mask (Suc h) :: 64 word) n" by (fastforce simp: bit_mask_iff)
    next
      assume "bit (mask (Suc h) :: 64 word) n"
      then have "n \<le> h" by (simp add: bit_mask_iff)
      with bit_h h show "bit (smeared A) n"
        by (auto simp: bit_smeared intro!: exI[of _ "h - n"])
    qed
  qed
  then have "NextPowerOf2 A = 2 ^ Suc h" by (simp add: smeared_def mask_eq_exp_minus_1)
  moreover have "unat (2 ^ Suc h :: 64 word) = 2 ^ Suc h"
  proof -
    have "(2 :: nat) ^ Suc h < 2 ^ 64" using h by (intro power_strict_increasing) auto
    from unat_small[OF this] show ?thesis by simp
  qed
  ultimately show ?thesis using low up by (intro exI[of _ "Suc h"]) simp
qed

lemma PowerOf2Ceil_power:
  assumes "0 < A" "A \<le> 2 ^ 63"
  shows "\<exists>k. PowerOf2Ceil A = 2 ^ k \<and> A \<le> 2 ^ k \<and> (\<forall>j. A \<le> 2 ^ j \<longrightarrow> k \<le> j)"
proof (cases "A = 1")
  case True
  then show ?thesis by (intro exI[of _ 0]) (simp add: PowerOf2Ceil_def NextPowerOf2_def)
next
  case False
  define m where "m = A - 1"
  have m: "0 < m" "m < 2 ^ 63" "A = m + 1" using assms False by (simp_all add: m_def)
  have u: "unat (of_nat m :: 64 word) = m"
    using m(2) by (simp add: unsigned_of_nat take_bit_nat_eq_self)
  moreover have "of_nat m \<noteq> (0 :: 64 word)" using u m(1) by (metis unsigned_0 less_irrefl)
  ultimately obtain k where k: "unat (NextPowerOf2 (of_nat m)) = 2 ^ k" "m < 2 ^ k" "2 ^ k \<le> 2 * m"
    using next_power[of "of_nat m"] m(2) by auto
  have "k \<le> j" if "A \<le> 2 ^ j" for j
  proof (rule ccontr)
    assume "\<not> k \<le> j"
    then have "2 * 2 ^ j \<le> (2 :: nat) ^ k" using power_increasing[of "Suc j" k "2 :: nat"] by simp
    with k(3) that m(3) show False by simp
  qed
  moreover have "PowerOf2Ceil A = 2 ^ k" using k(1) m(3) by (simp add: PowerOf2Ceil_def)
  ultimately show ?thesis using k(2) m(3) by (intro exI[of _ k]) simp
qed

text \<open>
  \<open>PowerOf2Ceil\<close> returns the smallest power of two that is not below its argument, for every
  positive argument up to \<open>2 ^ 63\<close>.
\<close>

theorem PowerOf2Ceil_least:
  assumes "0 < A" "A \<le> 2 ^ 63"
  shows "\<exists>k. PowerOf2Ceil A = 2 ^ k \<and> A \<le> 2 ^ k \<and> (\<forall>j. A \<le> 2 ^ j \<longrightarrow> k \<le> j)"
  by (rule PowerOf2Ceil_power[OF assms])

lemma PowerOf2Ceil_least_witness: "\<exists>k. PowerOf2Ceil 12 = 2 ^ k \<and> 12 \<le> (2 :: nat) ^ k"
  using PowerOf2Ceil_least[of 12] by auto

section \<open>Sorted tables\<close>

text \<open>
  Both tables are vectors sorted by a key, searched with \<open>std::lower_bound\<close>: position \<open>lower_bound\<close> of
  such a vector, and what the two ways to write there do.
\<close>

definition lower_bound :: "('e \<Rightarrow> 'k::linorder) \<Rightarrow> 'k \<Rightarrow> 'e list \<Rightarrow> nat" where
  "lower_bound key k es = length (takeWhile (\<lambda>e. key e < k) es)"

definition table_put :: "('e \<Rightarrow> 'k::linorder) \<Rightarrow> 'e \<Rightarrow> 'e list \<Rightarrow> 'e list" where
  "table_put key x es =
     (let I = lower_bound key (key x) es in
      if I \<noteq> length es \<and> key (es ! I) = key x then es[I := x] else insert_at I x es)"

abbreviation sorted_by :: "('e \<Rightarrow> 'k::linorder) \<Rightarrow> 'e list \<Rightarrow> bool" where
  "sorted_by key es \<equiv> sorted_wrt (<) (map key es)"

definition entry :: "('e \<Rightarrow> 'k) \<Rightarrow> 'e list \<Rightarrow> 'k \<Rightarrow> 'e option" where
  "entry key es k = find (\<lambda>e. key e = k) es"

lemma table_put_Cons:
  "table_put key x (e # es) =
     (if key e < key x then e # table_put key x es
      else if key e = key x then x # es else x # e # es)"
  by (auto simp: table_put_def lower_bound_def Let_def insert_at_def)

lemma table_put_Nil: "table_put key x [] = [x]"
  by (simp add: table_put_def lower_bound_def insert_at_def)

lemma set_table_put: "set (table_put key x es) \<subseteq> insert x (set es)"
  by (induction es) (auto simp: table_put_Cons table_put_Nil)

lemma keys_table_put: "key ` set (table_put key x es) = insert (key x) (key ` set es)"
  by (induction es) (auto simp: table_put_Cons table_put_Nil)

lemma sorted_table_put: "sorted_by key es \<Longrightarrow> sorted_by key (table_put key x es)"
proof (induction es)
  case (Cons e es)
  have "\<forall>k \<in> key ` set (table_put key x es). key e < k" if "key e < key x"
    using Cons.prems that by (auto simp: keys_table_put)
  with Cons show ?case by (auto simp: table_put_Cons)
qed (simp add: table_put_Nil)

lemma entry_table_put:
  "sorted_by key es \<Longrightarrow> entry key (table_put key x es) = (entry key es)(key x \<mapsto> x)"
proof (induction es)
  case (Cons e es)
  have "entry key es k = None" if "k \<le> key e" for k
    using Cons.prems that by (fastforce simp: entry_def find_None_iff)
  with Cons show ?case by (auto simp: table_put_Cons entry_def fun_eq_iff)
qed (auto simp: table_put_Nil entry_def fun_eq_iff)

lemma entry_at_lower_bound:
  "sorted_by key es \<Longrightarrow> entry key es k =
     (let I = lower_bound key k es in
      if I \<noteq> length es \<and> key (es ! I) = k then Some (es ! I) else None)"
proof (induction es)
  case (Cons e es)
  have none: "entry key es k = None" if "k < key e"
    using Cons.prems that by (fastforce simp: entry_def find_None_iff)
  consider "key e < k" | "key e = k" | "k < key e" by fastforce
  then show ?case
  proof cases
    case 1
    with Cons show ?thesis by (auto simp: entry_def lower_bound_def Let_def)
  next
    case 3
    then have "\<not> key e < k" "key e \<noteq> k" by auto
    with none[OF 3] show ?thesis by (simp add: entry_def lower_bound_def)
  qed (simp add: entry_def lower_bound_def)
qed (simp add: entry_def lower_bound_def)

section \<open>The tables of a data layout\<close>

definition pow2_or_0 :: "nat \<Rightarrow> bool" where
  "pow2_or_0 n \<longleftrightarrow> n = 0 \<or> isPowerOf2 n"

definition align_elem_ok :: "LayoutAlignElem \<Rightarrow> bool" where
  "align_elem_ok e \<longleftrightarrow> pow2_or_0 (ABIAlign e) \<and> pow2_or_0 (PrefAlign e) \<and> ABIAlign e \<le> PrefAlign e \<and> PrefAlign e < 2 ^ 16 \<and>
     (ABIAlign e = 0 \<longrightarrow> AlignType e = AGGREGATE_ALIGN) \<and> TypeBitWidth e < 2 ^ 24"

definition pointer_elem_ok :: "PointerAlignElem \<Rightarrow> bool" where
  "pointer_elem_ok p \<longleftrightarrow> isPowerOf2 (pABIAlign p) \<and> isPowerOf2 (pPrefAlign p) \<and>
     pABIAlign p \<le> pPrefAlign p \<and> 0 < TypeByteWidth p \<and> 0 < IndexWidth p"

definition tables_ok :: "data_layout \<Rightarrow> bool" where
  "tables_ok dl \<longleftrightarrow>
     sorted_by elem_key (Alignments dl) \<and> (\<forall>e\<in>set (Alignments dl). align_elem_ok e) \<and>
     sorted_by AddressSpace (Pointers dl) \<and> (\<forall>p\<in>set (Pointers dl). pointer_elem_ok p)"

definition has_default_space :: "data_layout \<Rightarrow> bool" where
  "has_default_space dl \<longleftrightarrow> 0 \<in> AddressSpace ` set (Pointers dl)"

lemma elem_updates:
  "e\<lparr>ABIAlign := a, PrefAlign := p\<rparr> = \<lparr>AlignType = AlignType e, TypeBitWidth = TypeBitWidth e,
     ABIAlign = a, PrefAlign = p\<rparr>"
  "q\<lparr>pABIAlign := a, pPrefAlign := p, TypeByteWidth := b, IndexWidth := i\<rparr> = \<lparr>pABIAlign = a, pPrefAlign = p,
     TypeByteWidth = b, AddressSpace = AddressSpace q, IndexWidth = i\<rparr>"
  by (cases e, simp, cases q, simp)

lemma setAlignment_put:
  "setAlignment T abi pref width dl = Some dl' \<Longrightarrow>
     dl' = dl\<lparr>Alignments := table_put elem_key \<lparr>AlignType = T, TypeBitWidth = width,
       ABIAlign = abi, PrefAlign = pref\<rparr> (Alignments dl)\<rparr> \<and>
     pow2_or_0 abi \<and> pow2_or_0 pref \<and> abi \<le> pref \<and> pref < 2 ^ 16 \<and> width < 2 ^ 24"
  by (auto simp: setAlignment_def table_put_def lower_bound_def findAlignmentLowerBound_def Let_def
      pow2_or_0_def elem_updates simp del: less_prod_simp split: if_splits)

lemma setPointerAlignment_put:
  "setPointerAlignment AS abi pref bytes index dl = Some dl' \<Longrightarrow>
     dl' = dl\<lparr>Pointers := table_put AddressSpace \<lparr>pABIAlign = abi, pPrefAlign = pref,
       TypeByteWidth = bytes, AddressSpace = AS, IndexWidth = index\<rparr> (Pointers dl)\<rparr> \<and> abi \<le> pref"
  by (auto simp: setPointerAlignment_def table_put_def lower_bound_def findPointerLowerBound_def Let_def
      elem_updates split: if_splits)


lemma tables_ok_setAlignment:
  assumes "setAlignment T abi pref width dl = Some dl'" "tables_ok dl" "abi = 0 \<longrightarrow> T = AGGREGATE_ALIGN"
  shows "tables_ok dl' \<and> Pointers dl' = Pointers dl"
proof -
  let ?e = "\<lparr>AlignType = T, TypeBitWidth = width, ABIAlign = abi, PrefAlign = pref\<rparr>"
  from setAlignment_put[OF assms(1)] have d: "dl' = dl\<lparr>Alignments := table_put elem_key ?e (Alignments dl)\<rparr>"
    and "align_elem_ok ?e" using assms(3) by (simp_all add: align_elem_ok_def)
  then show ?thesis
    using assms(2) set_table_put[of elem_key ?e "Alignments dl"] sorted_table_put[of elem_key "Alignments dl" ?e]
    by (auto simp: tables_ok_def simp del: less_prod_simp)
qed

lemma tables_ok_setPointerAlignment:
  assumes "setPointerAlignment AS abi pref bytes index dl = Some dl'" "tables_ok dl"
    "isPowerOf2 abi" "isPowerOf2 pref" "0 < bytes" "0 < index"
  shows "tables_ok dl' \<and> AddressSpace ` set (Pointers dl') = insert AS (AddressSpace ` set (Pointers dl))"
proof -
  let ?p = "\<lparr>pABIAlign = abi, pPrefAlign = pref, TypeByteWidth = bytes, AddressSpace = AS, IndexWidth = index\<rparr>"
  from setPointerAlignment_put[OF assms(1)]
  have d: "dl' = dl\<lparr>Pointers := table_put AddressSpace ?p (Pointers dl)\<rparr>" and "pointer_elem_ok ?p"
    using assms(3-6) by (simp_all add: pointer_elem_ok_def)
  then show ?thesis
    using assms(2) set_table_put[of AddressSpace ?p "Pointers dl"] keys_table_put[of AddressSpace ?p "Pointers dl"]
      sorted_table_put[of AddressSpace "Pointers dl" ?p]
    by (auto simp: tables_ok_def)
qed

definition good_tables :: "data_layout \<Rightarrow> bool" where
  "good_tables dl \<longleftrightarrow> tables_ok dl \<and> has_default_space dl"

lemma read_pointer_good:
  "read_pointer Tok Rest dl = Some dl' \<Longrightarrow> good_tables dl \<Longrightarrow> good_tables dl'"
  by (auto simp: read_pointer_def good_tables_def has_default_space_def isPowerOf2_def
      split: if_splits bind_splits dest!: tables_ok_setPointerAlignment)

lemma read_align_good:
  "read_align T Tok Rest dl = Some dl' \<Longrightarrow> good_tables dl \<Longrightarrow> good_tables dl'"
  by (auto simp: read_align_def good_tables_def has_default_space_def
      split: if_splits bind_splits dest!: tables_ok_setAlignment)

lemma good_updates [simp]:
  "good_tables (dl\<lparr>BigEndian := b\<rparr>) = good_tables dl"
  "good_tables (dl\<lparr>StackNaturalAlign := n\<rparr>) = good_tables dl"
  "good_tables (dl\<lparr>ProgramAddrSpace := n\<rparr>) = good_tables dl"
  "good_tables (dl\<lparr>AllocaAddrSpace := n\<rparr>) = good_tables dl"
  "good_tables (dl\<lparr>ManglingMode := m\<rparr>) = good_tables dl"
  "good_tables (dl\<lparr>LegalIntWidths := ns\<rparr>) = good_tables dl"
  "good_tables (dl\<lparr>NonIntegralAddressSpaces := ns\<rparr>) = good_tables dl"
  by (simp_all add: good_tables_def tables_ok_def has_default_space_def)

lemma read_ni_good: "read_ni Rest dl = Some dl' \<Longrightarrow> good_tables dl \<Longrightarrow> good_tables dl'"
proof (induction Rest dl rule: read_ni.induct)
  case (1 Rest dl)
  from 1 show ?case
    by (subst (asm) read_ni.simps[of Rest dl]) (auto simp: Let_def split: option.splits if_splits)
qed

lemma read_widths_good: "read_widths Tok Rest dl = Some dl' \<Longrightarrow> good_tables dl \<Longrightarrow> good_tables dl'"
proof (induction Tok Rest dl rule: read_widths.induct)
  case (1 Tok Rest dl)
  from 1 show ?case
    by (subst (asm) read_widths.simps[of Tok Rest dl]) (auto simp: Let_def split: option.splits if_splits)
qed

lemma read_spec_good: "read_spec Tok Rest dl = Some dl' \<Longrightarrow> good_tables dl \<Longrightarrow> good_tables dl'"
  by (auto simp: read_spec_def read_mangling_def Let_def split: if_splits bind_splits option.splits
      dest: read_ni_good read_widths_good read_pointer_good read_align_good)

lemma parseSpecifier_good: "parseSpecifier Desc dl = Some dl' \<Longrightarrow> good_tables dl \<Longrightarrow> good_tables dl'"
proof (induction Desc dl rule: parseSpecifier.induct)
  case (1 Desc dl)
  show ?case
  proof (cases "Desc = []")
    case True
    with "1.prems" show ?thesis by (simp add: parseSpecifier.simps)
  next
    case False
    with "1.prems"(1) obtain piece Desc' Tok Rest d where
      p: "checked_split Desc CHR ''-'' = Some (piece, Desc')" "checked_split piece CHR '':'' = Some (Tok, Rest)"
      and d: "read_spec Tok Rest dl = Some d" "parseSpecifier Desc' d = Some dl'"
      by (subst (asm) parseSpecifier.simps) (auto split: option.splits)
    from read_spec_good[OF d(1) "1.prems"(2)] have "good_tables d" .
    from "1.IH"[OF False p(1) refl p(2) refl d(1) d(2) this] show ?thesis .
  qed
qed

lemma defaults_good:
  "fold (\<lambda>(T, width, abi, pref) r. do { dl \<leftarrow> r; setAlignment T abi pref width dl }) ts r = Some dl' \<Longrightarrow>
     \<forall>(T, width, abi, pref)\<in>set ts. abi = 0 \<longrightarrow> T = AGGREGATE_ALIGN \<Longrightarrow>
     (\<And>dl. r = Some dl \<Longrightarrow> tables_ok dl) \<Longrightarrow> tables_ok dl'"
proof (induction ts arbitrary: r)
  case (Cons t ts)
  obtain T w a p where t: "t = (T, w, a, p)" by (cases t) auto
  show ?case
  proof (rule Cons.IH)
    show "fold (\<lambda>(T, width, abi, pref) r. do { dl \<leftarrow> r; setAlignment T abi pref width dl }) ts
        (do { dl \<leftarrow> r; setAlignment T a p w dl }) = Some dl'"
      using Cons.prems(1) by (simp add: t)
    show "tables_ok dl" if "do { dl \<leftarrow> r; setAlignment T a p w dl } = Some dl" for dl
      using that Cons.prems(2,3) by (auto simp: t bind_eq_Some_conv dest!: tables_ok_setAlignment)
  qed (use Cons.prems(2) in simp)
qed simp

lemma good_of_reset:
  assumes "reset Desc = Some dl"
  shows "good_tables dl"
proof -
  from assms obtain d0 d1 where
    d0: "fold (\<lambda>(T, width, abi, pref) r. do { dl \<leftarrow> r; setAlignment T abi pref width dl })
       DefaultAlignments
       (Some \<lparr>BigEndian = False, AllocaAddrSpace = 0, StackNaturalAlign = 0, ProgramAddrSpace = 0,
          ManglingMode = MM_None, LegalIntWidths = [], NonIntegralAddressSpaces = [],
          Alignments = [], Pointers = []\<rparr>) = Some d0"
    and d1: "setPointerAlignment 0 8 8 8 8 d0 = Some d1" and dl: "parseSpecifier Desc d1 = Some dl"
    by (auto simp: reset_def bind_eq_Some_conv)
  have "tables_ok d0"
    by (rule defaults_good[OF d0]) (auto simp: DefaultAlignments_def tables_ok_def)
  moreover have "isPowerOf2 8" by (simp add: isPowerOf2_def)
  ultimately have "good_tables d1"
    using tables_ok_setPointerAlignment[OF d1] by (simp add: good_tables_def has_default_space_def)
  then show ?thesis by (rule parseSpecifier_good[OF dl])
qed

text \<open>
  C20: Whatever description a target gives, when it is accepted the alignment table and the pointer
  table are sorted without repeated keys, every alignment is a power of two with the ABI alignment not above
  the preferred one (and those of types below \<open>2 ^ 16\<close>), only aggregates may have none, and address space 0 is described.
\<close>

theorem reset_good_tables:
  assumes "reset Desc = Some dl"
  shows "good_tables dl"
  by (rule good_of_reset[OF assms])

section \<open>Structures\<close>

lemma and_double:
  fixes u w :: nat
  shows "2 * u AND (2 * w + 1) = 2 * (u AND w)" "2 * u + 1 AND 2 * w = 2 * (u AND w)"
  by (subst and_rec, simp)+

lemma isPowerOf2_exp: "isPowerOf2 v \<Longrightarrow> \<exists>k. v = 2 ^ k"
proof (induction v rule: less_induct)
  case (less v)
  show ?case
  proof (cases "even v")
    case True
    then obtain u where u: "v = 2 * u" by blast
    with less.prems have "u \<noteq> 0" by (auto simp: isPowerOf2_def)
    then have "v - 1 = 2 * (u - 1) + 1" using u by simp
    with less.prems u have "u AND (u - 1) = 0"
      using and_double(1)[of u "u - 1"] by (simp add: isPowerOf2_def del: and_zero_eq)
    with \<open>u \<noteq> 0\<close> less.IH[of u] u obtain k where "u = 2 ^ k" by (auto simp: isPowerOf2_def)
    with u have "v = 2 ^ Suc k" by simp
    then show ?thesis by blast
  next
    case False
    then obtain u where u: "v = 2 * u + 1" by (auto elim: oddE)
    with less.prems have "2 * (u AND u) = 0"
      using and_double(2)[of u u] by (simp add: isPowerOf2_def)
    with u have "v = 2 ^ 0" by simp
    then show ?thesis by blast
  qed
qed

lemma and_mask_mod: "isPowerOf2 a \<Longrightarrow> (x :: nat) AND (a - 1) = x mod a"
  by (metis isPowerOf2_exp mask_eq_exp_minus_1 take_bit_eq_mask take_bit_eq_mod)

text \<open>Rounding up, where it does not wrap around.\<close>

lemma alignTo_props:
  assumes "0 < a"
  shows "a dvd alignTo x a" "x + a \<le> 2 ^ 64 \<Longrightarrow> x \<le> alignTo x a" "alignTo x a < x + a"
proof -
  show "a dvd alignTo x a" by (simp add: alignTo_def)
  have "wrap64 (x + a - 1) div a * a \<le> wrap64 (x + a - 1)" by simp
  also have "\<dots> \<le> x + a - 1" by (rule mod_less_eq_dividend)
  finally show "alignTo x a < x + a" using assms unfolding alignTo_def by linarith
  assume "x + a \<le> 2 ^ 64"
  then have w: "wrap64 (x + a - 1) = x + a - 1" using assms by (intro mod_less) linarith
  have "(x + a - 1) div a * a + (x + a - 1) mod a = x + a - 1" by simp
  moreover have "(x + a - 1) mod a < a" using assms by simp
  ultimately show "x \<le> alignTo x a" using assms unfolding alignTo_def w by linarith
qed

lemma alignTo_dvd:
  assumes "0 < a" "a dvd x" "x < 2 ^ 63" "a \<le> 2 ^ 63"
  shows "alignTo x a = x"
proof -
  have le: "x + a \<le> 2 ^ 64" using assms(3,4) by simp
  note p = alignTo_props(1)[OF assms(1), of x] alignTo_props(2)[OF assms(1) le] alignTo_props(3)[OF assms(1), of x]
  then have "a dvd alignTo x a - x" using assms(2) by (intro dvd_diff_nat)
  moreover have "alignTo x a - x < a" using p by linarith
  ultimately have "alignTo x a - x = 0" using nat_dvd_not_less by auto
  with p(2) show ?thesis by simp
qed

lemma isPowerOf2_pos: "isPowerOf2 a \<Longrightarrow> 0 < a"
  by (simp add: isPowerOf2_def)

lemma place_one_offset:
  assumes "isPowerOf2 a" "StructSize L + a + s < 2 ^ 63"
  shows "place_one a s L = \<lparr>StructSize = alignTo (StructSize L) a + s,
     StructAlignment = max a (StructAlignment L),
     IsPadded = IsPadded L \<or> \<not> a dvd StructSize L, MemberOffsets = MemberOffsets L @ [alignTo (StructSize L) a]\<rparr>"
proof -
  note a = isPowerOf2_pos[OF assms(1)]
  have pad: "StructSize L AND (a - 1) \<noteq> 0 \<longleftrightarrow> \<not> a dvd StructSize L"
    unfolding and_mask_mod[OF assms(1)] by (simp add: mod_eq_0_iff_dvd)
  have "StructSize L < 2 ^ 63" "a \<le> 2 ^ 63" using assms(2) by linarith+
  then have same: "a dvd StructSize L \<Longrightarrow> alignTo (StructSize L) a = StructSize L" using alignTo_dvd[OF a] by blast
  have "alignTo (StructSize L) a + s < 2 ^ 63" using alignTo_props(3)[OF a, of "StructSize L"] assms(2) by linarith
  then have "wrap64 (alignTo (StructSize L) a + s) = alignTo (StructSize L) a + s" by (intro mod_less) simp
  then show ?thesis using pad same by (auto simp: place_one_def Let_def)
qed

lemma powers_dvd: "isPowerOf2 a \<Longrightarrow> isPowerOf2 b \<Longrightarrow> a \<le> b \<Longrightarrow> a dvd b"
  by (auto dest!: isPowerOf2_exp simp: le_imp_power_dvd)

text \<open>The elements placed so far, as pairs of alignment and size.\<close>

definition placed :: "(nat \<times> nat) list \<Rightarrow> StructLayout \<Rightarrow> bool" where
  "placed ps L \<longleftrightarrow> length (MemberOffsets L) = length ps \<and>
     sorted_wrt (\<lambda>(x, a, s) (x', a', s'). x + s \<le> x') (zip (MemberOffsets L) ps) \<and>
     (\<forall>(x, a, s)\<in>set (zip (MemberOffsets L) ps).
        a dvd x \<and> a \<le> StructAlignment L \<and> isPowerOf2 a \<and> x + s \<le> StructSize L) \<and>
     (StructAlignment L = 0 \<or> isPowerOf2 (StructAlignment L))"

lemma placed_one:
  assumes "placed ps L" "isPowerOf2 a" "StructSize L + a + s < 2 ^ 63"
  shows "placed (ps @ [(a, s)]) (place_one a s L)" "StructSize (place_one a s L) \<le> StructSize L + a + s"
proof -
  have le: "StructSize L + a \<le> 2 ^ 64" using assms(3) by simp
  note a = alignTo_props(1)[OF isPowerOf2_pos[OF assms(2)], of "StructSize L"]
    alignTo_props(2)[OF isPowerOf2_pos[OF assms(2)] le] alignTo_props(3)[OF isPowerOf2_pos[OF assms(2)], of "StructSize L"]
  show "StructSize (place_one a s L) \<le> StructSize L + a + s"
    using a(3) unfolding place_one_offset[OF assms(2,3)] by simp
  have len: "length (MemberOffsets L) = length ps"
    and below: "\<And>x b t. (x, b, t) \<in> set (zip (MemberOffsets L) ps) \<Longrightarrow>
      b dvd x \<and> b \<le> StructAlignment L \<and> isPowerOf2 b \<and> x + t \<le> StructSize L"
    and al: "StructAlignment L = 0 \<or> isPowerOf2 (StructAlignment L)"
    and sorted: "sorted_wrt (\<lambda>(x, a, s) (x', a', s'). x + s \<le> x') (zip (MemberOffsets L) ps)"
    using assms(1) by (auto simp: placed_def)
  have *: "b dvd x \<and> b \<le> max a (StructAlignment L) \<and> isPowerOf2 b \<and> x + t \<le> alignTo (StructSize L) a + s"
    if "(x, b, t) \<in> set (zip (MemberOffsets L) ps)" for x b t
    using below[OF that] a(2) by (simp add: le_max_iff_disj)
  have **: "x + t \<le> alignTo (StructSize L) a" if "(x, b, t) \<in> set (zip (MemberOffsets L) ps)" for x b t
    using below[OF that] a(2) by simp
  have "isPowerOf2 (max a (StructAlignment L))" using al assms(2) by (auto simp: max_def)
  then show "placed (ps @ [(a, s)]) (place_one a s L)"
    using len sorted a(1) assms(2) * **
    unfolding placed_def place_one_offset[OF assms(2,3)]
    by (force simp: sorted_wrt_append simp del: max.absorb1 max.absorb2)
qed

text \<open>What the elements of a structure take at most: their sizes and, for padding, their alignments.\<close>

definition element_space :: "data_layout \<Rightarrow> bool \<Rightarrow> ir_type list \<Rightarrow> nat" where
  "element_space dl packed Tys =
     (\<Sum>Ty\<leftarrow>Tys. (if packed then 1 else getABITypeAlignment dl Ty) + getTypeAllocSize dl Ty)"

lemma place_elements_Cons:
  "place_elements dl packed (Ty # Tys) L = place_elements dl packed Tys
     (place_one (if packed then 1 else getABITypeAlignment dl Ty) (getTypeAllocSize dl Ty) L)"
  by (simp add: getABITypeAlignment_def getTypeAllocSize_def)

lemma placed_elements:
  assumes "placed ps L" "packed \<or> (\<forall>Ty\<in>set Tys. isPowerOf2 (getABITypeAlignment dl Ty))"
    "StructSize L + element_space dl packed Tys < 2 ^ 63"
  shows "placed (ps @ map (\<lambda>Ty. (if packed then 1 else getABITypeAlignment dl Ty, getTypeAllocSize dl Ty)) Tys)
     (place_elements dl packed Tys L) \<and>
     StructSize (place_elements dl packed Tys L) \<le> StructSize L + element_space dl packed Tys"
  using assms
proof (induction Tys arbitrary: ps L)
  case (Cons Ty Tys)
  let ?a = "if packed then 1 else getABITypeAlignment dl Ty" and ?s = "getTypeAllocSize dl Ty"
  have a: "isPowerOf2 ?a" using Cons.prems(2) by (auto simp: isPowerOf2_def)
  have space: "element_space dl packed (Ty # Tys) = ?a + ?s + element_space dl packed Tys" by (simp add: element_space_def)
  with Cons.prems(3) have small: "StructSize L + ?a + ?s < 2 ^ 63" by linarith
  note one = placed_one[OF Cons.prems(1) a small]
  have "StructSize (place_one ?a ?s L) + element_space dl packed Tys < 2 ^ 63"
    using one(2) Cons.prems(3) space by linarith
  moreover have "packed \<or> (\<forall>Ty\<in>set Tys. isPowerOf2 (getABITypeAlignment dl Ty))" using Cons.prems(2) by auto
  ultimately show ?case
    using Cons.IH[OF one(1)] one(2) space unfolding place_elements_Cons by simp
qed (simp add: element_space_def)

text \<open>The alignment of a structure, whether its size wraps around or not.\<close>

lemma elements_alignment:
  "StructAlignment (place_elements dl packed Tys L) =
     foldl (\<lambda>m Ty. max (if packed then 1 else getABITypeAlignment dl Ty) m) (StructAlignment L) Tys"
proof (induction Tys arbitrary: L)
  case (Cons Ty Tys)
  then show ?case unfolding place_elements_Cons by (simp add: place_one_def Let_def)
qed simp

lemma foldl_max:
  assumes "P (m :: nat)" "\<forall>x\<in>set xs. P (f x)"
  shows "P (foldl (\<lambda>m x. max (f x) m) m xs)"
  using assms by (induction xs arbitrary: m) (simp_all add: max_def)

lemma finish_alignment:
  "StructAlignment (finish_layout L) = (if StructAlignment L = 0 then 1 else StructAlignment L)"
  by (simp add: finish_layout_def Let_def)

lemma struct_alignment:
  assumes "packed \<or> (\<forall>Ty\<in>set Tys. isPowerOf2 (getABITypeAlignment dl Ty))"
  shows "isPowerOf2 (StructAlignment (finish_layout (place_elements dl packed Tys start_layout)))"
    "StructAlignment (finish_layout (place_elements dl packed Tys start_layout)) \<le> max 1 (element_space dl packed Tys)"
proof -
  let ?f = "\<lambda>Ty. if packed then 1 else getABITypeAlignment dl Ty"
  have one: "isPowerOf2 1" by (simp add: isPowerOf2_def)
  have "(\<lambda>n. n = 0 \<or> isPowerOf2 n) (foldl (\<lambda>m Ty. max (?f Ty) m) 0 Tys)"
    by (rule foldl_max) (use assms one in auto)
  then show "isPowerOf2 (StructAlignment (finish_layout (place_elements dl packed Tys start_layout)))"
    unfolding finish_alignment elements_alignment using one by (auto simp: start_layout_def)
  have "?f Ty \<le> element_space dl packed Tys" if "Ty \<in> set Tys" for Ty
  proof -
    have "?f Ty + getTypeAllocSize dl Ty \<in> set (map (\<lambda>Ty. ?f Ty + getTypeAllocSize dl Ty) Tys)" using that by simp
    from member_le_sum_list[OF this] show ?thesis unfolding element_space_def by linarith
  qed
  then have "\<forall>Ty\<in>set Tys. ?f Ty \<le> element_space dl packed Tys" by blast
  from foldl_max[where P = "\<lambda>n. n \<le> element_space dl packed Tys", OF le0 this]
  have "foldl (\<lambda>m Ty. max (?f Ty) m) 0 Tys \<le> element_space dl packed Tys" .
  then show "StructAlignment (finish_layout (place_elements dl packed Tys start_layout)) \<le> max 1 (element_space dl packed Tys)"
    unfolding finish_alignment elements_alignment start_layout_def StructLayout.simps by (simp split: if_split)
qed

lemma finish_layout_props:
  assumes "placed ps L" "StructSize L < 2 ^ 63" "StructAlignment L \<le> 2 ^ 63"
  shows "MemberOffsets (finish_layout L) = MemberOffsets L" "StructSize L \<le> StructSize (finish_layout L)"
    "StructAlignment (finish_layout L) dvd StructSize (finish_layout L)"
    "StructAlignment L \<le> StructAlignment (finish_layout L)" "isPowerOf2 (StructAlignment (finish_layout L))"
proof -
  let ?a = "if StructAlignment L = 0 then 1 else StructAlignment L"
  have a: "isPowerOf2 ?a" using assms(1) by (auto simp: placed_def isPowerOf2_def)
  have le: "StructSize L + ?a \<le> 2 ^ 64" using assms(2,3) by simp
  have pad: "StructSize L AND (?a - 1) \<noteq> 0 \<longleftrightarrow> \<not> ?a dvd StructSize L"
    unfolding and_mask_mod[OF a] by (simp add: mod_eq_0_iff_dvd)
  have f: "finish_layout L = L\<lparr>StructAlignment := ?a, IsPadded := IsPadded L \<or> \<not> ?a dvd StructSize L,
      StructSize := (if \<not> ?a dvd StructSize L then alignTo (StructSize L) ?a else StructSize L)\<rparr>"
    unfolding finish_layout_def Let_def pad by (rule refl)
  show "MemberOffsets (finish_layout L) = MemberOffsets L" "StructSize L \<le> StructSize (finish_layout L)"
    "StructAlignment (finish_layout L) dvd StructSize (finish_layout L)"
    "StructAlignment L \<le> StructAlignment (finish_layout L)" "isPowerOf2 (StructAlignment (finish_layout L))"
    using a alignTo_props(1)[OF isPowerOf2_pos[OF a], of "StructSize L"] alignTo_props(2)[OF isPowerOf2_pos[OF a] le]
    unfolding f by (simp_all split del: if_split split: if_split)
qed

lemma sum_layout:
  assumes "isPacked ST \<or> (\<forall>Ty\<in>set Tys. isPowerOf2 (getABITypeAlignment dl Ty))"
    "element_space dl (isPacked ST) Tys < 2 ^ 63"
  defines "L \<equiv> getStructLayout dl ST Tys" and "al \<equiv> \<lambda>Ty. if isPacked ST then 1 else getABITypeAlignment dl Ty"
  shows "length (MemberOffsets L) = length Tys"
    "StructAlignment L dvd StructSize L"
    "\<And>i. i < length Tys \<Longrightarrow> al (Tys ! i) dvd getElementOffset L i \<and> al (Tys ! i) dvd StructAlignment L \<and>
       getElementOffset L i + getTypeAllocSize dl (Tys ! i) \<le> StructSize L"
    "\<And>i j. i < j \<Longrightarrow> j < length Tys \<Longrightarrow>
       getElementOffset L i + getTypeAllocSize dl (Tys ! i) \<le> getElementOffset L j"
    "StructSize L \<le> 2 * element_space dl (isPacked ST) Tys + 1"
proof -
  let ?ps = "map (\<lambda>Ty. (al Ty, getTypeAllocSize dl Ty)) Tys"
  let ?P = "place_elements dl (isPacked ST) Tys start_layout"
  have "placed [] start_layout" by (simp add: placed_def start_layout_def)
  from placed_elements[OF this assms(1)] assms(2)
  have P: "placed ?ps ?P" and size: "StructSize ?P \<le> element_space dl (isPacked ST) Tys"
    by (simp_all add: al_def start_layout_def)
  note bound = struct_alignment(2)[OF assms(1)]
  have "StructAlignment ?P \<le> StructAlignment (finish_layout ?P)" by (simp add: finish_alignment)
  then have "StructSize ?P < 2 ^ 63" "StructAlignment ?P \<le> 2 ^ 63" using size bound assms(2) by auto
  note f = finish_layout_props[OF P this]
  have L: "L = finish_layout ?P" by (simp add: L_def getStructLayout_def)
  have "StructSize (finish_layout ?P) \<le> StructSize ?P + StructAlignment (finish_layout ?P)"
    using alignTo_props(3)[OF isPowerOf2_pos[OF f(5)], of "StructSize ?P"] by (simp add: finish_layout_def Let_def)
  then show "StructSize L \<le> 2 * element_space dl (isPacked ST) Tys + 1" using size bound by (simp add: L)
  have len: "length (MemberOffsets ?P) = length Tys" using P by (simp add: placed_def)
  then show "length (MemberOffsets L) = length Tys" by (simp add: L f(1))
  show "StructAlignment L dvd StructSize L" using f(3) by (simp add: L)
  show "al (Tys ! i) dvd getElementOffset L i \<and> al (Tys ! i) dvd StructAlignment L \<and>
       getElementOffset L i + getTypeAllocSize dl (Tys ! i) \<le> StructSize L" if i: "i < length Tys" for i
  proof -
    have "(MemberOffsets ?P ! i, ?ps ! i) \<in> set (zip (MemberOffsets ?P) ?ps)"
      using i len by (auto simp: set_zip)
    with P i have "al (Tys ! i) dvd MemberOffsets ?P ! i" "al (Tys ! i) \<le> StructAlignment ?P"
      "isPowerOf2 (al (Tys ! i))" "MemberOffsets ?P ! i + getTypeAllocSize dl (Tys ! i) \<le> StructSize ?P"
      by (fastforce simp: placed_def)+
    with f show ?thesis using powers_dvd[of "al (Tys ! i)" "StructAlignment (finish_layout ?P)"]
      by (simp add: L getElementOffset_def)
  qed
  show "getElementOffset L i + getTypeAllocSize dl (Tys ! i) \<le> getElementOffset L j"
    if ij: "i < j" "j < length Tys" for i j
  proof -
    have "sorted_wrt (\<lambda>(x, a, s) (x', a', s'). x + s \<le> x') (zip (MemberOffsets ?P) ?ps)"
      using P by (simp add: placed_def)
    from sorted_wrt_nth_less[OF this ij(1)] ij len show ?thesis
      by (simp add: L f(1) getElementOffset_def)
  qed
qed

text \<open>
  Types LLVM can lay out: widths and vector sizes are in the ranges it admits, so that every alignment is a power of
  two in a good data layout, and no size comes near \<open>2 ^ 64\<close> bits.
\<close>

fun ordinary :: "data_layout \<Rightarrow> ir_type \<Rightarrow> bool" where
  "ordinary dl (IntegerTy w) \<longleftrightarrow> 0 < w \<and> w < 2 ^ 24"
| "ordinary dl (VectorTy n Ty) \<longleftrightarrow> ordinary dl Ty \<and> 0 < getTypeAllocSize dl Ty * n \<and> getTypeAllocSize dl Ty * n \<le> 2 ^ 31"
| "ordinary dl (ArrayTy n Ty) \<longleftrightarrow> ordinary dl Ty \<and> n * getTypeAllocSize dl Ty < 2 ^ 59"
| "ordinary dl (StructTy ST Tys) \<longleftrightarrow> (\<forall>Ty\<in>set Tys. ordinary dl Ty) \<and> element_space dl (isPacked ST) Tys < 2 ^ 59"
| "ordinary dl _ \<longleftrightarrow> True"

lemma isPowerOf2_power: "isPowerOf2 (2 ^ k)"
proof -
  have "(2 :: nat) ^ k AND (2 ^ k - 1) = 2 ^ k mod 2 ^ k"
    by (metis mask_eq_exp_minus_1 take_bit_eq_mask take_bit_eq_mod)
  then show ?thesis by (simp add: isPowerOf2_def)
qed

lemma fallback_alignment:
  assumes "x < 2 ^ 32"
  shows "pow2_or_0 (PowerOf2Ceil x mod 2 ^ 32)" "0 < x \<Longrightarrow> x \<le> 2 ^ 31 \<Longrightarrow> isPowerOf2 (PowerOf2Ceil x mod 2 ^ 32)"
proof -
  have *: "isPowerOf2 (PowerOf2Ceil x mod 2 ^ 32) \<or> x > 2 ^ 31 \<and> PowerOf2Ceil x mod 2 ^ 32 = 0" if "0 < x"
  proof -
    have "x \<le> 2 ^ 63" using assms by simp
    from PowerOf2Ceil_power[OF that this] obtain k where
      k: "PowerOf2Ceil x = 2 ^ k" "x \<le> 2 ^ k" "\<And>j. x \<le> 2 ^ j \<Longrightarrow> k \<le> j" by blast
    have "k \<le> 32" using assms by (intro k(3)) simp
    show ?thesis
    proof (cases "k = 32")
      case True
      then have "\<not> x \<le> 2 ^ 31" using k(3)[of 31] by auto
      with k(1) True show ?thesis by simp
    next
      case False
      with \<open>k \<le> 32\<close> have "(2 :: nat) ^ k < 2 ^ 32" by (intro power_strict_increasing) auto
      with k(1) show ?thesis by (simp only: mod_less isPowerOf2_power simp_thms)
    qed
  qed
  show "pow2_or_0 (PowerOf2Ceil x mod 2 ^ 32)"
    using * by (cases "x = 0") (auto simp: pow2_or_0_def PowerOf2Ceil_def)
  show "0 < x \<Longrightarrow> x \<le> 2 ^ 31 \<Longrightarrow> isPowerOf2 (PowerOf2Ceil x mod 2 ^ 32)" using * by auto
qed

definition fallback_size :: "data_layout \<Rightarrow> AlignTypeEnum \<Rightarrow> ir_type \<Rightarrow> nat" where
  "fallback_size dl T Ty =
     (case (T, Ty) of
        (VECTOR_ALIGN, VectorTy n ElTy) \<Rightarrow> getTypeAllocSize dl ElTy mod 2 ^ 32 * n mod 2 ^ 32
      | _ \<Rightarrow> getTypeStoreSize dl Ty mod 2 ^ 32)"

lemma getAlignmentInfo_cases:
  assumes "tables_ok dl"
  shows "(\<exists>e\<in>set (Alignments dl). AlignType e = T \<and> getAlignmentInfo dl T w True Ty = ABIAlign e) \<or>
    getAlignmentInfo dl T w True Ty = PowerOf2Ceil (fallback_size dl T Ty) mod 2 ^ 32"
proof -
  let ?es = "Alignments dl" and ?I = "findAlignmentLowerBound dl T w"
  have "?I \<le> length ?es" by (simp add: findAlignmentLowerBound_def length_takeWhile_le)
  then have 1: "?I \<noteq> length ?es \<Longrightarrow> ?es ! ?I \<in> set ?es" and 2: "?I \<noteq> 0 \<Longrightarrow> ?es ! (?I - 1) \<in> set ?es"
    by auto
  have fb: "(case (T, Ty) of
             (VECTOR_ALIGN, VectorTy n ElTy) \<Rightarrow>
               PowerOf2Ceil
                 (alloc_size (getTypeSizeInBits dl ElTy) (getAlignment dl ElTy True) mod 2 ^ 32 * n
                    mod 2 ^ 32) mod 2 ^ 32
           | _ \<Rightarrow> PowerOf2Ceil (store_size (getTypeSizeInBits dl Ty) mod 2 ^ 32) mod 2 ^ 32)
     = PowerOf2Ceil (fallback_size dl T Ty) mod 2 ^ 32"
    by (simp add: fallback_size_def getTypeAllocSize_def getABITypeAlignment_def getTypeStoreSize_def
        split: AlignTypeEnum.split ir_type.split)
  show ?thesis
    unfolding getAlignmentInfo.simps[of dl T w True Ty] fb Let_def
    using 1 2 by auto
qed

lemma info_power:
  assumes "tables_ok dl" "T \<noteq> AGGREGATE_ALIGN" "0 < fallback_size dl T Ty" "fallback_size dl T Ty \<le> 2 ^ 31"
  shows "isPowerOf2 (getAlignmentInfo dl T w True Ty)"
  using getAlignmentInfo_cases[OF assms(1), of T w Ty]
proof
  assume "\<exists>e\<in>set (Alignments dl). AlignType e = T \<and> getAlignmentInfo dl T w True Ty = ABIAlign e"
  then obtain e where e: "e \<in> set (Alignments dl)" "AlignType e = T"
    "getAlignmentInfo dl T w True Ty = ABIAlign e" by blast
  then have "align_elem_ok e" using assms(1) by (simp add: tables_ok_def)
  with e assms(2) show ?thesis by (auto simp: align_elem_ok_def pow2_or_0_def)
next
  assume "getAlignmentInfo dl T w True Ty = PowerOf2Ceil (fallback_size dl T Ty) mod 2 ^ 32"
  with fallback_alignment(2)[OF _ assms(3,4)] assms(4) show ?thesis by simp
qed

lemma info_aggregate:
  assumes "tables_ok dl"
  shows "pow2_or_0 (getAlignmentInfo dl AGGREGATE_ALIGN w True Ty)"
  using getAlignmentInfo_cases[OF assms, of AGGREGATE_ALIGN w Ty]
proof
  assume "\<exists>e\<in>set (Alignments dl). AlignType e = AGGREGATE_ALIGN \<and>
    getAlignmentInfo dl AGGREGATE_ALIGN w True Ty = ABIAlign e"
  then obtain e where e: "e \<in> set (Alignments dl)"
    "getAlignmentInfo dl AGGREGATE_ALIGN w True Ty = ABIAlign e" by blast
  then have "align_elem_ok e" using assms by (simp add: tables_ok_def)
  with e show ?thesis by (simp add: align_elem_ok_def)
next
  assume "getAlignmentInfo dl AGGREGATE_ALIGN w True Ty = PowerOf2Ceil (fallback_size dl AGGREGATE_ALIGN Ty) mod 2 ^ 32"
  moreover have "fallback_size dl AGGREGATE_ALIGN Ty < 2 ^ 32" by (simp add: fallback_size_def)
  ultimately show ?thesis using fallback_alignment(1) by simp
qed

lemma pointer_power:
  assumes "good_tables dl"
  shows "isPowerOf2 (getPointerABIAlignment dl AS)"
proof -
  let ?ps = "Pointers dl"
  have sorted: "sorted_by AddressSpace ?ps" and ok: "\<forall>p\<in>set ?ps. pointer_elem_ok p"
    using assms by (simp_all add: good_tables_def tables_ok_def)
  have key: "findPointerLowerBound dl k = lower_bound AddressSpace k ?ps" for k
    by (simp add: findPointerLowerBound_def lower_bound_def)
  have le: "findPointerLowerBound dl k \<le> length ?ps" for k
    by (simp add: findPointerLowerBound_def length_takeWhile_le)
  have "findPointerLowerBound dl 0 = 0" by (cases ?ps) (simp_all add: findPointerLowerBound_def)
  moreover have "?ps \<noteq> []" using assms by (auto simp: good_tables_def has_default_space_def)
  ultimately have "pointer_entry dl AS \<in> set ?ps"
    using le[of AS] by (auto simp: pointer_entry_def Let_def)
  with ok show ?thesis by (auto simp: getPointerABIAlignment_def pointer_elem_ok_def)
qed

lemma ordinary_power:
  assumes "good_tables dl"
  shows "ordinary dl Ty \<Longrightarrow> isPowerOf2 (getABITypeAlignment dl Ty)"
proof (induction Ty)
  case (IntegerTy w)
  then show ?case using assms
    by (auto simp: getABITypeAlignment_def getAlignment.simps fallback_size_def getTypeStoreSize_def
        getTypeSizeInBits.simps store_size_def good_tables_def intro!: info_power)
next
  case (StructTy ST Tys)
  let ?P = "place_elements dl (isPacked ST) Tys start_layout"
  from StructTy have el: "isPacked ST \<or> (\<forall>Ty\<in>set Tys. isPowerOf2 (getABITypeAlignment dl Ty))" by simp
  have "isPowerOf2 (StructAlignment (finish_layout ?P))" by (rule struct_alignment(1)[OF el])
  moreover have "pow2_or_0 (getAlignmentInfo dl AGGREGATE_ALIGN 0 True (StructTy ST Tys))"
    using assms by (simp add: info_aggregate good_tables_def)
  ultimately show ?case
    by (auto simp: getABITypeAlignment_def getAlignment.simps[of dl "StructTy ST Tys"] pow2_or_0_def max_def
        isPowerOf2_def)
next
  case (VectorTy n Ty)
  then have n: "0 < getTypeAllocSize dl Ty * n" "getTypeAllocSize dl Ty * n \<le> 2 ^ 31" by simp_all
  then have "fallback_size dl VECTOR_ALIGN (VectorTy n Ty) = getTypeAllocSize dl Ty * n"
    by (simp add: fallback_size_def mod_mult_left_eq)
  with n assms show ?case
    by (auto simp: getABITypeAlignment_def getAlignment.simps[of dl "VectorTy n Ty"] good_tables_def
        simp del: nat_0_less_mult_iff intro!: info_power)
next
  case (PointerTy AS)
  show ?case using pointer_power[OF assms] by (simp add: getABITypeAlignment_def getAlignment.simps)
next
  case LabelTy
  show ?case using pointer_power[OF assms] by (simp add: getABITypeAlignment_def getAlignment.simps)
next
  case (ArrayTy n Ty)
  then show ?case by (simp add: getABITypeAlignment_def getAlignment.simps[of dl "ArrayTy n Ty"])
qed (use assms in \<open>auto simp: getABITypeAlignment_def getAlignment.simps fallback_size_def getTypeStoreSize_def
      getTypeSizeInBits.simps store_size_def good_tables_def intro!: info_power\<close>)


definition small_layout :: string where
  "small_layout = ''e-i64:64''"

lemma small_accepted: "reset small_layout \<noteq> None"
  by code_simp

lemma small_good: "\<exists>dl. reset small_layout = Some dl \<and> good_tables dl"
proof -
  obtain dl where "reset small_layout = Some dl" using small_accepted by auto
  then show ?thesis using good_of_reset by blast
qed

lemma small_space:
  "case reset small_layout of None \<Rightarrow> False | Some dl \<Rightarrow> element_space dl False [IntegerTy 8, PointerTy 0] < 2 ^ 63"
  by code_simp


lemma reset_good_tables_witness: "\<exists>dl. reset small_layout = Some dl \<and> good_tables dl"
proof -
  obtain dl where "reset small_layout = Some dl" using small_accepted by auto
  from reset_good_tables[OF this] this show ?thesis by blast
qed

end
