(* ===== verification/TypeNames.thy ===== *)
theory TypeNames
  imports Bitype_Prelude "HOL-Library.Sublist"
begin

text \<open>
  How the passes get from the name of an LLVM type back to the name of a class:
  \<open>removeTargetStr\<close>, \<open>removeTargetNum\<close>, \<open>syncTypeName\<close> and \<open>syncModuleName\<close> of
  \<open>lib/Transforms/Utils/BitypeUtil.cpp\<close>.
\<close>

section \<open>The functions\<close>

text \<open>\<open>std::string::find\<close>: the first occurrence, \<open>None\<close> for \<open>npos\<close>.\<close>

fun find_str :: "string \<Rightarrow> string \<Rightarrow> nat option" where
  "find_str p [] = (if p = [] then Some 0 else None)"
| "find_str p (c # s) =
     (if take (length p) (c # s) = p then Some 0 else map_option Suc (find_str p s))"

lemma find_str_Some:
  "find_str p s = Some i \<Longrightarrow> i + length p \<le> length s \<and> s = take i s @ p @ drop (i + length p) s"
proof (induction s arbitrary: i)
  case (Cons c s)
  show ?case
  proof (cases "take (length p) (c # s) = p")
    case True
    with Cons.prems have i: "i = 0" by simp
    from True have "length (take (length p) (c # s)) = length p" by simp
    then have "length p \<le> length (c # s)" by simp
    with True i show ?thesis by (metis append_Nil append_take_drop_id plus_nat.add_0 take0)
  next
    case False
    with Cons.prems obtain j where "find_str p s = Some j" "i = Suc j" by auto
    with Cons.IH[of j] show ?thesis by simp
  qed
qed (simp split: if_splits)

lemma find_str_None: "find_str p s = None \<longleftrightarrow> \<not> sublist p s"
proof
  assume "find_str p s = None"
  then show "\<not> sublist p s"
  proof (induction s)
    case (Cons c s)
    then have t: "take (length p) (c # s) \<noteq> p" and n: "find_str p s = None"
      by (auto split: if_splits)
    from t have "\<not> prefix p (c # s)" by (metis append_eq_conv_conj prefix_def)
    with Cons.IH[OF n] show ?case by (simp add: sublist_Cons_right)
  qed (auto split: if_splits)
next
  assume n: "\<not> sublist p s"
  show "find_str p s = None"
  proof (cases "find_str p s")
    case (Some i)
    from find_str_Some[OF this] have "sublist p s" by (metis sublist_appendI)
    with n show ?thesis by simp
  qed simp
qed

text \<open>
  The loop ends because every round makes the string shorter; an empty \<open>RemoveStr\<close> would be found
  at position 0 for ever, which is the result \<open>None\<close>.
\<close>

function removeTargetStr :: "string \<Rightarrow> string \<Rightarrow> string option" where
  "removeTargetStr FullStr RemoveStr =
     (if RemoveStr = [] then None
      else case find_str RemoveStr FullStr of
        None \<Rightarrow> Some FullStr
      | Some i \<Rightarrow>
          removeTargetStr
            (if RemoveStr = ''::'' then drop (i + 2) FullStr
             else take i FullStr @ drop (i + length RemoveStr) FullStr) RemoveStr)"
  by pat_completeness auto
termination
proof (relation "measure (length \<circ> fst)", goal_cases)
  case 1
  show ?case by simp
next
  case (2 s p i)
  from find_str_Some[OF 2(2)] have "i + length p \<le> length s" by simp
  with 2(1) show ?case by (cases p) auto
qed

declare removeTargetStr.simps [simp del]

definition is_digit :: "char \<Rightarrow> bool" where
  "is_digit c \<longleftrightarrow> CHR ''0'' \<le> c \<and> c \<le> CHR ''9''"

definition removeTargetNum :: "string \<Rightarrow> string" where
  "removeTargetNum TargetStr =
     (case find_str ''.'' TargetStr of
        None \<Rightarrow> TargetStr
      | Some i \<Rightarrow>
          if i + 1 < length TargetStr \<and> is_digit (TargetStr ! (i + 1)) then take i TargetStr
          else TargetStr)"

definition remove_all :: "string list \<Rightarrow> string \<Rightarrow> string option" where
  "remove_all RemoveStrs TargetStr =
     fold (\<lambda>p r. case r of None \<Rightarrow> None | Some s \<Rightarrow> removeTargetStr s p) RemoveStrs (Some TargetStr)"

definition syncTypeName :: "string \<Rightarrow> string option" where
  "syncTypeName TargetStr =
     map_option removeTargetNum
       (remove_all [''::'', ''class.'', ''./'', ''struct.'', ''union.'', ''.base'', ''trackedtype.'',
                    ''blacklistedtype.'', ''*'', [CHR 0x27]] TargetStr)"

definition syncModuleName :: "string \<Rightarrow> string option" where
  "syncModuleName TargetStr =
     map_option removeTargetNum (remove_all [''./'', ''.'', ''/''] TargetStr)"

section \<open>Termination and what is left\<close>

lemma removeTargetStr_spec:
  "p \<noteq> [] \<Longrightarrow> \<exists>r. removeTargetStr s p = Some r \<and> \<not> sublist p r \<and> length r \<le> length s"
proof (induction s p rule: removeTargetStr.induct)
  case (1 s p)
  show ?case
  proof (cases "find_str p s")
    case None
    then have "\<not> sublist p s" by (simp add: find_str_None)
    with "1.prems" show ?thesis by (simp add: removeTargetStr.simps[of s p] None)
  next
    case (Some i)
    let ?s = "if p = ''::'' then drop (i + 2) s else take i s @ drop (i + length p) s"
    have "length ?s \<le> length s" using find_str_Some[OF Some] by simp
    with "1.IH"[OF "1.prems" Some "1.prems"] show ?thesis
      using "1.prems" Some by (fastforce simp: removeTargetStr.simps[of s p])
  qed
qed

lemma remove_all_total:
  "[] \<notin> set ps \<Longrightarrow> \<exists>r. remove_all ps s = Some r \<and> length r \<le> length s"
  unfolding remove_all_def
proof (induction ps arbitrary: s)
  case (Cons p ps)
  then have "p \<noteq> []" by auto
  from removeTargetStr_spec[OF this, of s] obtain r where
    r: "removeTargetStr s p = Some r" "length r \<le> length s" by blast
  from Cons.IH[of r] Cons.prems r show ?case by (auto intro: le_trans)
qed simp

text \<open>
  Both functions that normalise names return for every name, never with a longer one.
\<close>

theorem sync_names_total:
  "(\<exists>t. syncTypeName s = Some t \<and> length t \<le> length s) \<and>
   (\<exists>t. syncModuleName s = Some t \<and> length t \<le> length s)"
proof -
  have n: "length (removeTargetNum r) \<le> length r" for r
    by (simp add: removeTargetNum_def split: option.split)
  have "\<exists>t. map_option removeTargetNum (remove_all ps s) = Some t \<and> length t \<le> length s"
    if "[] \<notin> set ps" for ps
    using remove_all_total[OF that, of s] n by (auto intro: le_trans)
  then show ?thesis by (simp add: syncTypeName_def syncModuleName_def)
qed

section \<open>Class names come back\<close>

text \<open>Names of classes as Clang prints them into type names: no character the normalisation removes.\<close>

definition plain :: "string \<Rightarrow> bool" where
  "plain n \<longleftrightarrow> CHR ''.'' \<notin> set n \<and> CHR '':'' \<notin> set n \<and> CHR ''/'' \<notin> set n \<and> CHR ''*'' \<notin> set n \<and>
     CHR 0x27 \<notin> set n"

lemma no_occurrence: "c \<in> set p \<Longrightarrow> c \<notin> set s \<Longrightarrow> find_str p s = None"
  using set_mono_sublist[of p s] by (auto simp: find_str_None)

lemma remove_none:
  "p \<noteq> [] \<Longrightarrow> find_str p s = None \<Longrightarrow> removeTargetStr s p = Some s"
  by (simp add: removeTargetStr.simps)

lemma find_prefix: "find_str p (p @ s) = Some 0"
proof (cases "p @ s")
  case (Cons a l)
  then have "take (length p) (a # l) = p" by (metis append_eq_conv_conj)
  with Cons show ?thesis by simp
qed simp

text \<open>Where a word and a dot, or a dot and a word, occur in a name cut at its first dot.\<close>

lemma first_cut:
  "x \<notin> set a \<Longrightarrow> x \<notin> set b \<Longrightarrow> a @ x # r = b @ x # t \<Longrightarrow> a = b \<and> r = t"
proof (induction a arbitrary: b)
  case Nil
  then show ?case by (cases b) auto
next
  case (Cons c a)
  then show ?case by (cases b) auto
qed

lemma dot_suffix_occurs:
  assumes "CHR ''.'' \<notin> set s" "CHR ''.'' \<notin> set q"
  shows "sublist (q @ ''.'') (s @ CHR ''.'' # r) \<longleftrightarrow> suffix q s \<or> sublist (q @ ''.'') r"
proof
  assume "sublist (q @ ''.'') (s @ CHR ''.'' # r)"
  then obtain a b where e: "s @ CHR ''.'' # r = a @ (q @ ''.'') @ b" by (auto simp: sublist_def)
  show "suffix q s \<or> sublist (q @ ''.'') r"
  proof (cases "CHR ''.'' \<in> set a")
    case True
    then obtain a1 a2 where a: "a = a1 @ CHR ''.'' # a2" "CHR ''.'' \<notin> set a1"
      by (meson split_list_first)
    with e have "s @ CHR ''.'' # r = a1 @ CHR ''.'' # (a2 @ (q @ ''.'') @ b)" by simp
    from first_cut[OF assms(1) a(2) this] have "r = a2 @ (q @ ''.'') @ b" by simp
    then show ?thesis unfolding sublist_def by blast
  next
    case False
    from e have c: "s @ CHR ''.'' # r = (a @ q) @ CHR ''.'' # b" by simp
    have "CHR ''.'' \<notin> set (a @ q)" using False assms by simp
    from first_cut[OF assms(1) this c] have "s = a @ q" by simp
    then show ?thesis by (simp add: suffix_def)
  qed
next
  assume "suffix q s \<or> sublist (q @ ''.'') r"
  then show "sublist (q @ ''.'') (s @ CHR ''.'' # r)"
  proof
    assume "suffix q s"
    then obtain a where "s = a @ q" by (auto simp: suffix_def)
    then have "s @ CHR ''.'' # r = a @ (q @ ''.'') @ r" by simp
    then show ?thesis unfolding sublist_def by blast
  next
    assume "sublist (q @ ''.'') r"
    then obtain a b where "r = a @ (q @ ''.'') @ b" by (auto simp: sublist_def)
    then have "s @ CHR ''.'' # r = (s @ CHR ''.'' # a) @ (q @ ''.'') @ b" by simp
    then show ?thesis unfolding sublist_def by blast
  qed
qed

lemma dot_prefix_occurs:
  assumes "CHR ''.'' \<notin> set s"
  shows "sublist (CHR ''.'' # p) (s @ CHR ''.'' # r) \<longleftrightarrow> prefix p r \<or> sublist (CHR ''.'' # p) r"
  using assms
proof (induction s)
  case (Cons c s)
  then show ?case by (auto simp: sublist_Cons_right)
qed (auto simp: sublist_Cons_right)

lemma find_at:
  "c \<notin> set s \<Longrightarrow> find_str (c # p) (s @ c # p @ r) = Some (length s)"
proof (induction s)
  case Nil
  then show ?case using find_prefix[of "c # p" r] by simp
next
  case (Cons d s)
  then have "find_str (c # p) (s @ c # p @ r) = Some (length s)" "c \<noteq> d" by auto
  then show ?case by simp
qed

lemma plain_none:
  assumes "plain n"
  shows "\<lbrakk>c \<in> set p; c \<in> {CHR ''.'', CHR '':'', CHR ''/'', CHR ''*'', CHR 0x27}\<rbrakk> \<Longrightarrow> removeTargetStr n p = Some n"
  using assms by (intro remove_none no_occurrence[of c]) (auto simp: plain_def)

lemma plain_all:
  assumes "plain n" "\<forall>p\<in>set ps. \<exists>c\<in>set p. c \<in> {CHR ''.'', CHR '':'', CHR ''/'', CHR ''*'', CHR 0x27}"
  shows "remove_all ps n = Some n"
  using assms(2) unfolding remove_all_def
  by (induction ps) (auto simp: plain_none[OF assms(1)])

lemma plain_num: "plain n \<Longrightarrow> removeTargetNum n = n"
  using no_occurrence[of "CHR ''.''" "''.''" n] by (simp add: removeTargetNum_def plain_def)

definition removed_words :: "string list" where
  "removed_words = [''class'', ''struct'', ''union'', ''trackedtype'', ''blacklistedtype'']"

lemma remove_here:
  assumes "p \<noteq> []" "p \<noteq> ''::''" "find_str p s = Some i"
  shows "removeTargetStr s p = removeTargetStr (take i s @ drop (i + length p) s) p"
  using assms by (simp add: removeTargetStr.simps[of s p])

lemma remove_dot_prefix:
  assumes "q \<noteq> '':''"
  shows "removeTargetStr (q @ CHR ''.'' # n) (q @ ''.'') = removeTargetStr n (q @ ''.'')"
proof -
  have "find_str (q @ ''.'') (q @ CHR ''.'' # n) = Some 0"
    using find_prefix[of "q @ ''.''" n] by simp
  from remove_here[OF _ _ this] show ?thesis by simp
qed

lemma no_word:
  "\<lbrakk>CHR ''.'' \<notin> set s; CHR ''.'' \<notin> set q; \<not> suffix q s; removeTargetStr r (q @ ''.'') = Some r\<rbrakk>
     \<Longrightarrow> removeTargetStr (s @ CHR ''.'' # r) (q @ ''.'') = Some (s @ CHR ''.'' # r)"
  using removeTargetStr_spec[of "q @ ''.''" r]
  by (intro remove_none) (auto simp: find_str_None dot_suffix_occurs)

lemma no_word_one:
  "CHR ''.'' \<notin> set s \<Longrightarrow> removeTargetStr s (q @ ''.'') = Some s"
  by (intro remove_none no_occurrence[of "CHR ''.''"]) auto

lemma remove_qualifier:
  assumes "CHR '':'' \<notin> set a"
  shows "removeTargetStr (a @ ''::'' @ b) ''::'' = removeTargetStr b ''::''"
  using find_at[of "CHR '':''" a "'':''" b] assms 
  by (subst removeTargetStr.simps) simp

definition qualified_name :: "string list \<Rightarrow> string \<Rightarrow> string" where
  "qualified_name qs n = concat (map (\<lambda>q. q @ ''::'') qs) @ n"

lemma remove_qualifiers:
  assumes "\<forall>q\<in>set qs. CHR '':'' \<notin> set q" "CHR '':'' \<notin> set n"
  shows "removeTargetStr (qualified_name qs n) ''::'' = Some n"
  using assms(1)
proof (induction qs)
  case Nil
  show ?case using assms(2) by (simp add: qualified_name_def remove_none no_occurrence[of "CHR '':''"])
next
  case (Cons q qs)
  have "qualified_name (q # qs) n = q @ ''::'' @ qualified_name qs n" by (simp add: qualified_name_def)
  with remove_qualifier[of q "qualified_name qs n"] Cons show ?case by simp
qed

text \<open>What LLVM and Clang append: \<open>.base\<close> for the base part, and a number when the name is taken.\<close>

inductive type_suffix :: "string \<Rightarrow> bool" where
  none: "type_suffix []"
| base: "type_suffix ''.base''"
| number: "\<forall>c\<in>set d. is_digit c \<Longrightarrow> d \<noteq> [] \<Longrightarrow> type_suffix (CHR ''.'' # d)"
| base_number: "\<forall>c\<in>set d. is_digit c \<Longrightarrow> d \<noteq> [] \<Longrightarrow> type_suffix (''.base.'' @ d)"

lemma digits_no_char:
  "\<forall>c\<in>set d. is_digit c \<Longrightarrow> \<not> is_digit c' \<Longrightarrow> c' \<notin> set d"
  by auto

lemma not_digits [simp]:
  "\<not> is_digit CHR ''.''" "\<not> is_digit CHR ''*''" "\<not> is_digit CHR 0x27" "\<not> is_digit CHR '':''"
  "\<not> is_digit CHR ''/''" "\<not> is_digit CHR ''b''"
  by (simp_all add: is_digit_def)

lemma keep_words:
  assumes "CHR ''.'' \<notin> set n" "type_suffix t" "t = [] \<or> \<not> suffix q n" "q \<in> set removed_words"
  shows "removeTargetStr (n @ t) (q @ ''.'') = Some (n @ t)"
proof -
  have q: "CHR ''.'' \<notin> set q" "\<not> suffix q ''base''"
    using assms(4) by (auto simp: removed_words_def suffix_def)
  from assms(2) show ?thesis
  proof cases
    case none
    then show ?thesis using no_word_one[OF assms(1)] by simp
  next
    case base
    have "removeTargetStr ''base'' (q @ ''.'') = Some ''base''" by (rule no_word_one) simp
    then show ?thesis using no_word[OF assms(1) q(1), of "''base''"] assms(3) base by simp
  next
    case (number d)
    have "removeTargetStr d (q @ ''.'') = Some d"
      by (rule no_word_one) (use number in \<open>auto dest: digits_no_char\<close>)
    then show ?thesis using no_word[OF assms(1) q(1), of d] assms(3) number by simp
  next
    case (base_number d)
    have "removeTargetStr d (q @ ''.'') = Some d"
      by (rule no_word_one) (use base_number in \<open>auto dest: digits_no_char\<close>)
    then have "removeTargetStr (''base'' @ CHR ''.'' # d) (q @ ''.'') = Some (''base'' @ CHR ''.'' # d)"
      by (intro no_word) (use q in auto)
    then show ?thesis using no_word[OF assms(1) q(1), of "''base'' @ CHR ''.'' # d"] assms(3) base_number
      by simp
  qed
qed

definition strip_base :: "string \<Rightarrow> string" where
  "strip_base t = (if take 5 t = ''.base'' then drop 5 t else t)"

lemma suffix_chars:
  assumes "plain n" "type_suffix t"
  shows "CHR '':'' \<notin> set (n @ t)" "CHR ''/'' \<notin> set (n @ t)" "CHR ''*'' \<notin> set (n @ t)"
    "CHR 0x27 \<notin> set (n @ t)"
  using assms by (auto simp: plain_def elim!: type_suffix.cases dest: digits_no_char[OF _ not_digits(2)]
      digits_no_char[OF _ not_digits(3)] digits_no_char[OF _ not_digits(4)] digits_no_char[OF _ not_digits(5)])

lemma type_suffix_strip: "type_suffix t \<Longrightarrow> type_suffix (strip_base t)"
proof (erule type_suffix.cases)
  fix d assume d: "\<forall>c\<in>set d. is_digit c" "d \<noteq> []" "t = CHR ''.'' # d"
  then have "hd d \<noteq> CHR ''b''" by (metis list.set_sel(1) not_digits(6))
  then have "take 4 d \<noteq> ''base''" by (cases d) auto
  with d show ?thesis by (auto simp: strip_base_def intro: type_suffix.intros)
next
  fix d assume d: "\<forall>c\<in>set d. is_digit c" "d \<noteq> []" "t = ''.base.'' @ d"
  then have "strip_base t = CHR ''.'' # d" by (simp add: strip_base_def)
  with d show ?thesis by (auto intro: type_suffix.intros)
qed (auto simp: strip_base_def intro: type_suffix.intros)

lemma strip_cases:
  assumes "type_suffix t"
  shows "strip_base t = t \<and> (t = [] \<or> (\<exists>d. t = CHR ''.'' # d \<and> (\<forall>c\<in>set d. is_digit c) \<and> d \<noteq> [])) \<or>
    t = ''.base'' @ strip_base t \<and>
      (strip_base t = [] \<or> (\<exists>d. strip_base t = CHR ''.'' # d \<and> (\<forall>c\<in>set d. is_digit c) \<and> d \<noteq> []))"
  using assms
proof cases
  case (number d)
  then have "hd d \<noteq> CHR ''b''" by (metis list.set_sel(1) not_digits(6))
  then have "take 4 d \<noteq> ''base''" by (cases d) auto
  with number show ?thesis by (simp add: strip_base_def)
qed (auto simp: strip_base_def)

lemma number_no_base:
  assumes "\<forall>c\<in>set d. is_digit c" "CHR ''.'' \<notin> set n"
  shows "\<not> sublist ''.base'' (n @ CHR ''.'' # d)"
proof -
  have "\<not> prefix ''base'' d" using assms(1) not_digits(6) by (auto simp: prefix_def)
  moreover have "\<not> sublist ''.base'' d"
    using no_occurrence[of "CHR ''.''" "''.base''" d] digits_no_char[OF assms(1) not_digits(1)]
    by (simp add: find_str_None)
  ultimately show ?thesis by (simp add: dot_prefix_occurs[OF assms(2)])
qed

lemma stripped_no_base:
  assumes "type_suffix t" "CHR ''.'' \<notin> set n"
  shows "\<not> sublist ''.base'' (n @ strip_base t)"
proof -
  have "\<not> sublist ''.base'' n"
    using no_occurrence[of "CHR ''.''" "''.base''" n] assms(2) by (simp add: find_str_None)
  then show ?thesis using strip_cases[OF assms(1)] number_no_base[OF _ assms(2)] by fastforce
qed

lemma remove_base:
  assumes "type_suffix t" "CHR ''.'' \<notin> set n"
  shows "removeTargetStr (n @ t) ''.base'' = Some (n @ strip_base t)"
proof -
  have none: "removeTargetStr (n @ strip_base t) ''.base'' = Some (n @ strip_base t)"
    by (rule remove_none) (simp_all add: find_str_None stripped_no_base[OF assms])
  show ?thesis
  proof (cases "strip_base t = t")
    case False
    with strip_cases[OF assms(1)] have t: "t = ''.base'' @ strip_base t" by blast
    have "find_str ''.base'' (n @ t) = Some (length n)"
      using find_at[OF assms(2), of "''base''" "strip_base t"] t by simp
    moreover have "drop 5 t = strip_base t" using False by (simp add: strip_base_def split: if_splits)
    ultimately show ?thesis
      using remove_here[of "''.base''" "n @ t" "length n"] none by simp
  qed (use none in simp)
qed

lemma find_skip:
  assumes "CHR ''.'' \<notin> set s" "\<not> prefix p r"
  shows "find_str (CHR ''.'' # p) (s @ CHR ''.'' # r) =
    map_option (\<lambda>i. length s + 1 + i) (find_str (CHR ''.'' # p) r)"
  using assms(1)
proof (induction s)
  case Nil
  have "take (length p) r \<noteq> p" using assms(2) by (metis take_is_prefix)
  then show ?case by (simp add: option.map_comp comp_def)
next
  case (Cons c s)
  then show ?case by (auto simp: option.map_comp comp_def)
qed

lemma remove_base_kind:
  assumes "type_suffix t" "CHR ''.'' \<notin> set n" "CHR ''.'' \<notin> set k" "\<not> prefix ''base'' n"
  shows "removeTargetStr (k @ CHR ''.'' # n @ t) ''.base'' = Some (k @ CHR ''.'' # n @ strip_base t)"
proof -
  have pre: "\<not> prefix ''base'' (n @ u)" if "u = [] \<or> (\<exists>v. u = CHR ''.'' # v)" for u
  proof
    assume "prefix ''base'' (n @ u)"
    with assms(4) obtain w where w: "''base'' = n @ w" "prefix w u" unfolding prefix_append by blast
    have "w \<noteq> []" using w(1) assms(4) by (metis append_Nil2 prefix_order.refl)
    then obtain x where "u = w @ x" "w \<noteq> []" using w(2) by (auto simp: prefix_def)
    with that have "CHR ''.'' \<in> set w" by (cases w) auto
    with w(1) have "CHR ''.'' \<in> set ''base''" by (metis Un_iff set_append)
    then show False by simp
  qed
  have none: "removeTargetStr (k @ CHR ''.'' # n @ strip_base t) ''.base''
      = Some (k @ CHR ''.'' # n @ strip_base t)"
    using strip_cases[OF assms(1)] stripped_no_base[OF assms(1,2)] pre
    by (intro remove_none) (auto simp: find_str_None dot_prefix_occurs[OF assms(3)])
  show ?thesis
  proof (cases "strip_base t = t")
    case False
    with strip_cases[OF assms(1)] have t: "t = ''.base'' @ strip_base t" by blast
    then have "\<exists>v. t = CHR ''.'' # v" by (metis append_Cons)
    then have "\<not> prefix ''base'' (n @ t)" by (intro pre) simp
    moreover have "find_str ''.base'' (n @ t) = Some (length n)"
      using find_at[OF assms(2), of "''base''" "strip_base t"] t by simp
    ultimately have "find_str ''.base'' (k @ CHR ''.'' # n @ t) = Some (length k + 1 + length n)"
      using find_skip[OF assms(3)] by simp
    moreover have "drop 5 t = strip_base t" using False by (simp add: strip_base_def split: if_splits)
    ultimately show ?thesis
      using remove_here[of "''.base''" "k @ CHR ''.'' # n @ t" "length k + 1 + length n"] none
      by (simp add: drop_Cons')
  qed (use none in simp)
qed

lemma kind_words:
  "q \<in> set removed_words \<Longrightarrow> CHR ''.'' \<notin> set q \<and> CHR '':'' \<notin> set q \<and> CHR ''/'' \<notin> set q \<and>
     CHR ''*'' \<notin> set q \<and> CHR 0x27 \<notin> set q \<and> q \<noteq> '':''"
  by (auto simp: removed_words_def)

lemma kind_apart:
  "q \<in> set removed_words \<Longrightarrow> k \<in> set removed_words \<Longrightarrow> q \<noteq> k \<Longrightarrow> \<not> suffix q k"
  by (auto simp: removed_words_def suffix_def)

text \<open>One lemma for a word at the front of a name, one for what follows it.\<close>

lemma word_at_front:
  assumes "CHR ''.'' \<notin> set n" "type_suffix t" "t = [] \<or> \<not> suffix q n"
    "q \<in> set removed_words" "k \<in> set removed_words"
  shows "removeTargetStr (k @ CHR ''.'' # n @ t) (q @ ''.'')
    = Some (if q = k then n @ t else k @ CHR ''.'' # n @ t)"
proof (cases "q = k")
  case True
  with remove_dot_prefix[of k "n @ t"] keep_words[OF assms(1-4)] kind_words[OF assms(4)]
  show ?thesis by simp
next
  case False
  from kind_apart[OF assms(4,5) False] kind_words[OF assms(4)] kind_words[OF assms(5)]
  show ?thesis using no_word[of k q "n @ t"] keep_words[OF assms(1-4)] False by simp
qed

lemma final_number:
  assumes "CHR ''.'' \<notin> set n" "type_suffix t"
  shows "removeTargetNum (n @ strip_base t) = n"
proof (cases "strip_base t")
  case Nil
  with no_occurrence[of "CHR ''.''" "''.''" n] assms(1) show ?thesis by (simp add: removeTargetNum_def)
next
  case (Cons c d)
  with strip_cases[OF assms(2)] have d: "c = CHR ''.''" "\<forall>c\<in>set d. is_digit c" "d \<noteq> []" by auto
  have "find_str ''.'' (n @ CHR ''.'' # d) = Some (length n)"
    using find_at[OF assms(1), of "[]" d] by simp
  with d show ?thesis by (simp add: Cons removeTargetNum_def nth_append)
qed

lemma remove_char:
  "c \<notin> set s \<Longrightarrow> c \<in> set p \<Longrightarrow> removeTargetStr s p = Some s"
  by (rule remove_none) (auto intro: no_occurrence)

lemma remove_all_fail:
  "fold (\<lambda>p r. case r of None \<Rightarrow> None | Some s \<Rightarrow> removeTargetStr s p) ps None = None"
  by (induction ps) auto

lemma remove_all_Cons:
  "remove_all (p # ps) s = (case removeTargetStr s p of None \<Rightarrow> None | Some r \<Rightarrow> remove_all ps r)"
  by (simp add: remove_all_def remove_all_fail split: option.split)

lemma remove_all_Nil: "remove_all [] s = Some s"
  by (simp add: remove_all_def)

lemma sync_class:
  assumes n: "plain n" and qs: "\<forall>q\<in>set qs. plain q" and t: "type_suffix t"
    and k: "k \<in> set removed_words"
    and words: "t = [] \<or> (\<forall>q\<in>set removed_words. \<not> suffix q n)"
    and base: "qs = [] \<longrightarrow> k \<in> {''trackedtype'', ''blacklistedtype''} \<longrightarrow> \<not> prefix ''base'' n"
  shows "syncTypeName (k @ CHR ''.'' # qualified_name qs (n @ t)) = Some n"
proof -
  let ?u = "strip_base t"
  have dot: "CHR ''.'' \<notin> set n" using n by (simp add: plain_def)
  note u = type_suffix_strip[OF t]
  have u0: "t = [] \<Longrightarrow> ?u = []" by (simp add: strip_base_def)
  have words_t: "t = [] \<or> \<not> suffix q n" and words_u: "?u = [] \<or> \<not> suffix q n"
    if "q \<in> set removed_words" for q using words that u0 by auto
  have rw: "''class'' \<in> set removed_words" "''struct'' \<in> set removed_words" "''union'' \<in> set removed_words"
    "''trackedtype'' \<in> set removed_words" "''blacklistedtype'' \<in> set removed_words"
    by (simp_all add: removed_words_def)
  note keep_t = keep_words[OF dot t words_t] and keep_u = keep_words[OF dot u words_u]
  note kt = keep_t[OF rw(1) rw(1)] keep_t[OF rw(2) rw(2)] keep_t[OF rw(3) rw(3)]
  note ku = keep_u[OF rw(4) rw(4)] keep_u[OF rw(5) rw(5)]
  note front_t = word_at_front[OF dot t words_t _ k] and front_u = word_at_front[OF dot u words_u _ k]
  note ft = front_t[OF rw(1) rw(1)] front_t[OF rw(2) rw(2)] front_t[OF rw(3) rw(3)]
  note fu = front_u[OF rw(4) rw(4)] front_u[OF rw(5) rw(5)]
  note ch = suffix_chars[OF n t] suffix_chars[OF n u]
  have slash: "removeTargetStr (n @ t) ''./'' = Some (n @ t)"
    "removeTargetStr (k @ CHR ''.'' # n @ t) ''./'' = Some (k @ CHR ''.'' # n @ t)"
    using ch kind_words[OF k] by (auto intro!: remove_char[of "CHR ''/''"])
  have marks: "removeTargetStr (n @ ?u) ''*'' = Some (n @ ?u)" "removeTargetStr (n @ ?u) [CHR 0x27] = Some (n @ ?u)"
    using ch remove_char[of "CHR ''*''" "n @ ?u" "''*''"] remove_char[of "CHR 0x27" "n @ ?u" "[CHR 0x27]"] by auto
  note num = final_number[OF dot t] and rb = remove_base[OF t dot]
  note chain = syncTypeName_def remove_all_Cons remove_all_Nil
  show ?thesis
  proof (cases qs)
    case (Cons q qs')
    have "k @ CHR ''.'' # qualified_name qs (n @ t) = qualified_name ((k @ CHR ''.'' # q) # qs') (n @ t)"
      by (simp add: Cons qualified_name_def)
    moreover have "removeTargetStr (qualified_name ((k @ CHR ''.'' # q) # qs') (n @ t)) ''::'' = Some (n @ t)"
      by (rule remove_qualifiers) (use qs Cons ch kind_words[OF k] in \<open>auto simp: plain_def\<close>)
    ultimately show ?thesis using kt ku slash(1) marks rb num by (simp add: chain)
  next
    case Nil
    have c: "removeTargetStr (k @ CHR ''.'' # n @ t) ''::'' = Some (k @ CHR ''.'' # n @ t)"
      using ch kind_words[OF k] by (auto intro!: remove_char[of "CHR '':''"])
    have kd: "CHR ''.'' \<notin> set k" using kind_words[OF k] by simp
    have rk: "k \<in> {''trackedtype'', ''blacklistedtype''} \<Longrightarrow>
        removeTargetStr (k @ CHR ''.'' # n @ t) ''.base'' = Some (k @ CHR ''.'' # n @ ?u)"
      using remove_base_kind[OF t dot kd] base Nil by simp
    have ks: "k = ''class'' \<or> k = ''struct'' \<or> k = ''union'' \<or> k = ''trackedtype'' \<or> k = ''blacklistedtype''"
      using k by (simp add: removed_words_def)
    then show ?thesis
      using c ft fu kt ku slash marks rb rk num by (elim disjE) (simp_all add: chain Nil qualified_name_def)
  qed
qed

text \<open>
  C19: The type of a class \<open>n\<close> is called by its kind, a dot and the qualified name, with \<open>.base\<close> appended
  for the base part and a number when the name is taken. Normalising that name gives \<open>n\<close> back, unless
  \<open>n\<close> ends in one of the removed words and something is appended, or starts with \<open>base\<close> in the global
  name space and is marked as tracked.
\<close>

theorem syncTypeName_class:
  assumes "plain n" "\<forall>q\<in>set qs. plain q" "type_suffix t" "k \<in> set removed_words"
    "t = [] \<or> (\<forall>q\<in>set removed_words. \<not> suffix q n)"
    "qs = [] \<longrightarrow> k \<in> {''trackedtype'', ''blacklistedtype''} \<longrightarrow> \<not> prefix ''base'' n"
  shows "syncTypeName (k @ CHR ''.'' # qualified_name qs (n @ t)) = Some n"
  by (rule sync_class[OF assms])

lemma syncTypeName_class_witness:
  "syncTypeName ''trackedtype.std::vector.base.12'' = Some ''vector''"
proof -
  have "type_suffix ''.base.12''" using base_number[of "''12''"] by (simp add: is_digit_def)
  then have "syncTypeName (''trackedtype'' @ CHR ''.'' # qualified_name [''std''] (''vector'' @ ''.base.12'')) = Some ''vector''"
    by (intro syncTypeName_class) (simp_all add: plain_def removed_words_def suffix_def)
  then show ?thesis by (simp add: qualified_name_def)
qed

lemma sync_tracked_base:
  assumes "plain r"
  shows "syncTypeName (''trackedtype.base'' @ r) = Some (''trackedtype'' @ r)"
proof -
  let ?n = "''base'' @ r" and ?w = "''trackedtype'' @ CHR ''.'' # ''base'' @ r"
  have n: "CHR ''.'' \<notin> set ?n" and dot: "CHR ''.'' \<notin> set (''trackedtype'' @ r)" using assms by (auto simp: plain_def)
  have front: "removeTargetStr ?w (q @ ''.'') = Some ?w"
    if "q \<in> set removed_words" "q \<noteq> ''trackedtype''" for q
    using word_at_front[OF n type_suffix.none _ that(1), of "''trackedtype''"] that(2) by (simp add: removed_words_def)
  have chars: "removeTargetStr ?w ''::'' = Some ?w" "removeTargetStr ?w ''./'' = Some ?w"
    using assms remove_char[of "CHR '':''" ?w "''::''"] remove_char[of "CHR ''/''" ?w "''./''"]
    by (auto simp: plain_def)
  have rest: "removeTargetStr (''trackedtype'' @ r) p = Some (''trackedtype'' @ r)"
    if "\<exists>c\<in>set p. c \<in> {CHR ''.'', CHR ''*'', CHR 0x27}" for p
  proof -
    from that obtain c where c: "c \<in> set p" "c = CHR ''.'' \<or> c = CHR ''*'' \<or> c = CHR 0x27" by blast
    then have "c \<notin> set (''trackedtype'' @ r)" using assms by (auto simp: plain_def)
    from remove_char[OF this c(1)] show ?thesis .
  qed
  have "find_str ''.base'' ?w = Some (length ''trackedtype'')"
    using find_at[of "CHR ''.''" "''trackedtype''" "''base''" r] by simp
  from remove_here[OF _ _ this] rest[of "''.base''"]
  have base: "removeTargetStr ?w ''.base'' = Some (''trackedtype'' @ r)" by simp
  have "removeTargetNum (''trackedtype'' @ r) = ''trackedtype'' @ r"
    using no_occurrence[OF _ dot, of "''.''"] by (simp add: removeTargetNum_def)
  with chars base front[of "''class''"] front[of "''struct''"] front[of "''union''"]
    rest[of "''trackedtype.''"] rest[of "''blacklistedtype.''"] rest[of "''*''"] rest[of "[CHR 0x27]"]
  show ?thesis by (simp add: syncTypeName_def remove_all_Cons remove_all_Nil removed_words_def)
qed

text \<open>
  The exceptions are real. A tracked class of the global name space whose name starts with \<open>base\<close>
  never gets its own name back, and the base part of a class whose name ends in \<open>class\<close> does not either.
\<close>

theorem syncTypeName_mangles:
  "(\<forall>r. plain r \<longrightarrow> syncTypeName (''trackedtype.base'' @ r) = Some (''trackedtype'' @ r)) \<and>
   syncTypeName ''class.Subclass.base'' = Some ''Subbase''"
proof -
  have "syncTypeName ''class.Subclass.base'' = Some ''Subbase''"
    by (simp add: syncTypeName_def remove_all_Cons remove_all_Nil removeTargetStr.simps removeTargetNum_def)
  then show ?thesis using sync_tracked_base by blast
qed

lemma syncTypeName_mangles_witness:
  "syncTypeName ''trackedtype.basement'' = Some ''trackedtypement''"
proof -
  have "plain ''ment''" by (simp add: plain_def)
  with syncTypeName_mangles have "syncTypeName (''trackedtype.base'' @ ''ment'') = Some (''trackedtype'' @ ''ment'')"
    by blast
  then show ?thesis by simp
qed

end
