(* ===== verification/SubObjects.thy ===== *)
theory SubObjects
  imports LayoutProps CodeFiles TypeNames
begin

text \<open>
  The part of \<open>lib/Transforms/Utils/BitypeUtil.cpp\<close> that finds the class objects inside an object: which
  types are interesting, the objects at offset 0, and the tables of the objects by slot of eight bytes
  and by offset. A structure type is \<open>ir_struct\<close>, its identity with its elements; a \<open>std::set\<close> of structure
  types is ordered by address, a map from \<open>structId\<close>. Offsets are \<open>uint32_t\<close>.
\<close>

type_synonym ir_struct = "struct_info \<times> ir_type list"
type_synonym struct_set = "(nat, ir_struct) smap"

abbreviation sid :: "ir_struct \<Rightarrow> nat" where
  "sid s \<equiv> structId (fst s)"

abbreviation sset_add :: "ir_struct \<Rightarrow> struct_set \<Rightarrow> struct_set" where
  "sset_add s S \<equiv> map_insert (sid s) s S"

definition getName :: "ir_struct \<Rightarrow> string" where
  "getName s = (case structName (fst s) of None \<Rightarrow> [] | Some n \<Rightarrow> n)"

text \<open>The name a pass looks a type up under; \<open>syncTypeName\<close> always returns.\<close>

definition class_name :: "ir_struct \<Rightarrow> string" where
  "class_name s = (case syncTypeName (getName s) of None \<Rightarrow> [] | Some n \<Rightarrow> n)"

lemma class_name_sync: "syncTypeName (getName s) = Some (class_name s)"
proof -
  obtain t where "syncTypeName (getName s) = Some t"
    using remove_all_total[of "[''::'', ''class.'', ''./'', ''struct.'', ''union.'', ''.base'', ''trackedtype.'',
                    ''blacklistedtype.'', ''*'', [CHR 0x27]]" "getName s"]
    by (auto simp: syncTypeName_def)
  then show ?thesis by (simp add: class_name_def)
qed

section \<open>Interesting types\<close>

definition isInterestingStructType :: "ir_struct \<Rightarrow> bool" where
  "isInterestingStructType s \<longleftrightarrow>
     structName (fst s) \<noteq> None \<and> \<not> isLiteral (fst s) \<and> \<not> isOpaque (fst s)"

fun isInterestingArrayType :: "ir_type \<Rightarrow> bool" where
  "isInterestingArrayType InnerTy =
     (case InnerTy of
        StructTy ST Tys \<Rightarrow> isInterestingStructType (ST, Tys)
      | ArrayTy n Ty \<Rightarrow> isInterestingArrayType Ty
      | _ \<Rightarrow> False)"

declare isInterestingArrayType.simps [simp del]

definition isInterestingType :: "ir_type \<Rightarrow> bool" where
  "isInterestingType rootType =
     (case rootType of
        StructTy ST Tys \<Rightarrow> isInterestingStructType (ST, Tys)
      | ArrayTy n Ty \<Rightarrow> isInterestingArrayType Ty
      | _ \<Rightarrow> False)"

definition isInCastRelatedSet :: "code_maps \<Rightarrow> ir_struct \<Rightarrow> bool" where
  "isInCastRelatedSet u STy = map_has (bitypeCastRelatedClass u) (class_name STy)"

definition isInCastRelatedSetStructType :: "code_maps \<Rightarrow> ir_struct \<Rightarrow> bool" where
  "isInCastRelatedSetStructType u STy = isInCastRelatedSet u STy"

fun isInCastRelatedSetArrayType :: "code_maps \<Rightarrow> ir_type \<Rightarrow> bool" where
  "isInCastRelatedSetArrayType u InnerTy =
     (case InnerTy of
        StructTy ST Tys \<Rightarrow> isInCastRelatedSetStructType u (ST, Tys)
      | ArrayTy n Ty \<Rightarrow> isInCastRelatedSetArrayType u Ty
      | _ \<Rightarrow> False)"

declare isInCastRelatedSetArrayType.simps [simp del]

definition isInCastRelatedSetType :: "code_maps \<Rightarrow> ir_type \<Rightarrow> bool" where
  "isInCastRelatedSetType u rootType =
     (case rootType of
        StructTy ST Tys \<Rightarrow> isInCastRelatedSetStructType u (ST, Tys)
      | ArrayTy n Ty \<Rightarrow> isInCastRelatedSetArrayType u Ty
      | _ \<Rightarrow> False)"

section \<open>The tables of the objects inside an object\<close>

abbreviation tracked_name :: "ir_struct \<Rightarrow> bool" where
  "tracked_name s \<equiv> startswith (getName s) ''trackedtype.''"

text \<open>\<open>StructOffsetZeroSet\<close>; the offset is narrowed to \<open>uint32_t\<close> before it is compared with 0.\<close>

lemma element_size: "i < length Tys \<Longrightarrow> 2 * size (Tys ! i) < Suc (2 * size_list size Tys)"
proof -
  assume "i < length Tys"
  then have "size (Tys ! i) \<le> size_list size Tys" by (intro size_list_estimation'[OF nth_mem]) auto
  then show ?thesis by simp
qed

function getOffsetZeroArray :: "data_layout \<Rightarrow> ir_type \<Rightarrow> struct_set \<Rightarrow> struct_set"
  and getOffetZeroStruct :: "data_layout \<Rightarrow> struct_info \<Rightarrow> ir_type list \<Rightarrow> struct_set \<Rightarrow> struct_set" where
  "getOffsetZeroArray dl AI zeroSet =
     (case AI of
        ArrayTy n AllocaType \<Rightarrow> getOffsetZeroArray dl AllocaType zeroSet
      | StructTy ST Tys \<Rightarrow>
          if isInterestingStructType (ST, Tys) then getOffetZeroStruct dl ST Tys zeroSet else zeroSet
      | _ \<Rightarrow> zeroSet)"
| "getOffetZeroStruct dl ST Tys zeroSet =
     fold (\<lambda>i zeroSet.
         if getElementOffset (getStructLayout dl ST Tys) i mod 2 ^ 32 \<noteq> 0 then zeroSet
         else getOffsetZeroArray dl (Tys ! i) zeroSet) [0..<length Tys]
       (if tracked_name (ST, Tys) then sset_add (ST, Tys) zeroSet else zeroSet)"
  by pat_completeness auto
termination
  by (relation "measure (\<lambda>x. case x of Inl (_, AI, _) \<Rightarrow> 2 * size AI | Inr (_, _, Tys, _) \<Rightarrow> 2 * size_list size Tys + 1)")
    (auto simp: element_size)

text \<open>
  \<open>StructElementSetInfoTy\<close>: for a slot of eight bytes the structures that start in it, of those at one
  offset the first met. \<open>hasVisited\<close> holds the offsets already taken.
\<close>

type_synonym struct_slots = "(nat, struct_set) smap"

definition record_slot ::
  "code_maps \<Rightarrow> ir_struct \<Rightarrow> nat \<Rightarrow> struct_slots \<times> nat sset \<Rightarrow> struct_slots \<times> nat sset" where
  "record_slot u STy Offset = (\<lambda>(Elements, hasVisited).
     if Offset \<in> set hasVisited then (Elements, hasVisited)
     else if tracked_name STy \<and> isInCastRelatedSet u STy
     then let alignment = Offset div 8 in
       ((case map_find Elements alignment of
           None \<Rightarrow> map_insert alignment (sset_add STy []) Elements
         | Some tempSet \<Rightarrow> map_put alignment (sset_add STy tempSet) Elements),
        set_insert Offset hasVisited)
     else (Elements, hasVisited))"

function getArrayAlignment ::
    "data_layout \<Rightarrow> code_maps \<Rightarrow> ir_type \<Rightarrow> nat \<Rightarrow> struct_slots \<times> nat sset \<Rightarrow> struct_slots \<times> nat sset"
  and getStructAlignment ::
    "data_layout \<Rightarrow> code_maps \<Rightarrow> struct_info \<Rightarrow> ir_type list \<Rightarrow> nat \<Rightarrow> struct_slots \<times> nat sset
       \<Rightarrow> struct_slots \<times> nat sset" where
  "getArrayAlignment dl u Ty Offset E =
     (case Ty of
        ArrayTy n AllocaType \<Rightarrow>
          fold (\<lambda>i. getArrayAlignment dl u AllocaType ((Offset + i * getTypeAllocSize dl AllocaType) mod 2 ^ 32))
            [0..<n mod 2 ^ 32] E
      | StructTy ST Tys \<Rightarrow>
          if isInterestingStructType (ST, Tys) then getStructAlignment dl u ST Tys Offset E else E
      | _ \<Rightarrow> E)"
| "getStructAlignment dl u ST Tys Offset E =
     fold (\<lambda>i. getArrayAlignment dl u (Tys ! i)
            ((getElementOffset (getStructLayout dl ST Tys) i + Offset) mod 2 ^ 32))
       [0..<length Tys] (record_slot u (ST, Tys) Offset E)"
  by pat_completeness auto
termination
  by (relation "measure (\<lambda>x. case x of Inl (_, _, Ty, _) \<Rightarrow> 2 * size Ty
      | Inr (_, _, _, Tys, _) \<Rightarrow> 2 * size_list size Tys + 1)")
    (auto simp: element_size)

text \<open>\<open>StructElementInfoTy\<close>: the first structure met at every offset.\<close>

definition record_offset ::
  "code_maps \<Rightarrow> ir_struct \<Rightarrow> nat \<Rightarrow> (nat, ir_struct) smap \<Rightarrow> (nat, ir_struct) smap" where
  "record_offset u STy Offset Elements =
     (if map_has Elements Offset then Elements
      else if tracked_name STy \<and> isInCastRelatedSet u STy then map_insert Offset STy Elements
      else Elements)"

function getArrayOffsets ::
    "data_layout \<Rightarrow> code_maps \<Rightarrow> ir_type \<Rightarrow> nat \<Rightarrow> (nat, ir_struct) smap \<Rightarrow> (nat, ir_struct) smap"
  and getStructOffsets ::
    "data_layout \<Rightarrow> code_maps \<Rightarrow> struct_info \<Rightarrow> ir_type list \<Rightarrow> nat \<Rightarrow> (nat, ir_struct) smap
       \<Rightarrow> (nat, ir_struct) smap" where
  "getArrayOffsets dl u Ty Offset E =
     (case Ty of
        ArrayTy n AllocaType \<Rightarrow>
          fold (\<lambda>i. getArrayOffsets dl u AllocaType ((Offset + i * getTypeAllocSize dl AllocaType) mod 2 ^ 32))
            [0..<n mod 2 ^ 32] E
      | StructTy ST Tys \<Rightarrow>
          if isInterestingStructType (ST, Tys) then getStructOffsets dl u ST Tys Offset E else E
      | _ \<Rightarrow> E)"
| "getStructOffsets dl u ST Tys Offset E =
     fold (\<lambda>i. getArrayOffsets dl u (Tys ! i)
            ((getElementOffset (getStructLayout dl ST Tys) i + Offset) mod 2 ^ 32))
       [0..<length Tys] (record_offset u (ST, Tys) Offset E)"
  by pat_completeness auto
termination
  by (relation "measure (\<lambda>x. case x of Inl (_, _, Ty, _) \<Rightarrow> 2 * size Ty
      | Inr (_, _, _, Tys, _) \<Rightarrow> 2 * size_list size Tys + 1)")
    (auto simp: element_size)

declare getOffsetZeroArray.simps [simp del] getOffetZeroStruct.simps [simp del]
  getArrayAlignment.simps [simp del] getStructAlignment.simps [simp del]
  getArrayOffsets.simps [simp del] getStructOffsets.simps [simp del]

section \<open>The objects inside an object\<close>

text \<open>
  The specification all three share: the interesting structures inside a value of a type, with their
  offsets, an outer one before the ones inside it.
\<close>

function subobjects :: "data_layout \<Rightarrow> ir_type \<Rightarrow> nat \<Rightarrow> (nat \<times> ir_struct) list" where
  "subobjects dl Ty Offset =
     (case Ty of
        ArrayTy n El \<Rightarrow>
          concat (map (\<lambda>i. subobjects dl El ((Offset + i * getTypeAllocSize dl El) mod 2 ^ 32)) [0..<n mod 2 ^ 32])
      | StructTy ST Tys \<Rightarrow>
          if isInterestingStructType (ST, Tys)
          then (Offset, ST, Tys) # concat (map (\<lambda>i. subobjects dl (Tys ! i)
                 ((getElementOffset (getStructLayout dl ST Tys) i + Offset) mod 2 ^ 32)) [0..<length Tys])
          else []
      | _ \<Rightarrow> [])"
  by pat_completeness auto
termination
  by (relation "measure (\<lambda>(_, Ty, _). 2 * size Ty)") (auto simp: less_SucI[OF element_size])

declare subobjects.simps [simp del]

lemma fold_concat_map: "fold f (concat (map g xs)) s = fold (\<lambda>x. fold f (g x)) xs s"
  by (induction xs arbitrary: s) auto

lemma getArrayAlignment_fold:
  "getArrayAlignment dl u Ty Offset E = fold (\<lambda>(x, s). record_slot u s x) (subobjects dl Ty Offset) E"
proof (induction dl Ty Offset arbitrary: E rule: subobjects.induct)
  case (1 dl Ty Offset)
  show ?case
  proof (cases Ty)
    case (ArrayTy n El)
    have "getArrayAlignment dl u El ((Offset + i * getTypeAllocSize dl El) mod 2 ^ 32) =
        fold (\<lambda>(x, s). record_slot u s x) (subobjects dl El ((Offset + i * getTypeAllocSize dl El) mod 2 ^ 32))"
      if "i \<in> set [0..<n mod 2 ^ 32]" for i
      using "1.IH"(1)[OF ArrayTy that] by (rule ext)
    with ArrayTy show ?thesis
      by (simp add: getArrayAlignment.simps[of dl u "ArrayTy n El"] subobjects.simps[of dl "ArrayTy n El"]
          fold_concat_map) (rule fold_cong, simp_all)
  next
    case (StructTy ST Tys)
    show ?thesis
    proof (cases "isInterestingStructType (ST, Tys)")
      case True
      let ?o = "\<lambda>i. (getElementOffset (getStructLayout dl ST Tys) i + Offset) mod 2 ^ 32"
      have "getArrayAlignment dl u (Tys ! i) (?o i) = fold (\<lambda>(x, s). record_slot u s x) (subobjects dl (Tys ! i) (?o i))"
        if "i \<in> set [0..<length Tys]" for i
        using "1.IH"(2)[OF StructTy True that] by (rule ext)
      with StructTy True show ?thesis
        by (simp add: getArrayAlignment.simps[of dl u "StructTy ST Tys"] getStructAlignment.simps
            subobjects.simps[of dl "StructTy ST Tys"]
            fold_concat_map) (rule fold_cong, simp_all)
    next
      case False
      with StructTy show ?thesis
        by (simp add: getArrayAlignment.simps[of dl u "StructTy ST Tys"] subobjects.simps[of dl "StructTy ST Tys"])
    qed
  qed (simp_all add: getArrayAlignment.simps subobjects.simps)
qed

lemma getArrayOffsets_fold:
  "getArrayOffsets dl u Ty Offset E = fold (\<lambda>(x, s). record_offset u s x) (subobjects dl Ty Offset) E"
proof (induction dl Ty Offset arbitrary: E rule: subobjects.induct)
  case (1 dl Ty Offset)
  show ?case
  proof (cases Ty)
    case (ArrayTy n El)
    have "getArrayOffsets dl u El ((Offset + i * getTypeAllocSize dl El) mod 2 ^ 32) =
        fold (\<lambda>(x, s). record_offset u s x) (subobjects dl El ((Offset + i * getTypeAllocSize dl El) mod 2 ^ 32))"
      if "i \<in> set [0..<n mod 2 ^ 32]" for i
      using "1.IH"(1)[OF ArrayTy that] by (rule ext)
    with ArrayTy show ?thesis
      by (simp add: getArrayOffsets.simps[of dl u "ArrayTy n El"] subobjects.simps[of dl "ArrayTy n El"]
          fold_concat_map) (rule fold_cong, simp_all)
  next
    case (StructTy ST Tys)
    show ?thesis
    proof (cases "isInterestingStructType (ST, Tys)")
      case True
      let ?o = "\<lambda>i. (getElementOffset (getStructLayout dl ST Tys) i + Offset) mod 2 ^ 32"
      have "getArrayOffsets dl u (Tys ! i) (?o i) = fold (\<lambda>(x, s). record_offset u s x) (subobjects dl (Tys ! i) (?o i))"
        if "i \<in> set [0..<length Tys]" for i
        using "1.IH"(2)[OF StructTy True that] by (rule ext)
      with StructTy True show ?thesis
        by (simp add: getArrayOffsets.simps[of dl u "StructTy ST Tys"] getStructOffsets.simps
            subobjects.simps[of dl "StructTy ST Tys"]
            fold_concat_map) (rule fold_cong, simp_all)
    next
      case False
      with StructTy show ?thesis
        by (simp add: getArrayOffsets.simps[of dl u "StructTy ST Tys"] subobjects.simps[of dl "StructTy ST Tys"])
    qed
  qed (simp_all add: getArrayOffsets.simps subobjects.simps)
qed

section \<open>What the tables hold\<close>

definition recorded :: "data_layout \<Rightarrow> code_maps \<Rightarrow> ir_type \<Rightarrow> nat \<Rightarrow> (nat \<times> ir_struct) list" where
  "recorded dl u Ty Offset =
     filter (\<lambda>(x, s). tracked_name s \<and> isInCastRelatedSet u s) (subobjects dl Ty Offset)"

lemma fold_skip: "(\<And>x s. \<not> P x \<Longrightarrow> f x s = s) \<Longrightarrow> fold f xs s = fold f (filter P xs) s"
  by (induction xs arbitrary: s) auto

lemma record_offset_insert:
  "record_offset u s x E = (if tracked_name s \<and> isInCastRelatedSet u s then map_insert x s E else E)"
  by (auto simp: record_offset_def)

lemma getArrayOffsets_recorded:
  "getArrayOffsets dl u Ty Offset E = fold (\<lambda>(x, s). map_insert x s) (recorded dl u Ty Offset) E"
proof -
  have "fold (\<lambda>(x, s). record_offset u s x) xs E =
      fold (\<lambda>(x, s). map_insert x s) (filter (\<lambda>(x, s). tracked_name s \<and> isInCastRelatedSet u s) xs) E" for xs
  proof (induction xs arbitrary: E)
    case (Cons p xs)
    obtain x s where "p = (x, s)" by (cases p) simp
    with Cons show ?case by (cases "tracked_name s"; cases "isInCastRelatedSet u s") (simp_all add: record_offset_insert)
  qed simp
  then show ?thesis by (simp add: getArrayOffsets_fold recorded_def)
qed

lemma getArrayOffsets_map:
  "map_find (getArrayOffsets dl u Ty Offset []) = map_of (recorded dl u Ty Offset)"
  by (simp add: getArrayOffsets_recorded map_of_fold_insert)

text \<open>
  The table of offsets is the first-wins map of the tracked, cast-related objects inside the value,
  an outer object coming before those inside it.
\<close>

theorem getArrayOffsets_first:
  "map_find (getArrayOffsets dl u Ty Offset []) = map_of (recorded dl u Ty Offset)"
  by (rule getArrayOffsets_map)

text \<open>The first objects at their offsets, \<open>V\<close> the offsets taken before.\<close>

fun firsts :: "nat set \<Rightarrow> (nat \<times> ir_struct) list \<Rightarrow> (nat \<times> ir_struct) list" where
  "firsts V [] = []"
| "firsts V ((x, s) # xs) = (if x \<in> V then firsts V xs else (x, s) # firsts (insert x V) xs)"

lemma firsts_iff:
  "(x, s) \<in> set (firsts V xs) \<longleftrightarrow> x \<notin> V \<and> map_of xs x = Some s"
  by (induction V xs rule: firsts.induct) auto

definition slot_has :: "struct_slots \<Rightarrow> nat \<Rightarrow> nat \<Rightarrow> bool" where
  "slot_has E k i \<longleftrightarrow> (case map_find E k of None \<Rightarrow> False | Some S \<Rightarrow> map_has S i)"

lemma slot_has_put:
  assumes "smap_ok E"
  shows "slot_has (case map_find E k of None \<Rightarrow> map_insert k (sset_add s []) E
     | Some S \<Rightarrow> map_put k (sset_add s S) E) k' i \<longleftrightarrow> slot_has E k' i \<or> k' = k \<and> i = sid s"
  using assms by (auto simp: slot_has_def map_of_map_insert map_of_map_put split: option.splits if_splits)

lemma smap_ok_put_slot:
  "smap_ok E \<Longrightarrow> smap_ok (case map_find E k of None \<Rightarrow> map_insert k (sset_add s []) E
     | Some S \<Rightarrow> map_put k (sset_add s S) E)"
  by (auto split: option.split)

lemma record_slot_fold:
  assumes "smap_ok E"
  shows "slot_has (fst (fold (\<lambda>(x, s). record_slot u s x) xs (E, V))) k i \<longleftrightarrow> slot_has E k i \<or>
    (\<exists>x s. (x, s) \<in> set (firsts (set V) (filter (\<lambda>(x, s). tracked_name s \<and> isInCastRelatedSet u s) xs)) \<and>
       x div 8 = k \<and> sid s = i)"
  using assms
proof (induction xs arbitrary: E V)
  case (Cons p xs)
  obtain x s where p: "p = (x, s)" by (cases p) simp
  let ?E = "case map_find E (x div 8) of None \<Rightarrow> map_insert (x div 8) (sset_add s []) E
     | Some S \<Rightarrow> map_put (x div 8) (sset_add s S) E"
  consider (taken) "x \<in> set V" | (new) "x \<notin> set V" "tracked_name s \<and> isInCastRelatedSet u s"
    | (other) "x \<notin> set V" "\<not> (tracked_name s \<and> isInCastRelatedSet u s)" by blast
  then show ?case
  proof cases
    case taken
    then have "record_slot u s x (E, V) = (E, V)" by (simp add: record_slot_def)
    with taken Cons show ?thesis by (auto simp: p)
  next
    case new
    then have "record_slot u s x (E, V) = (?E, set_insert x V)" by (simp add: record_slot_def Let_def)
    moreover have "smap_ok ?E" by (rule smap_ok_put_slot[OF Cons.prems])
    note Cons.IH[OF this, of "set_insert x V"]
    ultimately have "slot_has (fst (fold (\<lambda>(x, s). record_slot u s x) (p # xs) (E, V))) k i \<longleftrightarrow>
       (slot_has E k i \<or> k = x div 8 \<and> i = sid s) \<or>
       (\<exists>x' s'. (x', s') \<in> set (firsts (insert x (set V))
          (filter (\<lambda>(x, s). tracked_name s \<and> isInCastRelatedSet u s) xs)) \<and> x' div 8 = k \<and> sid s' = i)"
      by (simp add: p slot_has_put[OF Cons.prems])
    moreover have "firsts (set V) (filter (\<lambda>(x, s). tracked_name s \<and> isInCastRelatedSet u s) (p # xs)) =
        (x, s) # firsts (insert x (set V)) (filter (\<lambda>(x, s). tracked_name s \<and> isInCastRelatedSet u s) xs)"
      using new by (simp add: p)
    ultimately show ?thesis by (simp only: list.set insert_iff prod.inject) blast
  next
    case other
    then have "record_slot u s x (E, V) = (E, V)" by (auto simp: record_slot_def)
    moreover have "filter (\<lambda>(x, s). tracked_name s \<and> isInCastRelatedSet u s) (p # xs) =
        filter (\<lambda>(x, s). tracked_name s \<and> isInCastRelatedSet u s) xs" using other by (auto simp: p)
    ultimately show ?thesis using Cons.IH[OF Cons.prems, of V] by (simp add: p)
  qed
qed simp

text \<open>
  C22: The table of slots is the table of offsets grouped by eight bytes: a structure is in a slot exactly
  if it is the first tracked, cast-related object at one of the offsets of the slot.
\<close>

theorem getArrayAlignment_groups:
  "slot_has (fst (getArrayAlignment dl u Ty Offset ([], []))) k i \<longleftrightarrow>
     (\<exists>x s. map_find (getArrayOffsets dl u Ty Offset []) x = Some s \<and> x div 8 = k \<and> sid s = i)"
  using record_slot_fold[OF smap_ok_Nil, of u "subobjects dl Ty Offset" "[]" k i]
  by (simp add: getArrayAlignment_fold getArrayOffsets_map recorded_def[symmetric] firsts_iff slot_has_def)

section \<open>Inside the value\<close>

lemma alloc_array:
  assumes "good_tables dl" "ordinary dl (ArrayTy n El)"
  shows "getTypeAllocSize dl (ArrayTy n El) = n * getTypeAllocSize dl El"
proof -
  let ?a = "getAlignment dl El True" and ?s = "getTypeAllocSize dl El"
  from assms(2) have El: "ordinary dl El" "n * ?s < 2 ^ 59" by simp_all
  have a: "0 < ?a" using isPowerOf2_pos[OF ordinary_power[OF assms(1) El(1)]] by (simp add: getABITypeAlignment_def)
  have d: "?a dvd n * ?s" by (simp add: getTypeAllocSize_def alloc_size_def getABITypeAlignment_def alignTo_props(1)[OF a])
  have store: "store_size (getTypeSizeInBits dl (ArrayTy n El)) = n * ?s"
  proof (cases "n = 0")
    case True
    have "getTypeSizeInBits dl (ArrayTy 0 El) = 0" by (simp add: getTypeSizeInBits.simps[of dl "ArrayTy 0 El"])
    with True show ?thesis by (simp add: store_size_def)
  next
    case False
    then have "?s \<le> n * ?s" by simp
    with El(2) have "?s < 2 ^ 59" by (rule le_less_trans[rotated])
    moreover have "n * (8 * ?s) = 8 * (n * ?s)" by simp
    ultimately have "8 * ?s < 2 ^ 64" "n * (8 * ?s) < 2 ^ 64" "n * (8 * ?s) + 7 < 2 ^ 64" using El(2) by simp_all
    then have "wrap64 (8 * ?s) = 8 * ?s" "wrap64 (n * (8 * ?s)) = n * (8 * ?s)" "wrap64 (n * (8 * ?s) + 7) = n * (8 * ?s) + 7"
      by (simp_all only: mod_less)
    then have "getTypeSizeInBits dl (ArrayTy n El) = n * (8 * ?s)" "wrap64 (n * (8 * ?s) + 7) = n * (8 * ?s) + 7"
      by (simp_all add: getTypeSizeInBits.simps[of dl "ArrayTy n El"] getTypeAllocSize_def getABITypeAlignment_def)
    then show ?thesis by (simp only: store_size_def)
  qed
  have "alignTo (n * ?s) ?a = n * ?s"
  proof (cases "n * ?s = 0")
    case True
    then show ?thesis using alignTo_props(1,3)[OF a, of 0] nat_dvd_not_less[of "alignTo 0 ?a" ?a] by (cases "alignTo 0 ?a = 0") auto
  next
    case False
    with d have "?a \<le> n * ?s" by (intro dvd_imp_le) auto
    with El(2) alignTo_dvd[OF a d] show ?thesis by simp
  qed
  with store show ?thesis
    by (simp add: getTypeAllocSize_def[of dl "ArrayTy n El"] alloc_size_def getABITypeAlignment_def
        getAlignment.simps[of dl "ArrayTy n El"])
qed

lemma aggregate_small:
  assumes "tables_ok dl"
  shows "getAlignmentInfo dl AGGREGATE_ALIGN w True Ty < 2 ^ 32"
  using getAlignmentInfo_cases[OF assms, of AGGREGATE_ALIGN w Ty]
proof
  assume "\<exists>e\<in>set (Alignments dl). AlignType e = AGGREGATE_ALIGN \<and> getAlignmentInfo dl AGGREGATE_ALIGN w True Ty = ABIAlign e"
  then obtain e where "e \<in> set (Alignments dl)" "getAlignmentInfo dl AGGREGATE_ALIGN w True Ty = ABIAlign e" by blast
  then show ?thesis using assms by (fastforce simp: tables_ok_def align_elem_ok_def)
qed simp

lemma alloc_struct:
  assumes "good_tables dl" "ordinary dl (StructTy ST Tys)"
  shows "StructSize (getStructLayout dl ST Tys) \<le> getTypeAllocSize dl (StructTy ST Tys)"
proof -
  let ?L = "getStructLayout dl ST Tys" and ?a = "getABITypeAlignment dl (StructTy ST Tys)"
  from assms(2) have el: "isPacked ST \<or> (\<forall>Ty\<in>set Tys. isPowerOf2 (getABITypeAlignment dl Ty))"
    and space: "element_space dl (isPacked ST) Tys < 2 ^ 59" using ordinary_power[OF assms(1)] by auto
  have a: "0 < ?a" by (rule isPowerOf2_pos[OF ordinary_power[OF assms]])
  have size: "StructSize ?L \<le> 2 ^ 60" using sum_layout(5)[OF el] space by simp
  then have "wrap64 (8 * StructSize ?L) = 8 * StructSize ?L" "wrap64 (8 * StructSize ?L + 7) = 8 * StructSize ?L + 7"
    by (intro mod_less; simp)+
  then have store: "store_size (getTypeSizeInBits dl (StructTy ST Tys)) = StructSize ?L"
    by (simp add: getTypeSizeInBits.simps[of dl "StructTy ST Tys"] store_size_def getStructLayout_def)
  have "?a < 2 ^ 61"
  proof -
    have "getAlignmentInfo dl AGGREGATE_ALIGN 0 True (StructTy ST Tys) < 2 ^ 32"
      using assms(1) by (simp only: good_tables_def aggregate_small)
    moreover have "StructAlignment (finish_layout (place_elements dl (isPacked ST) Tys start_layout)) < 2 ^ 60"
      using struct_alignment(2)[OF el] space by simp
    ultimately show ?thesis
      by (cases "isPacked ST") (simp_all add: getABITypeAlignment_def getAlignment.simps[of dl "StructTy ST Tys"])
  qed
  with size alignTo_props(2)[OF a, of "StructSize ?L"] store show ?thesis
    by (simp add: getTypeAllocSize_def alloc_size_def)
qed

lemma member_inside:
  assumes "good_tables dl" "ordinary dl (StructTy ST Tys)" "i < length Tys"
  shows "getElementOffset (getStructLayout dl ST Tys) i + getTypeAllocSize dl (Tys ! i)
     \<le> getTypeAllocSize dl (StructTy ST Tys)"
proof -
  have "\<forall>Ty\<in>set Tys. isPowerOf2 (getABITypeAlignment dl Ty)"
    using ordinary_power[OF assms(1)] assms(2) by simp
  moreover have "element_space dl (isPacked ST) Tys < 2 ^ 63" using assms(2) by simp
  ultimately show ?thesis using sum_layout(3)[of ST Tys dl i] assms(3) alloc_struct[OF assms(1,2)] by fastforce
qed

lemma array_inside:
  assumes "i < (n :: nat)"
  shows "i * a + a \<le> n * a"
proof -
  have "Suc i * a \<le> n * a" using assms by (intro mult_right_mono) auto
  then show ?thesis by simp
qed

lemma subobjects_in:
  assumes "good_tables dl"
  shows "ordinary dl Ty \<Longrightarrow> Offset + getTypeAllocSize dl Ty < 2 ^ 32 \<Longrightarrow> (x, s) \<in> set (subobjects dl Ty Offset)
    \<Longrightarrow> Offset \<le> x \<and> x + getTypeAllocSize dl (StructTy (fst s) (snd s)) \<le> Offset + getTypeAllocSize dl Ty"
  using assms
proof (induction dl Ty Offset rule: subobjects.induct)
  case (1 dl Ty Offset)
  show ?case
  proof (cases Ty)
    case (ArrayTy n El)
    let ?a = "getTypeAllocSize dl El"
    have all: "getTypeAllocSize dl (ArrayTy n El) = n * ?a" using "1.prems"(1,4) ArrayTy by (intro alloc_array) simp_all
    with "1.prems" ArrayTy have El: "ordinary dl El" "Offset + n * ?a < 2 ^ 32" by simp_all
    from "1.prems"(3) ArrayTy obtain i where i: "i < n mod 2 ^ 32"
      "(x, s) \<in> set (subobjects dl El ((Offset + i * ?a) mod 2 ^ 32))"
      by (auto simp: subobjects.simps[of dl "ArrayTy n El"])
    then have "i < n" using mod_less_eq_dividend[of n "2 ^ 32"] by linarith
    from array_inside[OF this, of ?a] El(2) have b: "Offset + i * ?a + ?a \<le> Offset + n * ?a" "Offset + i * ?a + ?a < 2 ^ 32"
      by linarith+
    then have m: "(Offset + i * ?a) mod 2 ^ 32 = Offset + i * ?a" by simp
    from "1.IH"(1)[OF ArrayTy, of i] i El(1) b "1.prems"(4) m ArrayTy all
    show ?thesis by auto
  next
    case (StructTy ST Tys)
    let ?o = "getElementOffset (getStructLayout dl ST Tys)"
    from "1.prems"(3) StructTy have int: "isInterestingStructType (ST, Tys)"
      by (auto simp: subobjects.simps[of dl "StructTy ST Tys"] split: if_splits)
    from "1.prems"(3) StructTy int consider "x = Offset" "s = (ST, Tys)"
      | i where "i < length Tys" "(x, s) \<in> set (subobjects dl (Tys ! i) ((?o i + Offset) mod 2 ^ 32))"
      by (auto simp: subobjects.simps[of dl "StructTy ST Tys"])
    then show ?thesis
    proof cases
      case 2
      have inside: "?o i + getTypeAllocSize dl (Tys ! i) \<le> getTypeAllocSize dl Ty"
        using member_inside[OF "1.prems"(4) _ 2(1)] "1.prems"(1) StructTy by simp
      with "1.prems"(2) have m: "(?o i + Offset) mod 2 ^ 32 = ?o i + Offset" by simp
      have "ordinary dl (Tys ! i)" using "1.prems"(1) StructTy 2(1) by simp
      with "1.IH"(2)[OF StructTy int, of i] 2 inside "1.prems"(2,4) m show ?thesis by auto
    qed (simp add: StructTy)
  qed (use "1.prems"(3) in \<open>simp_all add: subobjects.simps\<close>)
qed

text \<open>
  C23: In a value of less than \<open>2 ^ 32\<close> bytes every object the table of offsets mentions lies inside the value.
\<close>

theorem subobjects_inside:
  assumes "good_tables dl" "ordinary dl Ty" "getTypeAllocSize dl Ty < 2 ^ 32"
    and "map_find (getArrayOffsets dl u Ty 0 []) x = Some s"
  shows "x + getTypeAllocSize dl (StructTy (fst s) (snd s)) \<le> getTypeAllocSize dl Ty"
proof -
  have "(x, s) \<in> set (recorded dl u Ty 0)"
    using assms(4) by (simp add: getArrayOffsets_map map_of_SomeD)
  then have "(x, s) \<in> set (subobjects dl Ty 0)" by (simp add: recorded_def)
  from subobjects_in[OF assms(1,2) _ this] assms(3) show ?thesis by simp
qed

definition tracked :: "nat \<Rightarrow> string \<Rightarrow> struct_info" where
  "tracked i n = \<lparr>structId = i, structName = Some (''trackedtype.'' @ n), isLiteral = False, isOpaque = False,
     isPacked = False\<rparr>"

lemma tracked_fields [simp]:
  "structId (tracked i n) = i" "structName (tracked i n) = Some (''trackedtype.'' @ n)" "\<not> isLiteral (tracked i n)"
  "\<not> isOpaque (tracked i n)" "\<not> isPacked (tracked i n)"
  by (simp_all add: tracked_def)

definition demo_maps :: code_maps where
  "demo_maps = empty_maps\<lparr>bitypeCastRelatedClass := [(''A'', 2), (''B'', 2)], bitypeCodeMap := [(''A'', 1), (''B'', 2)]\<rparr>"

definition demo_B :: ir_type where
  "demo_B = StructTy (tracked 3 ''B'') [IntegerTy 64]"

definition demo_A :: ir_type where
  "demo_A = StructTy (tracked 2 ''A'') [IntegerTy 32, demo_B]"

definition demo_layout :: data_layout where
  "demo_layout = \<lparr>BigEndian = False, AllocaAddrSpace = 0, StackNaturalAlign = 0, ProgramAddrSpace = 0,
     ManglingMode = MM_None, LegalIntWidths = [], NonIntegralAddressSpaces = [],
     Alignments = [\<lparr>AlignType = AGGREGATE_ALIGN, TypeBitWidth = 0, ABIAlign = 0, PrefAlign = 8\<rparr>,
       \<lparr>AlignType = INTEGER_ALIGN, TypeBitWidth = 32, ABIAlign = 4, PrefAlign = 4\<rparr>,
       \<lparr>AlignType = INTEGER_ALIGN, TypeBitWidth = 64, ABIAlign = 8, PrefAlign = 8\<rparr>],
     Pointers = [\<lparr>pABIAlign = 8, pPrefAlign = 8, TypeByteWidth = 8, AddressSpace = 0, IndexWidth = 8\<rparr>]\<rparr>"

lemma demo_good: "good_tables demo_layout"
  by (simp add: demo_layout_def good_tables_def tables_ok_def has_default_space_def align_elem_ok_def
      pointer_elem_ok_def pow2_or_0_def isPowerOf2_def less_AlignTypeEnum_def less_eq_AlignTypeEnum_def)

lemmas layout_simps = getTypeAllocSize_def getABITypeAlignment_def getTypeSizeInBits.simps getAlignment.simps getAlignmentInfo.simps
  findAlignmentLowerBound_def store_size_def alloc_size_def alignTo_def finish_layout_def place_one_def start_layout_def
  less_AlignTypeEnum_def less_eq_AlignTypeEnum_def getStructLayout_def getElementOffset_def Let_def

lemma demo_members: "getTypeSizeInBits demo_layout (IntegerTy 64) = 64" "getAlignment demo_layout (IntegerTy 64) True = 8"
 "getTypeSizeInBits demo_layout (IntegerTy 32) = 32" "getAlignment demo_layout (IntegerTy 32) True = 4"
  "getTypeSizeInBits demo_layout demo_B = 64" "getAlignment demo_layout demo_B True = 8"
  by (simp_all add: layout_simps demo_layout_def tracked_def demo_B_def)

lemma demo_places:
  "StructSize (place_elements demo_layout False [IntegerTy 32, demo_B] start_layout) = 16"
  "StructAlignment (place_elements demo_layout False [IntegerTy 32, demo_B] start_layout) = 8"
  "MemberOffsets (place_elements demo_layout False [IntegerTy 32, demo_B] start_layout) = [0, 8]"
  by (simp_all add: demo_members alloc_size_def store_size_def alignTo_def place_one_def start_layout_def Let_def)
lemma demo_agg: "getAlignmentInfo demo_layout AGGREGATE_ALIGN 0 True Ty = 0"
  by (simp add: getAlignmentInfo.simps findAlignmentLowerBound_def demo_layout_def Let_def less_AlignTypeEnum_def)
lemma demo_A_size: "getTypeAllocSize demo_layout demo_A = 16"
proof -
  let ?P = "finish_layout (place_elements demo_layout False [IntegerTy 32, demo_B] start_layout)"
  have P: "StructSize ?P = 16" "StructAlignment ?P = 8"
    unfolding finish_layout_def Let_def demo_places by (simp_all add: demo_places)
  have [simp]: "isPacked (tracked 2 ''A'') = False" by simp
  have "getTypeSizeInBits demo_layout demo_A = wrap64 (8 * StructSize ?P)"
    unfolding demo_A_def getTypeSizeInBits.simps[of demo_layout "StructTy (tracked 2 ''A'') [IntegerTy 32, demo_B]"]
    by simp
  then have "getTypeSizeInBits demo_layout demo_A = 8 * StructSize ?P" unfolding P by simp
  moreover have "getABITypeAlignment demo_layout demo_A = max 0 (StructAlignment ?P)"
    unfolding demo_A_def getABITypeAlignment_def
      getAlignment.simps[of demo_layout "StructTy (tracked 2 ''A'') [IntegerTy 32, demo_B]"]
    by (simp add: demo_agg)
  ultimately show ?thesis unfolding getTypeAllocSize_def P by (simp add: alloc_size_def store_size_def alignTo_def)
qed

lemma demo_subobjects_B: "subobjects demo_layout demo_B x = [(x, tracked 3 ''B'', [IntegerTy 64])]"
  unfolding demo_B_def subobjects.simps[of _ "StructTy (tracked 3 ''B'') [IntegerTy 64]"]
  by (simp add: subobjects.simps[of _ "IntegerTy 64"] isInterestingStructType_def)

lemma demo_subobjects:
  "subobjects demo_layout demo_A 0 = [(0, tracked 2 ''A'', [IntegerTy 32, demo_B]), (8, tracked 3 ''B'', [IntegerTy 64])]"
proof -
  have i: "isInterestingStructType (tracked 2 ''A'', [IntegerTy 32, demo_B])" "[0..<length [IntegerTy 32, demo_B]] = [0, 1]"
    by (simp_all add: isInterestingStructType_def upt_rec)
  have o1: "getElementOffset (getStructLayout demo_layout (tracked 2 ''A'') [IntegerTy 32, demo_B]) 1 = 8"
    unfolding getElementOffset_def getStructLayout_def finish_layout_def Let_def
    using demo_places(3) by (simp del: place_elements.simps)
  show ?thesis
    unfolding demo_A_def subobjects.simps[of _ "StructTy (tracked 2 ''A'') [IntegerTy 32, demo_B]"] ir_type.case i(2)
    using i(1) o1 by (simp add: subobjects.simps[of _ "IntegerTy 32"] demo_subobjects_B)
qed

lemma demo_offsets:
  "map_find (getArrayOffsets demo_layout demo_maps demo_A 0 []) 8 = Some (tracked 3 ''B'', [IntegerTy 64])"
proof -
  have "class_name (tracked 3 ''B'', [IntegerTy 64]) = ''B''" by code_simp
  then have "tracked_name (tracked 3 ''B'', [IntegerTy 64]) \<and> isInCastRelatedSet demo_maps (tracked 3 ''B'', [IntegerTy 64])"
    by (simp add: getName_def tracked_def startswith_def isInCastRelatedSet_def demo_maps_def)
  then show ?thesis by (simp add: getArrayOffsets_map recorded_def demo_subobjects)
qed
lemma demo_ordinary: "ordinary demo_layout demo_A"
proof -
  have "getTypeAllocSize demo_layout (IntegerTy 64) = 8" "getTypeAllocSize demo_layout (IntegerTy 32) = 4"
    "getTypeAllocSize demo_layout demo_B = 8" "getABITypeAlignment demo_layout (IntegerTy 64) = 8"
    "getABITypeAlignment demo_layout (IntegerTy 32) = 4" "getABITypeAlignment demo_layout demo_B = 8"
    by (simp_all add: getTypeAllocSize_def getABITypeAlignment_def demo_members alloc_size_def store_size_def alignTo_def)
  then show ?thesis by (simp add: demo_A_def element_space_def) (simp add: demo_B_def element_space_def)
qed

lemma subobjects_inside_witness:
  "8 + getTypeAllocSize demo_layout (StructTy (tracked 3 ''B'') [IntegerTy 64]) \<le> getTypeAllocSize demo_layout demo_A"
  using subobjects_inside[OF demo_good demo_ordinary _ demo_offsets] demo_A_size by simp

section \<open>The objects at offset 0\<close>

text \<open>The types of C++ values: no array is empty, and none has \<open>2 ^ 32\<close> elements.\<close>

fun filled :: "ir_type \<Rightarrow> bool" where
  "filled (ArrayTy n Ty) \<longleftrightarrow> 0 < n \<and> n < 2 ^ 32 \<and> filled Ty"
| "filled (StructTy ST Tys) \<longleftrightarrow> (\<forall>Ty\<in>set Tys. filled Ty)"
| "filled _ \<longleftrightarrow> True"

lemma fold_has:
  fixes f :: "nat \<Rightarrow> struct_set \<Rightarrow> struct_set"
  assumes "\<And>i z. i \<in> set is \<Longrightarrow> map_has (f i z) k \<longleftrightarrow> map_has z k \<or> P i"
  shows "map_has (fold f is z) k \<longleftrightarrow> map_has z k \<or> (\<exists>i\<in>set is. P i)"
  using assms by (induction "is" arbitrary: z) auto

definition zero_at :: "data_layout \<Rightarrow> ir_type \<Rightarrow> nat \<Rightarrow> bool" where
  "zero_at dl Ty k \<longleftrightarrow> (\<exists>s. (0, s) \<in> set (subobjects dl Ty 0) \<and> tracked_name s \<and> sid s = k)"

lemma zero_array:
  assumes "good_tables dl" "ordinary dl El" "n * getTypeAllocSize dl El < 2 ^ 32" "0 < n" "n < 2 ^ 32"
  shows "zero_at dl (ArrayTy n El) k \<longleftrightarrow> zero_at dl El k"
proof -
  let ?a = "getTypeAllocSize dl El"
  have sub: "subobjects dl (ArrayTy n El) 0 = concat (map (\<lambda>i. subobjects dl El (i * ?a mod 2 ^ 32)) [0..<n])"
    using assms(5) by (simp add: subobjects.simps[of dl "ArrayTy n El"])
  have "(0, s) \<in> set (subobjects dl El 0)" if i: "i < n" "(0, s) \<in> set (subobjects dl El (i * ?a mod 2 ^ 32))" for i s
  proof -
    from array_inside[OF i(1), of ?a] assms(3) have b: "i * ?a + ?a < 2 ^ 32" by linarith
    then have m: "i * ?a mod 2 ^ 32 = i * ?a" by simp
    from subobjects_in[OF assms(1,2) b, of 0 s] i(2) m have "i * ?a = 0" by simp
    with i(2) show ?thesis by simp
  qed
  moreover have "(0, s) \<in> set (subobjects dl (ArrayTy n El) 0) \<longleftrightarrow>
      (\<exists>i<n. (0, s) \<in> set (subobjects dl El (i * ?a mod 2 ^ 32)))" for s
    unfolding sub by auto
  moreover have "0 * ?a mod 2 ^ 32 = 0" by simp
  ultimately have "(0, s) \<in> set (subobjects dl (ArrayTy n El) 0) \<longleftrightarrow> (0, s) \<in> set (subobjects dl El 0)" for s
    using assms(4) by metis
  then show ?thesis by (simp add: zero_at_def)
qed

lemma zero_struct:
  assumes "good_tables dl" "ordinary dl (StructTy ST Tys)" "getTypeAllocSize dl (StructTy ST Tys) < 2 ^ 32"
    "isInterestingStructType (ST, Tys)"
  shows "zero_at dl (StructTy ST Tys) k \<longleftrightarrow> tracked_name (ST, Tys) \<and> structId ST = k \<or>
    (\<exists>i<length Tys. getElementOffset (getStructLayout dl ST Tys) i mod 2 ^ 32 = 0 \<and> zero_at dl (Tys ! i) k)"
proof -
  let ?o = "getElementOffset (getStructLayout dl ST Tys)"
  have sub: "(0, s) \<in> set (subobjects dl (StructTy ST Tys) 0) \<longleftrightarrow> s = (ST, Tys) \<or>
      (\<exists>i<length Tys. (0, s) \<in> set (subobjects dl (Tys ! i) (?o i mod 2 ^ 32)))" for s
    using assms(4) by (auto simp: subobjects.simps[of dl "StructTy ST Tys"])
  have small: "?o i mod 2 ^ 32 = ?o i" "?o i + getTypeAllocSize dl (Tys ! i) < 2 ^ 32" "ordinary dl (Tys ! i)"
    if "i < length Tys" for i
    using member_inside[OF assms(1,2) that] assms(2,3) that by simp_all
  have el: "(0, s) \<in> set (subobjects dl (Tys ! i) (?o i mod 2 ^ 32)) \<longleftrightarrow>
      ?o i mod 2 ^ 32 = 0 \<and> (0, s) \<in> set (subobjects dl (Tys ! i) 0)" if "i < length Tys" for i s
    using subobjects_in[OF assms(1) small(3)[OF that] small(2)[OF that], of 0 s] small(1)[OF that] by auto
  have "(0, s) \<in> set (subobjects dl (StructTy ST Tys) 0) \<longleftrightarrow> s = (ST, Tys) \<or>
      (\<exists>i<length Tys. ?o i mod 2 ^ 32 = 0 \<and> (0, s) \<in> set (subobjects dl (Tys ! i) 0))" for s
    using sub[of s] el by metis
  then show ?thesis unfolding zero_at_def by (metis fst_conv)
qed

lemma getOffsetZeroArray_has:
  assumes "good_tables dl"
  shows "ordinary dl Ty \<Longrightarrow> filled Ty \<Longrightarrow> getTypeAllocSize dl Ty < 2 ^ 32 \<Longrightarrow>
    map_has (getOffsetZeroArray dl Ty z) k \<longleftrightarrow> map_has z k \<or> zero_at dl Ty k"
proof (induction Ty arbitrary: z)
  case (ArrayTy n El)
  note sz = alloc_array[OF assms ArrayTy.prems(1)]
  have "getTypeAllocSize dl El \<le> n * getTypeAllocSize dl El" using ArrayTy.prems(2) by simp
  moreover have "n * getTypeAllocSize dl El < 2 ^ 32" using ArrayTy.prems(1,3) sz by simp
  ultimately have "getTypeAllocSize dl El < 2 ^ 32" by (rule le_less_trans)
  with ArrayTy zero_array[OF assms, of El n k] sz show ?case
    by (simp add: getOffsetZeroArray.simps[of dl "ArrayTy n El"])
next
  case (StructTy ST Tys)
  let ?o = "getElementOffset (getStructLayout dl ST Tys)"
  show ?case
  proof (cases "isInterestingStructType (ST, Tys)")
    case True
    have IH: "map_has (getOffsetZeroArray dl (Tys ! i) z) k \<longleftrightarrow> map_has z k \<or> zero_at dl (Tys ! i) k"
      if "i < length Tys" for i z
      using StructTy.IH[of "Tys ! i" z] StructTy.prems member_inside[OF assms StructTy.prems(1) that] that
      by simp
    let ?f = "\<lambda>i z. if ?o i mod 2 ^ 32 \<noteq> 0 then z else getOffsetZeroArray dl (Tys ! i) z"
    let ?z = "if tracked_name (ST, Tys) then sset_add (ST, Tys) z else z"
    have "getOffsetZeroArray dl (StructTy ST Tys) z = fold ?f [0..<length Tys] ?z"
      using True by (simp only: getOffsetZeroArray.simps[of dl "StructTy ST Tys"] getOffetZeroStruct.simps
          ir_type.case if_True)
    moreover have "map_has (fold ?f [0..<length Tys] ?z) k \<longleftrightarrow> map_has ?z k \<or>
        (\<exists>i\<in>set [0..<length Tys]. ?o i mod 2 ^ 32 = 0 \<and> zero_at dl (Tys ! i) k)"
      by (rule fold_has) (use IH in auto)
    moreover have "(\<exists>i\<in>set [0..<length Tys]. ?o i mod 2 ^ 32 = 0 \<and> zero_at dl (Tys ! i) k) \<longleftrightarrow>
        (\<exists>i<length Tys. ?o i mod 2 ^ 32 = 0 \<and> zero_at dl (Tys ! i) k)"
      unfolding set_upt atLeast0LessThan Bex_def lessThan_iff by (rule refl)
    moreover have "map_has ?z k \<longleftrightarrow> map_has z k \<or> tracked_name (ST, Tys) \<and> structId ST = k"
      by (auto simp: map_of_map_insert)
    ultimately show ?thesis
      using zero_struct[OF assms StructTy.prems(1,3) True, of k] by (simp only: disj_assoc disj_commute disj_left_commute)
  next
    case False
    then show ?thesis
      by (simp add: getOffsetZeroArray.simps[of dl "StructTy ST Tys"] zero_at_def
          subobjects.simps[of dl "StructTy ST Tys"])
  qed
qed (simp_all add: getOffsetZeroArray.simps zero_at_def subobjects.simps)

text \<open>
  The set of objects at offset 0 is exactly the tracked objects the value contains at offset 0, at any
  depth of nesting.
\<close>

theorem getOffsetZeroArray_zero:
  assumes "good_tables dl" "ordinary dl Ty" "filled Ty" "getTypeAllocSize dl Ty < 2 ^ 32"
  shows "map_has (getOffsetZeroArray dl Ty []) k \<longleftrightarrow>
    (\<exists>s. (0, s) \<in> set (subobjects dl Ty 0) \<and> tracked_name s \<and> sid s = k)"
  using getOffsetZeroArray_has[OF assms, of "[]" k] by (simp add: zero_at_def)

lemma getOffsetZeroArray_zero_witness:
  "map_has (getOffsetZeroArray demo_layout demo_A []) 2 \<and> \<not> map_has (getOffsetZeroArray demo_layout demo_A []) 3"
proof -
  have "filled demo_A" "getTypeAllocSize demo_layout demo_A < 2 ^ 32" using demo_A_size
    by (simp_all add: demo_A_def demo_B_def)
  note z = getOffsetZeroArray_zero[OF demo_good demo_ordinary this]
  have "tracked_name (tracked 2 ''A'', [IntegerTy 32, demo_B])" by (simp add: getName_def startswith_def)
  then show ?thesis unfolding z by (simp add: demo_subobjects)
qed

end
