(* ===== verification/PassIR.thy ===== *)
theory PassIR
  imports SubObjects
begin

text \<open>
  What the passes see of a function: its instructions with their operands, and the queries of
  \<open>lib/Transforms/Utils/BitypeUtil.cpp\<close> about them, among them \<open>findAllocaForValue\<close> and \<open>isSafeStackAlloca\<close>. An
  instruction is named by a number; the numbers are in the order of the addresses of the instructions, because a
  \<open>std::set\<close> of instructions is ordered by address. LLVM keeps the uses of a value as a list of operands; here a
  user appears once, in the order of the function, however often it has the value as an operand.
\<close>

section \<open>Functions\<close>

datatype ir_value = Inst nat | Global nat | Arg nat | ConstInt "64 word" | OtherValue nat

text \<open>What a call calls: a function by name, a value, or one of the two intrinsics the passes know.\<close>

datatype 'v callee = Direct string | Indirect 'v | LifetimeStart | LifetimeEnd

text \<open>
  The instructions the passes tell apart. An \<open>Alloca\<close> has its type, its length and its alignment, a
  \<open>GetElementPtr\<close> the type of its result, a \<open>BitCast\<close> the type its operand points to (\<open>None\<close> for a vector or
  number).
\<close>

datatype 'v inst_op =
    Alloca ir_type 'v nat
  | Load 'v
  | Store 'v 'v
  | VAArg 'v
  | GetElementPtr ir_type 'v "'v list"
  | BitCast "ir_type option" 'v
  | IntToPtr 'v
  | PtrToInt 'v
  | OtherCast 'v
  | PHI "'v list"
  | Select 'v 'v 'v
  | Call "'v callee" "'v list"
  | Invoke "'v callee" "'v list"
  | Ret "'v option"
  | OtherInst "'v list"

record ir_inst =
  inst_id :: nat
  inst_op :: "ir_value inst_op"
  is_pointer :: bool

record fn_arg =
  hasByValAttr :: bool
  pointee :: ir_type

record ir_function =
  fun_name :: string
  fun_args :: "fn_arg list"
  fun_blocks :: "ir_inst list list"

abbreviation insts :: "ir_function \<Rightarrow> ir_inst list" where
  "insts F \<equiv> concat (fun_blocks F)"

abbreviation val_of :: "ir_inst \<Rightarrow> ir_value" where
  "val_of I \<equiv> Inst (inst_id I)"

definition find_inst :: "ir_function \<Rightarrow> ir_value \<Rightarrow> ir_inst option" where
  "find_inst F V = (case V of Inst i \<Rightarrow> find (\<lambda>I. inst_id I = i) (insts F) | _ \<Rightarrow> None)"

definition users :: "ir_function \<Rightarrow> ir_inst \<Rightarrow> ir_inst list" where
  "users F V = filter (\<lambda>I. val_of V \<in> set_inst_op (inst_op I)) (insts F)"

text \<open>A declaration has no blocks.\<close>

abbreviation isDeclaration :: "ir_function \<Rightarrow> bool" where
  "isDeclaration F \<equiv> fun_blocks F = []"

definition isInterestingFn :: "ir_function \<Rightarrow> bool" where
  "isInterestingFn F \<longleftrightarrow>
     \<not> (fun_blocks F = [] \<or> hd (fun_blocks F) = [] \<or> startswith (fun_name F) ''__init_global_object'')"

text \<open>The instruction after one in its block; \<open>None\<close> is the null pointer.\<close>

fun next_in_block :: "nat \<Rightarrow> ir_inst list \<Rightarrow> nat option" where
  "next_in_block i (I # J # B) = (if inst_id I = i then Some (inst_id J) else next_in_block i (J # B))"
| "next_in_block i _ = None"

definition findNextInstruction :: "ir_function \<Rightarrow> nat \<Rightarrow> nat option" where
  "findNextInstruction F CurInst =
     (case find (\<lambda>B. \<exists>I\<in>set B. inst_id I = CurInst) (fun_blocks F) of
        None \<Rightarrow> None | Some B \<Rightarrow> next_in_block CurInst B)"

section \<open>The variable a value comes from\<close>

text \<open>
  \<open>findAllocaForValue\<close>, over the incoming values of a \<open>PHI\<close> (\<open>PN\<close>) still to be visited: the result is the number of
  the \<open>alloca\<close> or \<open>None\<close> for the null pointer. Nothing stops the recursion at a \<open>PHI\<close> it is already visiting but at
  the one whose incoming values it goes through; the outer \<open>None\<close> is a recursion that does not end.
\<close>

partial_function (option) incoming_alloca ::
  "ir_function \<Rightarrow> ir_value list \<Rightarrow> nat option \<Rightarrow> nat option \<Rightarrow> nat option option" where
  "incoming_alloca F Values PN Res =
     (case Values of
        [] \<Rightarrow> Some Res
      | IncValue # Values' \<Rightarrow>
          if PN \<noteq> None \<and> IncValue = Inst (the PN) then incoming_alloca F Values' PN Res
          else Option.bind
            (case find_inst F IncValue of
               None \<Rightarrow> Some None
             | Some I \<Rightarrow>
                 (case inst_op I of
                    Alloca Ty n a \<Rightarrow> Some (Some (inst_id I))
                  | BitCast Ty V \<Rightarrow> incoming_alloca F [V] None None
                  | IntToPtr V \<Rightarrow> incoming_alloca F [V] None None
                  | PtrToInt V \<Rightarrow> incoming_alloca F [V] None None
                  | OtherCast V \<Rightarrow> incoming_alloca F [V] None None
                  | PHI Vs \<Rightarrow> incoming_alloca F Vs (Some (inst_id I)) None
                  | _ \<Rightarrow> Some None))
            (\<lambda>IncValueAI.
               if IncValueAI = None \<or> (Res \<noteq> None \<and> IncValueAI \<noteq> Res) then Some None
               else incoming_alloca F Values' PN IncValueAI))"

definition findAllocaForValue :: "ir_function \<Rightarrow> ir_value \<Rightarrow> nat option option" where
  "findAllocaForValue F V = incoming_alloca F [V] None None"

section \<open>Variables that stay inside their function\<close>

datatype use_verdict = Harmless | Unsafe | Follow

text \<open>The \<open>switch\<close> over a user \<open>I\<close> of the value \<open>V\<close> that comes from the variable \<open>AI\<close>.\<close>

definition const_size :: "ir_inst \<Rightarrow> bool" where
  "const_size AI = (case inst_op AI of Alloca Ty n a \<Rightarrow> (case n of ConstInt c \<Rightarrow> True | _ \<Rightarrow> False) | _ \<Rightarrow> False)"

definition allocates_pointer :: "ir_inst \<Rightarrow> bool" where
  "allocates_pointer AI =
     (case inst_op AI of Alloca Ty n a \<Rightarrow> (case Ty of PointerTy s \<Rightarrow> True | _ \<Rightarrow> False) | _ \<Rightarrow> False)"

definition judge_use :: "ir_inst \<Rightarrow> ir_inst \<Rightarrow> ir_inst \<Rightarrow> use_verdict" where
  "judge_use AI V I =
     (case inst_op I of
        Load p \<Rightarrow> Harmless
      | VAArg p \<Rightarrow> Harmless
      | Store v p \<Rightarrow>
          if val_of V = v then (if p = val_of AI \<and> \<not> allocates_pointer AI then Harmless else Unsafe) else Harmless
      | GetElementPtr Ty p idx \<Rightarrow> if const_size AI then Follow else Unsafe
      | BitCast Ty v \<Rightarrow> Follow
      | IntToPtr v \<Rightarrow> Follow
      | PHI vs \<Rightarrow> Follow
      | PtrToInt v \<Rightarrow> Follow
      | Select c a b \<Rightarrow> Follow
      | Call f args \<Rightarrow>
          if f = LifetimeStart \<or> f = LifetimeEnd then Harmless
          else if val_of V \<in> set args \<and> is_pointer V then Unsafe else Harmless
      | Invoke f args \<Rightarrow> if val_of V \<in> set args \<and> is_pointer V then Unsafe else Harmless
      | _ \<Rightarrow> Unsafe)"

fun scan_uses :: "ir_inst \<Rightarrow> ir_inst \<Rightarrow> ir_inst list \<Rightarrow> nat list \<times> ir_inst list \<Rightarrow> (nat list \<times> ir_inst list) option" where
  "scan_uses AI V [] S = Some S"
| "scan_uses AI V (I # Is) (Visited, WorkList) =
     (case judge_use AI V I of
        Harmless \<Rightarrow> scan_uses AI V Is (Visited, WorkList)
      | Unsafe \<Rightarrow> None
      | Follow \<Rightarrow>
          scan_uses AI V Is
            (if inst_id I \<in> set Visited then (Visited, WorkList) else (inst_id I # Visited, I # WorkList)))"

text \<open>Every instruction enters the list of work at most once.\<close>

abbreviation inst_ids :: "ir_function \<Rightarrow> nat set" where
  "inst_ids F \<equiv> inst_id ` set (insts F)"

abbreviation work_left :: "ir_function \<Rightarrow> nat list \<times> ir_inst list \<Rightarrow> nat" where
  "work_left F S \<equiv> 2 * card (inst_ids F - set (fst S)) + length (snd S)"

lemma scan_uses_measure:
  assumes "scan_uses AI V Is S = Some S'" "set Is \<subseteq> set (insts F)"
  shows "work_left F S' \<le> work_left F S"
  using assms
proof (induction AI V Is S rule: scan_uses.induct)
  case (2 AI V I Is Visited WorkList)
  have less: "inst_id I \<notin> set Visited \<Longrightarrow> card (inst_ids F - set (inst_id I # Visited)) < card (inst_ids F - set Visited)"
    using "2.prems"(2) by (intro psubset_card_mono) auto
  show ?case
  proof (cases "judge_use AI V I")
    case Harmless
    with 2 show ?thesis by simp
  next
    case Unsafe
    with 2 show ?thesis by simp
  next
    case Follow
    with 2 have s: "work_left F S' \<le> work_left F (if inst_id I \<in> set Visited then (Visited, WorkList)
        else (inst_id I # Visited, I # WorkList))" by simp
    also have "\<dots> \<le> work_left F (Visited, WorkList)" using less by (cases "inst_id I \<in> set Visited") auto
    finally show ?thesis .
  qed
qed simp

function safe_stack_loop :: "ir_function \<Rightarrow> ir_inst \<Rightarrow> nat list \<Rightarrow> ir_inst list \<Rightarrow> bool" where
  "safe_stack_loop F AI Visited [] = True"
| "safe_stack_loop F AI Visited (V # WorkList) =
     (case scan_uses AI V (users F V) (Visited, WorkList) of
        None \<Rightarrow> False
      | Some S \<Rightarrow> safe_stack_loop F AI (fst S) (snd S))"
  by pat_completeness auto
termination
proof (relation "measure (\<lambda>(F, AI, Visited, WorkList). work_left F (Visited, WorkList))", goal_cases)
  case (2 F AI Visited V WorkList S)
  have "set (users F V) \<subseteq> set (insts F)" by (auto simp: users_def)
  from scan_uses_measure[OF 2 this] show ?case by (simp add: case_prod_beta)
qed simp

definition isSafeStackAlloca :: "ir_function \<Rightarrow> ir_inst \<Rightarrow> bool" where
  "isSafeStackAlloca F AI = safe_stack_loop F AI [] [AI]"

end
