(* ===== verification/SafeCode.thy ===== *)
theory SafeCode
  imports SubObjects "HOL-Library.Signed_Division"
begin

text \<open>
  The part of \<open>lib/Transforms/Utils/BitypeUtil.cpp\<close> that computes the safe-cast arrays: the table of
  the types of a module with their parents and phantom types, the closure of both, the set of code
  numbers an object of a class may be cast to, and the array that holds the set as bits, after two bytes
  with the index of the class. A global variable is a name with its initialiser, \<open>moduleGlobals\<close> are
  those added to the module, and a pointer to one is its position there.
\<close>

unbundle bit_operations_syntax

section \<open>The types of a module\<close>

record TypeDetailInfo =
  TypeIndex :: nat
  TypeName :: string

record TypeInfo =
  StructOf :: ir_struct
  DetailInfo :: TypeDetailInfo
  ElementSize :: nat
  DirectParents :: "TypeDetailInfo list"
  DirectPhantomTypes :: "TypeDetailInfo list"
  AllParents :: "TypeDetailInfo list"
  AllPhantomTypes :: "TypeDetailInfo list"

definition setTypeDetailInfo :: "ir_struct \<Rightarrow> nat \<Rightarrow> TypeDetailInfo" where
  "setTypeDetailInfo STy n = \<lparr>TypeIndex = n, TypeName = class_name STy\<rparr>"

text \<open>The structures among the elements, each with index 0 until its type is found.\<close>

fun struct_elements :: "ir_type list \<Rightarrow> TypeDetailInfo list" where
  "struct_elements [] = []"
| "struct_elements (StructTy ST Tys # Es) =
     (if isInterestingStructType (ST, Tys) then setTypeDetailInfo (ST, Tys) 0 # struct_elements Es
      else struct_elements Es)"
| "struct_elements (_ # Es) = struct_elements Es"

definition parsingTypeInfo :: "ir_struct \<Rightarrow> nat \<Rightarrow> TypeInfo" where
  "parsingTypeInfo STy AllTypeNum =
     \<lparr>StructOf = STy, DetailInfo = setTypeDetailInfo STy AllTypeNum, ElementSize = length (snd STy),
      DirectParents = struct_elements (snd STy), DirectPhantomTypes = [], AllParents = [],
      AllPhantomTypes = []\<rparr>"

abbreviation own_type :: "ir_struct \<Rightarrow> bool" where
  "own_type ST \<equiv> isInterestingStructType ST \<and> tracked_name ST \<and> \<not> endswith (getName ST) ''.base''"

text \<open>\<open>AllTypeNum\<close> is the length of \<open>AllTypeInfo\<close>.\<close>

definition getDirectTypeInfo :: "ir_struct list \<Rightarrow> TypeInfo list \<Rightarrow> TypeInfo list" where
  "getDirectTypeInfo Types AllTypeInfo =
     fold (\<lambda>ST infos. if own_type ST then infos @ [parsingTypeInfo ST (length infos)] else infos)
       Types AllTypeInfo"

definition push_phantom :: "nat \<Rightarrow> TypeDetailInfo \<Rightarrow> TypeInfo list \<Rightarrow> TypeInfo list" where
  "push_phantom i d infos =
     infos[i := (infos ! i)\<lparr>DirectPhantomTypes := DirectPhantomTypes (infos ! i) @ [d]\<rparr>]"

definition alloc_of :: "data_layout \<Rightarrow> TypeInfo \<Rightarrow> nat" where
  "alloc_of dl I = getTypeAllocSize dl (StructTy (fst (StructOf I)) (snd (StructOf I)))"

text \<open>The body of the three nested loops: parent \<open>j\<close> of type \<open>i\<close> is type \<open>t\<close>.\<close>

definition relate_types :: "data_layout \<Rightarrow> nat \<Rightarrow> nat \<Rightarrow> nat \<Rightarrow> TypeInfo list \<Rightarrow> TypeInfo list" where
  "relate_types dl i j t infos =
     (if i \<noteq> t \<and> TypeName (DirectParents (infos ! i) ! j) = TypeName (DetailInfo (infos ! t))
      then let ps = DirectParents (infos ! i);
               infos = infos[i := (infos ! i)\<lparr>DirectParents := ps[j := (ps ! j)\<lparr>TypeIndex := t\<rparr>]\<rparr>]
        in if alloc_of dl (infos ! i) = alloc_of dl (infos ! t)
           then push_phantom t (DetailInfo (infos ! i)) (push_phantom i (DetailInfo (infos ! t)) infos)
           else infos
      else infos)"

definition link_types :: "data_layout \<Rightarrow> TypeInfo list \<Rightarrow> TypeInfo list" where
  "link_types dl infos =
     fold (\<lambda>i infos.
       fold (\<lambda>j infos. fold (relate_types dl i j) [0..<length infos] infos)
         [0..<length (DirectParents (infos ! i))] infos) [0..<length infos] infos"

text \<open>
  The recursion of \<open>extendParentSet\<close> and \<open>extendPhantomSet\<close> with its calls as a list of the indices
  still to visit. The types already visited are those already added, since the marks are cleared before
  every start; an index outside the table does not occur and is skipped.
\<close>

function visit_types :: "(nat \<Rightarrow> nat list) \<Rightarrow> nat \<Rightarrow> nat list \<Rightarrow> nat list \<Rightarrow> nat list" where
  "visit_types succ n [] added = added"
| "visit_types succ n (CurrentIndex # calls) added =
     (if CurrentIndex \<in> set added \<or> CurrentIndex \<ge> n then visit_types succ n calls added
      else visit_types succ n (succ CurrentIndex @ calls) (added @ [CurrentIndex]))"
  by pat_completeness auto
termination
proof (relation "measures [\<lambda>(succ, n, calls, added). card ({..<n} - set added), \<lambda>(succ, n, calls, added). length calls]",
    goal_cases)
  case (3 succ n c calls added)
  then have "{..<n} - set (added @ [c]) = {..<n} - set added - {c}" "c \<in> {..<n} - set added" by auto
  then have "card ({..<n} - set (added @ [c])) < card ({..<n} - set added)"
    by (simp only: card_Diff1_less finite_Diff finite_lessThan)
  then show ?case by simp
qed auto

declare visit_types.simps(2) [simp del]

definition parent_calls :: "TypeInfo list \<Rightarrow> nat \<Rightarrow> nat list" where
  "parent_calls infos c =
     map TypeIndex (DirectParents (infos ! c)) @ map TypeIndex (DirectPhantomTypes (infos ! c))"

definition phantom_calls :: "TypeInfo list \<Rightarrow> nat \<Rightarrow> nat list" where
  "phantom_calls infos c = map TypeIndex (DirectPhantomTypes (infos ! c))"

definition extendParentSet :: "nat \<Rightarrow> nat \<Rightarrow> TypeInfo list \<Rightarrow> TypeInfo list" where
  "extendParentSet TargetIndex CurrentIndex infos =
     infos[TargetIndex := (infos ! TargetIndex)\<lparr>AllParents := AllParents (infos ! TargetIndex) @
       map (\<lambda>c. DetailInfo (infos ! c))
         (visit_types (parent_calls infos) (length infos) [CurrentIndex] [])\<rparr>]"

definition extendPhantomSet :: "nat \<Rightarrow> nat \<Rightarrow> TypeInfo list \<Rightarrow> TypeInfo list" where
  "extendPhantomSet TargetIndex CurrentIndex infos =
     infos[TargetIndex := (infos ! TargetIndex)\<lparr>AllPhantomTypes := AllPhantomTypes (infos ! TargetIndex) @
       map (\<lambda>c. DetailInfo (infos ! c))
         (visit_types (phantom_calls infos) (length infos) [CurrentIndex] [])\<rparr>]"

definition extendTypeRelationInfo :: "data_layout \<Rightarrow> TypeInfo list \<Rightarrow> TypeInfo list" where
  "extendTypeRelationInfo dl infos =
     (let infos = link_types dl infos in
      fold (\<lambda>i infos. extendPhantomSet i i (extendParentSet i i infos)) [0..<length infos] infos)"

section \<open>Sets of code numbers\<close>

text \<open>A set of code numbers with the family size that goes with it.\<close>

type_synonym safe_set = "int sset \<times> int"

text \<open>One entry of \<open>AllParents\<close> or \<open>AllPhantomTypes\<close>: its code is added even without a family.\<close>

definition add_parent :: "code_maps \<Rightarrow> TypeDetailInfo \<Rightarrow> safe_set \<Rightarrow> safe_set" where
  "add_parent u d = (\<lambda>(safeNum, currentFamilySize).
     case map_find (bitypeCodeMap u) (TypeName d) of
       None \<Rightarrow> (safeNum, currentFamilySize)
     | Some tempCode \<Rightarrow>
         (set_insert tempCode safeNum,
          case map_find (bitypeCastRelatedClass u) (TypeName d) of
            None \<Rightarrow> currentFamilySize
          | Some tempFamilySize \<Rightarrow> max currentFamilySize tempFamilySize))"

definition extendSafeNum :: "code_maps \<Rightarrow> TypeInfo list \<Rightarrow> string \<Rightarrow> safe_set \<Rightarrow> safe_set" where
  "extendSafeNum u infos stName safe =
     (case find (\<lambda>I. TypeName (DetailInfo I) = stName) infos of
        None \<Rightarrow> safe
      | Some I \<Rightarrow> fold (add_parent u) (AllPhantomTypes I) (fold (add_parent u) (AllParents I) safe))"

text \<open>A class with a code counts if it is related to a cast.\<close>

definition related_code :: "code_maps \<Rightarrow> string \<Rightarrow> (int \<times> int) option" where
  "related_code u n =
     (case (map_find (bitypeCodeMap u) n, map_find (bitypeCastRelatedClass u) n) of
        (Some code, Some family) \<Rightarrow> Some (code, family) | _ \<Rightarrow> None)"

definition add_inherited :: "code_maps \<Rightarrow> string \<Rightarrow> int sset \<Rightarrow> int sset" where
  "add_inherited u subName safeNum =
     (case map_find (BitypeInheritanceSet u) subName of
        None \<Rightarrow> safeNum
      | Some parents \<Rightarrow>
          fold (\<lambda>parentName safeNum. case related_code u parentName of
              None \<Rightarrow> safeNum | Some (code, _) \<Rightarrow> set_insert code safeNum) parents safeNum)"

text \<open>The loop over the objects at offset 0 in \<open>getAllClassSafeCast\<close>.\<close>

definition add_zero :: "code_maps \<Rightarrow> ir_struct \<Rightarrow> safe_set \<Rightarrow> safe_set" where
  "add_zero u subSTy = (\<lambda>(safeNum, familySize).
     let subName = class_name subSTy;
         (safeNum, familySize) = (case related_code u subName of
            None \<Rightarrow> (safeNum, familySize)
          | Some (code, family) \<Rightarrow> (set_insert code safeNum, max familySize family))
     in (add_inherited u subName safeNum, familySize))"

definition computeCode :: "int sset \<Rightarrow> nat \<Rightarrow> 8 word list" where
  "computeCode setNum familySize =
     (let indexedCode = fold (\<lambda>tempIndex indexedCode.
            let tempIndex = tempIndex - 1;
                setIndex = tempIndex sdiv 8;
                offset = tempIndex smod 8;
                tempCode = push_bit (nat offset) 1
            in case map_find indexedCode setIndex of
                Some c \<Rightarrow> map_put setIndex (c XOR tempCode) indexedCode
              | None \<Rightarrow> map_insert setIndex tempCode indexedCode) setNum []
      in map (\<lambda>i. case map_find indexedCode (int i) of Some c \<Rightarrow> c | None \<Rightarrow> 0) [0..<familySize])"

definition array_size :: "int \<Rightarrow> nat" where
  "array_size family = nat (if family smod 8 \<noteq> 0 then family sdiv 8 + 1 else family sdiv 8)"

definition coding_result :: "int sset \<Rightarrow> nat \<Rightarrow> 8 word list" where
  "coding_result safeNum arraySize =
     (if safeNum \<noteq> [] then computeCode safeNum arraySize else replicate arraySize 0)"

text \<open>The set of a class whose family is \<open>family\<close>.\<close>

definition class_safe_set :: "data_layout \<Rightarrow> code_maps \<Rightarrow> TypeInfo list \<Rightarrow> ir_struct \<Rightarrow> int \<Rightarrow> safe_set" where
  "class_safe_set dl u infos ST family =
     (let safeNum = (case map_find (bitypeCodeMap u) (class_name ST) of
                       None \<Rightarrow> [] | Some code \<Rightarrow> set_insert code []);
          safe = fold (\<lambda>(_, subSTy). add_zero u subSTy) (getOffetZeroStruct dl (fst ST) (snd ST) []) (safeNum, family)
      in extendSafeNum u infos (class_name ST) safe)"

section \<open>The arrays of a module\<close>

record bitype_util =
  AllTypeInfo :: "TypeInfo list"
  classStructSet :: "(string, ir_struct) smap"
  GlobalVariableMap :: "(string, nat) smap"
  moduleGlobals :: "(string \<times> 8 word list) list"

definition new_global :: "string \<Rightarrow> 8 word list \<Rightarrow> bitype_util \<Rightarrow> nat \<times> bitype_util" where
  "new_global name init U =
     (length (moduleGlobals U), U\<lparr>moduleGlobals := moduleGlobals U @ [(name, init)]\<rparr>)"

definition getGlobalName :: "string \<Rightarrow> string \<Rightarrow> string \<Rightarrow> string" where
  "getGlobalName Prefix mname sname = Prefix @ mname @ ''.'' @ sname"

text \<open>The index of the class in two bytes, then the bits.\<close>

definition class_array :: "nat \<Rightarrow> safe_set \<Rightarrow> 8 word list" where
  "class_array tempIndex safe =
     of_nat (tempIndex mod 2 ^ 8) # of_nat (tempIndex div 2 ^ 8 mod 2 ^ 8)
       # coding_result (fst safe) (array_size (snd safe))"

text \<open>One round of the loop over the structure types of the module.\<close>

definition class_round ::
  "data_layout \<Rightarrow> code_maps \<Rightarrow> string \<Rightarrow> string \<Rightarrow> ir_struct \<Rightarrow> bitype_util \<Rightarrow> bitype_util" where
  "class_round dl u Prefix mname ST U =
     (if \<not> own_type ST then U
      else let stName = class_name ST in
        case map_find (bitypeCastRelatedClass u) stName of
          None \<Rightarrow> U
        | Some family \<Rightarrow>
            let U = U\<lparr>classStructSet := map_insert stName ST (classStructSet U)\<rparr>;
                safe = class_safe_set dl u (AllTypeInfo U) ST family
            in case map_find (bitypeClassIndexSet2 u) stName of
                None \<Rightarrow> U
              | Some tempIndex \<Rightarrow>
                  let (g, U) = new_global (getGlobalName Prefix mname stName) (class_array tempIndex safe) U
                  in U\<lparr>GlobalVariableMap := map_insert stName g (GlobalVariableMap U)\<rparr>)"

text \<open>\<open>mname\<close> is the module's name after \<open>syncModuleName\<close>.\<close>

definition getAllClassSafeCast ::
  "data_layout \<Rightarrow> code_maps \<Rightarrow> string \<Rightarrow> string \<Rightarrow> ir_struct list \<Rightarrow> bitype_util \<Rightarrow> bitype_util" where
  "getAllClassSafeCast dl u Prefix mname Types U =
     (let infos = getDirectTypeInfo Types (AllTypeInfo U);
          infos = (if length infos > 0 then extendTypeRelationInfo dl infos else infos)
      in fold (class_round dl u Prefix mname) Types (U\<lparr>AllTypeInfo := infos\<rparr>))"

text \<open>
  The array of a slot several classes share. The family of every class is read without a test that it
  has one: \<open>None\<close> is reading past the end of the map.
\<close>

definition set_names :: "struct_set \<Rightarrow> string" where
  "set_names S = concat (map (\<lambda>(_, s). class_name s) S)"

definition getGlobalNameSet :: "string \<Rightarrow> string \<Rightarrow> struct_set \<Rightarrow> string" where
  "getGlobalNameSet Prefix mname S = Prefix @ mname @ concat (map (\<lambda>(_, s). ''.'' @ class_name s) S)"

definition shared_classes ::
  "data_layout \<Rightarrow> code_maps \<Rightarrow> struct_set \<Rightarrow> (safe_set \<times> struct_set) option" where
  "shared_classes dl u relatedCast =
     fold (\<lambda>(_, tempStruct) r. case r of
         None \<Rightarrow> None
       | Some ((safeNum, maxFamilySize), zeroSet) \<Rightarrow>
           let tempStName = class_name tempStruct;
               zeroSet = getOffetZeroStruct dl (fst tempStruct) (snd tempStruct) zeroSet
           in case map_find (bitypeCastRelatedClass u) tempStName of
               None \<Rightarrow> None
             | Some family \<Rightarrow>
                 Some ((case map_find (bitypeCodeMap u) tempStName of
                          None \<Rightarrow> safeNum | Some code \<Rightarrow> set_insert code safeNum,
                        max maxFamilySize family), zeroSet))
       relatedCast (Some (([], 0), []))"

definition add_shared_zero :: "code_maps \<Rightarrow> ir_struct \<Rightarrow> int sset \<Rightarrow> int sset" where
  "add_shared_zero u subSTy safeNum =
     (let subName = class_name subSTy;
          safeNum = (case map_find (bitypeCodeMap u) subName of
                       None \<Rightarrow> safeNum | Some code \<Rightarrow> set_insert code safeNum)
      in add_inherited u subName safeNum)"

definition shared_array :: "data_layout \<Rightarrow> code_maps \<Rightarrow> struct_set \<Rightarrow> 8 word list option" where
  "shared_array dl u relatedCast =
     (case shared_classes dl u relatedCast of
        None \<Rightarrow> None
      | Some ((safeNum, maxFamilySize), zeroSet) \<Rightarrow>
          Some (0 # 0 # coding_result (fold (\<lambda>(_, s). add_shared_zero u s) zeroSet safeNum)
                          (array_size maxFamilySize)))"

definition CreateGlobalVariable ::
  "data_layout \<Rightarrow> code_maps \<Rightarrow> string \<Rightarrow> string \<Rightarrow> struct_set \<Rightarrow> bitype_util
     \<Rightarrow> (nat option \<times> bitype_util) option" where
  "CreateGlobalVariable dl u Prefix mname relatedCast U =
     (if relatedCast = [] then Some (None, U)
      else case shared_array dl u relatedCast of
          None \<Rightarrow> None
        | Some init \<Rightarrow>
            let tmpGlobalName = set_names relatedCast in
            if map_has (GlobalVariableMap U) tmpGlobalName then Some (None, U)
            else let (g, U) = new_global (getGlobalNameSet Prefix mname relatedCast) init U
              in Some (Some g, U\<lparr>GlobalVariableMap := map_insert tmpGlobalName g (GlobalVariableMap U)\<rparr>))"

section \<open>The bits of an array\<close>

text \<open>One round of the first loop of \<open>computeCode\<close>, and the bit \<open>b\<close> of byte \<open>k\<close> of a table.\<close>

definition code_step :: "int \<Rightarrow> (int, 8 word) smap \<Rightarrow> (int, 8 word) smap" where
  "code_step tempIndex indexedCode =
     (let setIndex = (tempIndex - 1) sdiv 8; tempCode = push_bit (nat ((tempIndex - 1) smod 8)) 1
      in case map_find indexedCode setIndex of
           Some c \<Rightarrow> map_put setIndex (c XOR tempCode) indexedCode
         | None \<Rightarrow> map_insert setIndex tempCode indexedCode)"

definition table_byte :: "(int, 8 word) smap \<Rightarrow> int \<Rightarrow> 8 word" where
  "table_byte m k = (case map_find m k of Some c \<Rightarrow> c | None \<Rightarrow> 0)"

lemma computeCode_step:
  "computeCode setNum n = map (\<lambda>i. table_byte (fold code_step setNum []) (int i)) [0..<n]"
  by (simp add: computeCode_def code_step_def[abs_def] table_byte_def Let_def)

lemma code_step_byte:
  assumes "smap_ok m" "1 \<le> t"
  shows "table_byte (code_step t m) k =
    (if k = (t - 1) div 8 then table_byte m k XOR push_bit (nat ((t - 1) mod 8)) 1 else table_byte m k)"
proof -
  have "(t - 1) sdiv 8 = (t - 1) div 8" "(t - 1) smod 8 = (t - 1) mod 8"
    using assms(2) by (cases "t = 1"; simp add: signed_divide_int_def signed_modulo_int_def)+
  then show ?thesis using assms(1)
    by (auto simp: code_step_def table_byte_def Let_def map_of_map_put map_of_map_insert split: option.split)
qed

lemma code_step_ok: "smap_ok m \<Longrightarrow> smap_ok (code_step t m)"
  by (auto simp: code_step_def Let_def split: option.split)

lemma bit_single: "b < 8 \<Longrightarrow> bit (2 ^ k :: 8 word) b \<longleftrightarrow> b = k"
  by (auto simp: bit_exp_iff)

lemma fold_code_bit:
  assumes "smap_ok m" "distinct ts" "\<forall>t\<in>set ts. 1 \<le> t" "b < 8"
  shows "bit (table_byte (fold code_step ts m) (int k)) b \<longleftrightarrow>
    (bit (table_byte m (int k)) b \<noteq> (int (8 * k + b) + 1 \<in> set ts))"
  using assms
proof (induction ts arbitrary: m)
  case (Cons t ts)
  have at: "int k = (t - 1) div 8 \<and> b = nat ((t - 1) mod 8) \<longleftrightarrow> t = int (8 * k + b) + 1"
    using Cons.prems(3,4) by (auto simp: nat_eq_iff)
  have "bit (table_byte (code_step t m) (int k)) b \<longleftrightarrow>
      (bit (table_byte m (int k)) b \<noteq> (t = int (8 * k + b) + 1))"
    using at code_step_byte[OF Cons.prems(1), of t "int k"] Cons.prems(3,4)
    by (auto simp: bit_xor_iff bit_single)
  with Cons.IH[OF code_step_ok[OF Cons.prems(1), of t]] Cons.prems show ?case by auto
qed simp

lemma computeCode_bit:
  assumes "distinct setNum" "\<forall>t\<in>set setNum. 1 \<le> t" "k < n" "b < 8"
  shows "bit (computeCode setNum n ! k) b \<longleftrightarrow> int (8 * k + b) + 1 \<in> set setNum"
  using fold_code_bit[OF smap_ok_Nil assms(1,2,4), of k] assms(3)
  by (simp add: computeCode_step table_byte_def)

text \<open>
  C24: The array \<open>computeCode\<close> builds has as many bytes as asked for, and its bit \<open>b\<close> in byte \<open>k\<close> is set
  exactly if the code number \<open>8 * k + b + 1\<close> is in the set; larger codes are dropped.
\<close>

theorem computeCode_bits:
  assumes "sset_ok setNum" "\<forall>t\<in>set setNum. 1 \<le> t"
  shows "length (computeCode setNum n) = n \<and>
    (\<forall>k<n. \<forall>b<8. bit (computeCode setNum n ! k) b \<longleftrightarrow> int (8 * k + b) + 1 \<in> set setNum)"
  using computeCode_bit[OF sset_ok_distinct[OF assms(1)] assms(2)] by (simp add: computeCode_step)

lemma computeCode_bits_witness:
  "length (computeCode [1, 3, 10] 2) = 2 \<and> bit (computeCode [1, 3, 10] 2 ! 1) 1 \<and> \<not> bit (computeCode [1, 3, 10] 2 ! 0) 1"
proof -
  have "sset_ok [1, 3, 10 :: int]" by (simp add: sset_ok_def)
  note b = computeCode_bits[OF this, of 2]
  have "bit (computeCode [1, 3, 10] 2 ! k) c \<longleftrightarrow> int (8 * k + c) + 1 \<in> {1, 3, 10}" if "k < 2" "c < 8" for k c
    using b that by simp
  from this[of 1 1] this[of 0 1] b show ?thesis by simp
qed

section \<open>The closure of the parents\<close>

definition calls_rel :: "(nat \<Rightarrow> nat list) \<Rightarrow> (nat \<times> nat) set" where
  "calls_rel succ = {(a, b). b \<in> set (succ a)}"

lemma visit_mono: "set added \<subseteq> set (visit_types succ n calls added)"
proof (induction succ n calls added rule: visit_types.induct)
  case (2 succ n c calls added)
  then show ?case by (auto simp: visit_types.simps(2))
qed simp

lemma visit_sound:
  "x \<in> set (visit_types succ n calls added) \<Longrightarrow> x \<in> set added \<or> (\<exists>c\<in>set calls. (c, x) \<in> (calls_rel succ)\<^sup>*)"
proof (induction succ n calls added rule: visit_types.induct)
  case (2 succ n c calls added)
  show ?case
  proof (cases "c \<in> set added \<or> c \<ge> n")
    case True
    with 2 show ?thesis by (auto simp: visit_types.simps(2))
  next
    case False
    with "2.prems" have "x \<in> set (visit_types succ n (succ c @ calls) (added @ [c]))"
      by (simp add: visit_types.simps(2))
    from "2.IH"(2)[OF False this] consider "x \<in> set added" | "x = c"
      | d where "d \<in> set (succ c)" "(d, x) \<in> (calls_rel succ)\<^sup>*"
      | d where "d \<in> set calls" "(d, x) \<in> (calls_rel succ)\<^sup>*" by auto
    then show ?thesis
    proof cases
      case 3
      then have "(c, d) \<in> calls_rel succ" by (simp add: calls_rel_def)
      with 3(2) have "(c, x) \<in> (calls_rel succ)\<^sup>*" by (rule converse_rtrancl_into_rtrancl[rotated])
      then show ?thesis by auto
    qed auto
  qed
qed simp

lemma visit_closed:
  assumes "\<forall>a<n. \<forall>b\<in>set (succ a). b < n"
  shows "\<forall>c\<in>set calls. c < n \<Longrightarrow> \<forall>a\<in>set added. set (succ a) \<subseteq> set added \<union> set calls \<Longrightarrow>
    set calls \<subseteq> set (visit_types succ n calls added) \<and>
    (\<forall>a\<in>set (visit_types succ n calls added). set (succ a) \<subseteq> set (visit_types succ n calls added))"
  using assms
proof (induction succ n calls added rule: visit_types.induct)
  case (2 succ n c calls added)
  show ?case
  proof (cases "c \<in> set added \<or> c \<ge> n")
    case True
    with "2.prems"(1) have "c \<in> set added" by auto
    with "2.IH"(1)[OF True] "2.prems" visit_mono[of added succ n calls] True show ?thesis
      by (auto simp: visit_types.simps(2))
  next
    case False
    have "\<forall>d\<in>set (succ c @ calls). d < n" using "2.prems"(1,3) False by auto
    moreover have "\<forall>a\<in>set (added @ [c]). set (succ a) \<subseteq> set (added @ [c]) \<union> set (succ c @ calls)"
      using "2.prems"(2) by auto
    ultimately show ?thesis
      using "2.IH"(2)[OF False] "2.prems"(3) visit_mono[of "added @ [c]" succ n "succ c @ calls"] False
      by (auto simp: visit_types.simps(2))
  qed
qed simp

lemma visit_reachable:
  assumes "\<forall>a<n. \<forall>b\<in>set (succ a). b < n" "t < n"
  shows "set (visit_types succ n [t] []) = {x. (t, x) \<in> (calls_rel succ)\<^sup>*}"
proof
  show "set (visit_types succ n [t] []) \<subseteq> {x. (t, x) \<in> (calls_rel succ)\<^sup>*}"
    using visit_sound[of _ succ n "[t]" "[]"] by auto
  have c: "t \<in> set (visit_types succ n [t] [])"
    "\<forall>a\<in>set (visit_types succ n [t] []). set (succ a) \<subseteq> set (visit_types succ n [t] [])"
    using visit_closed[OF assms(1), of "[t]" "[]"] assms(2) by simp_all
  show "{x. (t, x) \<in> (calls_rel succ)\<^sup>*} \<subseteq> set (visit_types succ n [t] [])"
  proof
    fix x assume "x \<in> {x. (t, x) \<in> (calls_rel succ)\<^sup>*}"
    then have "(t, x) \<in> (calls_rel succ)\<^sup>*" by simp
    then show "x \<in> set (visit_types succ n [t] [])"
      by (induction rule: rtrancl_induct) (use c in \<open>auto simp: calls_rel_def\<close>)
  qed
qed

section \<open>The linked table\<close>

text \<open>What linking leaves as it is, and that every index it writes is one of the table.\<close>

definition linked :: "TypeInfo list \<Rightarrow> TypeInfo list \<Rightarrow> bool" where
  "linked infos L \<longleftrightarrow> length L = length infos \<and> (\<forall>k<length infos.
     StructOf (L ! k) = StructOf (infos ! k) \<and> DetailInfo (L ! k) = DetailInfo (infos ! k) \<and>
     AllParents (L ! k) = AllParents (infos ! k) \<and> AllPhantomTypes (L ! k) = AllPhantomTypes (infos ! k) \<and>
     map TypeName (DirectParents (L ! k)) = map TypeName (DirectParents (infos ! k)))"

definition indices_ok :: "TypeInfo list \<Rightarrow> bool" where
  "indices_ok infos \<longleftrightarrow> (\<forall>k<length infos. TypeIndex (DetailInfo (infos ! k)) = k \<and>
     (\<forall>d\<in>set (DirectParents (infos ! k)) \<union> set (DirectPhantomTypes (infos ! k)). TypeIndex d < length infos))"

lemma linked_refl [simp]: "linked infos infos"
  by (simp add: linked_def)

lemma linked_trans: "linked a b \<Longrightarrow> linked b c \<Longrightarrow> linked a c"
  by (auto simp: linked_def)

lemma push_phantom_linked:
  "i < length infos \<Longrightarrow> linked infos (push_phantom i d infos)"
  by (auto simp: linked_def push_phantom_def nth_list_update)

lemma push_phantom_indices:
  "indices_ok infos \<Longrightarrow> i < length infos \<Longrightarrow> TypeIndex d < length infos \<Longrightarrow> indices_ok (push_phantom i d infos)"
  by (auto simp: indices_ok_def push_phantom_def nth_list_update split: if_splits)

definition set_parent :: "nat \<Rightarrow> nat \<Rightarrow> nat \<Rightarrow> TypeInfo list \<Rightarrow> TypeInfo list" where
  "set_parent i j t infos = infos[i := (infos ! i)\<lparr>DirectParents :=
     (DirectParents (infos ! i))[j := (DirectParents (infos ! i) ! j)\<lparr>TypeIndex := t\<rparr>]\<rparr>]"

lemma map_name_update: "map TypeName (ps[j := (ps ! j)\<lparr>TypeIndex := t\<rparr>]) = map TypeName ps"
proof (cases "j < length ps")
  case True
  then show ?thesis by (intro nth_equalityI) (auto simp: nth_list_update)
qed (simp add: list_update_beyond)

lemma set_parent_linked: "i < length infos \<Longrightarrow> linked infos (set_parent i j t infos)"
  by (auto simp: linked_def set_parent_def nth_list_update map_name_update)

lemma set_parent_indices:
  "indices_ok infos \<Longrightarrow> i < length infos \<Longrightarrow> t < length infos \<Longrightarrow> indices_ok (set_parent i j t infos)"
  by (auto simp: indices_ok_def set_parent_def nth_list_update split: if_splits
      dest!: set_update_subset_insert[THEN subsetD])

lemma relate_types_alt:
  "relate_types dl i j t infos =
     (if i \<noteq> t \<and> TypeName (DirectParents (infos ! i) ! j) = TypeName (DetailInfo (infos ! t))
      then let L = set_parent i j t infos in
        if alloc_of dl (L ! i) = alloc_of dl (L ! t)
        then push_phantom t (DetailInfo (L ! i)) (push_phantom i (DetailInfo (L ! t)) L) else L
      else infos)"
  by (simp add: relate_types_def set_parent_def Let_def)

lemma relate_types_linked:
  assumes "i < length infos" "t < length infos"
  shows "linked infos (relate_types dl i j t infos)" "indices_ok infos \<Longrightarrow> indices_ok (relate_types dl i j t infos)"
proof -
  let ?L = "set_parent i j t infos"
  let ?P = "push_phantom i (DetailInfo (?L ! t)) ?L"
  have l: "linked infos ?L" using assms(1) by (rule set_parent_linked)
  then have len: "length ?L = length infos" by (simp add: linked_def)
  have p: "linked ?L ?P" using assms len by (simp add: push_phantom_linked)
  then have lenP: "length ?P = length infos" using len by (simp add: linked_def)
  have q: "linked ?P (push_phantom t (DetailInfo (?L ! i)) ?P)" using assms lenP by (simp add: push_phantom_linked)
  show "linked infos (relate_types dl i j t infos)"
    using l linked_trans[OF l linked_trans[OF p q]] by (simp add: relate_types_alt Let_def)
  assume ok: "indices_ok infos"
  have L: "indices_ok ?L" by (rule set_parent_indices[OF ok assms])
  then have d: "TypeIndex (DetailInfo (?L ! t)) < length ?L" "TypeIndex (DetailInfo (?L ! i)) < length ?P"
    using assms len lenP by (simp_all add: indices_ok_def)
  have P: "indices_ok ?P" by (rule push_phantom_indices[OF L]) (use assms len d in simp_all)
  have "indices_ok (push_phantom t (DetailInfo (?L ! i)) ?P)"
    by (rule push_phantom_indices[OF P]) (use assms lenP d in simp_all)
  with ok L show "indices_ok (relate_types dl i j t infos)" by (simp add: relate_types_alt Let_def)
qed

text \<open>Every index of the inner loops is inside the table, so linking keeps both.\<close>

lemma fold_linked:
  assumes "\<And>x S. x \<in> set xs \<Longrightarrow> linked infos S \<Longrightarrow> linked infos (f x S) \<and> (indices_ok S \<longrightarrow> indices_ok (f x S))"
    and "linked infos S"
  shows "linked infos (fold f xs S) \<and> (indices_ok S \<longrightarrow> indices_ok (fold f xs S))"
  using assms by (induction xs arbitrary: S) auto

lemma link_types_linked:
  "linked infos (link_types dl infos) \<and> (indices_ok infos \<longrightarrow> indices_ok (link_types dl infos))"
proof -
  have t: "linked infos (fold (relate_types dl i j) [0..<length infos] S) \<and>
      (indices_ok S \<longrightarrow> indices_ok (fold (relate_types dl i j) [0..<length infos] S))"
    if "i < length infos" "linked infos S" for i j S
  proof (rule fold_linked[OF _ that(2)])
    fix t S' assume "t \<in> set [0..<length infos]" "linked infos S'"
    with that(1) relate_types_linked[of i S' t dl j] linked_trans[of infos S']
    show "linked infos (relate_types dl i j t S') \<and> (indices_ok S' \<longrightarrow> indices_ok (relate_types dl i j t S'))"
      by (auto simp: linked_def)
  qed
  have j: "linked infos (fold (\<lambda>j S. fold (relate_types dl i j) [0..<length S] S) js S) \<and>
      (indices_ok S \<longrightarrow> indices_ok (fold (\<lambda>j S. fold (relate_types dl i j) [0..<length S] S) js S))"
    if "i < length infos" "linked infos S" for i js S
    by (rule fold_linked[OF _ that(2)]) (use t[OF that(1)] in \<open>auto simp: linked_def\<close>)
  show ?thesis
    unfolding link_types_def by (rule fold_linked) (use j in auto)
qed

text \<open>Closing the sets of one type leaves the other types, and what the next closures read, alone.\<close>

definition close_one :: "nat \<Rightarrow> TypeInfo list \<Rightarrow> TypeInfo list" where
  "close_one i infos = extendPhantomSet i i (extendParentSet i i infos)"

definition closed_info :: "TypeInfo list \<Rightarrow> nat \<Rightarrow> TypeInfo" where
  "closed_info L i = (L ! i)\<lparr>
     AllParents := AllParents (L ! i) @
       map (\<lambda>c. DetailInfo (L ! c)) (visit_types (parent_calls L) (length L) [i] []),
     AllPhantomTypes := AllPhantomTypes (L ! i) @
       map (\<lambda>c. DetailInfo (L ! c)) (visit_types (phantom_calls L) (length L) [i] [])\<rparr>"

definition same_links :: "TypeInfo list \<Rightarrow> TypeInfo list \<Rightarrow> bool" where
  "same_links S L \<longleftrightarrow> length S = length L \<and> (\<forall>c<length L. DetailInfo (S ! c) = DetailInfo (L ! c) \<and>
     DirectParents (S ! c) = DirectParents (L ! c) \<and> DirectPhantomTypes (S ! c) = DirectPhantomTypes (L ! c))"

lemma visit_below: "\<forall>x\<in>set added. x < n \<Longrightarrow> x \<in> set (visit_types succ n calls added) \<Longrightarrow> x < n"
proof (induction succ n calls added rule: visit_types.induct)
  case (2 succ n c calls added)
  then show ?case by (cases "c \<in> set added \<or> c \<ge> n") (auto simp: visit_types.simps(2))
qed simp

lemma visit_cong:
  "\<forall>c<n. succ c = succ' c \<Longrightarrow> visit_types succ n calls added = visit_types succ' n calls added"
proof (induction succ n calls added rule: visit_types.induct)
  case (2 succ n c calls added)
  then show ?case by (cases "c \<in> set added \<or> c \<ge> n") (auto simp: visit_types.simps(2))
qed simp

lemma same_links_visit:
  assumes "same_links S L"
  shows "map (\<lambda>c. DetailInfo (S ! c)) (visit_types (parent_calls S) (length S) [i] []) =
      map (\<lambda>c. DetailInfo (L ! c)) (visit_types (parent_calls L) (length L) [i] [])"
    "map (\<lambda>c. DetailInfo (S ! c)) (visit_types (phantom_calls S) (length S) [i] []) =
      map (\<lambda>c. DetailInfo (L ! c)) (visit_types (phantom_calls L) (length L) [i] [])"
proof -
  have len: "length S = length L" using assms by (simp add: same_links_def)
  have "visit_types (parent_calls S) (length S) [i] [] = visit_types (parent_calls L) (length L) [i] []"
    "visit_types (phantom_calls S) (length S) [i] [] = visit_types (phantom_calls L) (length L) [i] []"
    using assms by (auto simp: len same_links_def parent_calls_def phantom_calls_def intro!: visit_cong)
  then show "map (\<lambda>c. DetailInfo (S ! c)) (visit_types (parent_calls S) (length S) [i] []) =
      map (\<lambda>c. DetailInfo (L ! c)) (visit_types (parent_calls L) (length L) [i] [])"
    "map (\<lambda>c. DetailInfo (S ! c)) (visit_types (phantom_calls S) (length S) [i] []) =
      map (\<lambda>c. DetailInfo (L ! c)) (visit_types (phantom_calls L) (length L) [i] [])"
    using assms visit_below[of "[]" "length L" _ _ "[i]"] by (auto simp: same_links_def)
qed

lemma close_one_step:
  assumes "same_links S L" "i < length L" "S ! i = L ! i"
  shows "close_one i S = S[i := closed_info L i]" "same_links (S[i := closed_info L i]) L"
proof -
  let ?S = "extendParentSet i i S"
  have len: "length S = length L" using assms(1) by (simp add: same_links_def)
  have s: "same_links ?S L" using assms by (auto simp: same_links_def extendParentSet_def nth_list_update)
  show "same_links (S[i := closed_info L i]) L"
    using assms by (auto simp: same_links_def closed_info_def nth_list_update)
  have S1: "?S = S[i := (L ! i)\<lparr>AllParents := AllParents (L ! i) @
      map (\<lambda>c. DetailInfo (L ! c)) (visit_types (parent_calls L) (length L) [i] [])\<rparr>]"
    unfolding extendParentSet_def same_links_visit(1)[OF assms(1)] assms(3) by (rule refl)
  have "close_one i S = ?S[i := (?S ! i)\<lparr>AllPhantomTypes := AllPhantomTypes (?S ! i) @
      map (\<lambda>c. DetailInfo (L ! c)) (visit_types (phantom_calls L) (length L) [i] [])\<rparr>]"
    unfolding close_one_def extendPhantomSet_def same_links_visit(2)[OF s] by (rule refl)
  then show "close_one i S = S[i := closed_info L i]"
    using assms(2) len by (simp add: S1 closed_info_def)
qed

lemma close_all:
  assumes "same_links S L" "k \<le> length L" "\<forall>i<length L. i \<ge> j \<longrightarrow> S ! i = L ! i" "j \<le> k"
  shows "same_links (fold close_one [j..<k] S) L \<and>
    (\<forall>i<length L. fold close_one [j..<k] S ! i = (if j \<le> i \<and> i < k then closed_info L i else S ! i))"
  using assms
proof (induction "k - j" arbitrary: j S)
  case (Suc m)
  then have jk: "j < k" "m = k - Suc j" by simp_all
  note step = close_one_step[OF Suc.prems(1), of j]
  have jl: "j < length L" "S ! j = L ! j" using Suc.prems jk by simp_all
  let ?S = "S[j := closed_info L j]"
  have len: "length S = length L" using Suc.prems(1) by (simp add: same_links_def)
  have "fold close_one [j..<k] S = fold close_one [Suc j..<k] ?S"
    using jk step(1)[OF jl] by (simp add: upt_conv_Cons)
  moreover have "same_links (fold close_one [Suc j..<k] ?S) L \<and>
      (\<forall>i<length L. fold close_one [Suc j..<k] ?S ! i = (if Suc j \<le> i \<and> i < k then closed_info L i else ?S ! i))"
    by (rule Suc.hyps(1)[OF jk(2) step(2)[OF jl] Suc.prems(2)]) (use Suc.prems jk in auto)
  ultimately show ?case using jk jl len by (auto simp: nth_list_update)
qed auto

lemma getDirectTypeInfo_table:
  fixes Types :: "ir_struct list"
  defines "infos \<equiv> getDirectTypeInfo Types []" and "sts \<equiv> filter own_type Types"
  shows "length infos = length sts" "\<And>k. k < length sts \<Longrightarrow> infos ! k = parsingTypeInfo (sts ! k) k"
proof -
  have "fold (\<lambda>ST infos. if own_type ST then infos @ [parsingTypeInfo ST (length infos)] else infos) Types S =
      S @ map (\<lambda>k. parsingTypeInfo (sts ! k) (length S + k)) [0..<length sts]" if "sts = filter own_type Types" for S Types sts
    using that
  proof (induction Types arbitrary: S sts)
    case (Cons ST Types)
    show ?case
    proof (cases "own_type ST")
      case True
      with Cons.IH[of "filter own_type Types" "S @ [parsingTypeInfo ST (length S)]"] Cons.prems show ?thesis
        by (simp add: upt_conv_Cons map_Suc_upt[symmetric] comp_def del: upt_Suc)
    next
      case False
      with Cons show ?thesis by simp
    qed
  qed simp
  from this[of sts Types "[]"] have i: "infos = map (\<lambda>k. parsingTypeInfo (sts ! k) k) [0..<length sts]"
    by (simp add: infos_def sts_def getDirectTypeInfo_def)
  show "length infos = length sts" "\<And>k. k < length sts \<Longrightarrow> infos ! k = parsingTypeInfo (sts ! k) k"
    by (simp_all add: i)
qed

lemma struct_elements_index: "d \<in> set (struct_elements Tys) \<Longrightarrow> TypeIndex d = 0"
  by (induction Tys rule: struct_elements.induct) (auto simp: setTypeDetailInfo_def split: if_splits)

lemma direct_indices: "indices_ok (getDirectTypeInfo Types [])"
  using getDirectTypeInfo_table[where Types = Types]
  by (fastforce simp: indices_ok_def parsingTypeInfo_def setTypeDetailInfo_def dest: struct_elements_index)

lemma extend_all:
  fixes Types :: "ir_struct list" and dl :: data_layout
  defines "infos \<equiv> getDirectTypeInfo Types []"
  defines "L \<equiv> link_types dl infos" and "E \<equiv> extendTypeRelationInfo dl infos"
  assumes i: "i < length infos"
  shows "set (AllParents (E ! i)) = (\<lambda>c. DetailInfo (infos ! c)) ` {c. (i, c) \<in> (calls_rel (parent_calls L))\<^sup>*}"
    "set (AllPhantomTypes (E ! i)) = (\<lambda>c. DetailInfo (infos ! c)) ` {c. (i, c) \<in> (calls_rel (phantom_calls L))\<^sup>*}"
    "DetailInfo (E ! i) = DetailInfo (infos ! i)"
    "length E = length infos"
proof -
  have lk: "linked infos L" "indices_ok L"
    using link_types_linked[of infos dl] direct_indices[of Types] by (simp_all add: L_def infos_def)
  then have len: "length L = length infos" by (simp add: linked_def)
  have E: "E = fold close_one [0..<length L] L"
    by (simp add: E_def extendTypeRelationInfo_def L_def close_one_def[abs_def] Let_def)
  have "same_links L L" by (simp add: same_links_def)
  from close_all[OF this, of "length L" 0] have all: "same_links E L" "\<And>i. i < length L \<Longrightarrow> E ! i = closed_info L i"
    by (simp_all add: E)
  have il: "i < length L" using i len by simp
  have base: "infos ! i = parsingTypeInfo (filter own_type Types ! i) i"
    using getDirectTypeInfo_table[where Types = Types] i by (simp add: infos_def)
  have empty: "AllParents (L ! i) = []" "AllPhantomTypes (L ! i) = []"
    using lk(1) i base by (simp_all add: linked_def parsingTypeInfo_def)
  have succ: "\<forall>a<length L. \<forall>b\<in>set (parent_calls L a). b < length L"
    "\<forall>a<length L. \<forall>b\<in>set (phantom_calls L a). b < length L"
    using lk(2) by (auto simp: indices_ok_def parent_calls_def phantom_calls_def)
  note v = visit_reachable[OF succ(1) il] visit_reachable[OF succ(2) il]
  have d: "DetailInfo (L ! c) = DetailInfo (infos ! c)" if "c < length L" for c
    using lk(1) that len by (simp add: linked_def)
  have below: "c < length L" if "c \<in> set (visit_types s (length L) [i] [])" for c s
    using visit_below[of "[]" "length L" c s "[i]"] that by simp
  have im: "(\<lambda>c. DetailInfo (L ! c)) ` set (visit_types s (length L) [i] []) =
      (\<lambda>c. DetailInfo (infos ! c)) ` set (visit_types s (length L) [i] [])" for s
    by (rule image_cong) (simp_all add: d[OF below])
  show "set (AllParents (E ! i)) = (\<lambda>c. DetailInfo (infos ! c)) ` {c. (i, c) \<in> (calls_rel (parent_calls L))\<^sup>*}"
    "set (AllPhantomTypes (E ! i)) = (\<lambda>c. DetailInfo (infos ! c)) ` {c. (i, c) \<in> (calls_rel (phantom_calls L))\<^sup>*}"
    using im[of "parent_calls L"] im[of "phantom_calls L"]
    by (simp_all add: all(2)[OF il] closed_info_def empty v)
  show "DetailInfo (E ! i) = DetailInfo (infos ! i)" "length E = length infos"
    using all(1) d[OF il] il len by (simp_all add: same_links_def)
qed

text \<open>
  A loop whose rounds write different places: what is read at a place afterwards.
\<close>

lemma fold_places:
  assumes "distinct xs" "\<And>x x'. x \<in> set xs \<Longrightarrow> x' \<in> set xs \<Longrightarrow> x \<noteq> x' \<Longrightarrow> T x \<inter> T x' = {}"
    and "\<And>x S. x \<in> set xs \<Longrightarrow> P S \<Longrightarrow> P (f x S) \<and> (\<forall>y. get (f x S) y = (if y \<in> T x then F y (get S y) else get S y))"
    and "P S"
  shows "P (fold f xs S) \<and> (\<forall>y. get (fold f xs S) y = (if y \<in> \<Union> (T ` set xs) then F y (get S y) else get S y))"
  using assms
proof (induction xs arbitrary: S)
  case (Cons x xs)
  have fx: "P (f x S)" "\<And>y. get (f x S) y = (if y \<in> T x then F y (get S y) else get S y)"
    using Cons.prems(3)[of x S] Cons.prems(4) by simp_all
  have IH: "P (fold f xs (f x S)) \<and>
      (\<forall>y. get (fold f xs (f x S)) y = (if y \<in> \<Union> (T ` set xs) then F y (get (f x S) y) else get (f x S) y))"
    by (rule Cons.IH) (use Cons.prems(1-3) fx(1) in auto)
  have "y \<notin> \<Union> (T ` set xs)" if "y \<in> T x" for y
    using Cons.prems(1) Cons.prems(2)[of x] that by fastforce
  with IH fx(2) show ?case by auto
qed simp

definition index_at :: "TypeInfo list \<Rightarrow> nat \<times> nat \<Rightarrow> nat" where
  "index_at S = (\<lambda>(i, j). TypeIndex (DirectParents (S ! i) ! j))"

definition parent_is :: "TypeInfo list \<Rightarrow> nat \<times> nat \<Rightarrow> nat \<Rightarrow> bool" where
  "parent_is infos = (\<lambda>(i, j) t. i \<noteq> t \<and> TypeName (DirectParents (infos ! i) ! j) = TypeName (DetailInfo (infos ! t)))"

text \<open>The last type of the name wins, and the old index stays when there is none.\<close>

definition last_match :: "TypeInfo list \<Rightarrow> nat \<times> nat \<Rightarrow> nat \<Rightarrow> nat" where
  "last_match infos p v = fold (\<lambda>t v. if parent_is infos p t then t else v) [0..<length infos] v"

lemma linked_names:
  assumes "linked infos S" "i < length infos" "j < length (DirectParents (infos ! i))" "t < length infos"
  shows "TypeName (DirectParents (S ! i) ! j) = TypeName (DirectParents (infos ! i) ! j)"
    "TypeName (DetailInfo (S ! t)) = TypeName (DetailInfo (infos ! t))"
    "length (DirectParents (S ! i)) = length (DirectParents (infos ! i))" "length S = length infos"
proof -
  have m: "map TypeName (DirectParents (S ! i)) = map TypeName (DirectParents (infos ! i))"
    using assms(1,2) by (simp add: linked_def)
  then show l: "length (DirectParents (S ! i)) = length (DirectParents (infos ! i))" by (rule map_eq_imp_length_eq)
  have "map TypeName (DirectParents (S ! i)) ! j = map TypeName (DirectParents (infos ! i)) ! j" by (simp only: m)
  then show "TypeName (DirectParents (S ! i) ! j) = TypeName (DirectParents (infos ! i) ! j)"
    using assms(3) l by simp
qed (use assms in \<open>auto simp: linked_def\<close>)

lemma index_push [simp]: "index_at (push_phantom i d S) p = index_at S p"
  by (cases p; cases "i < length S") (auto simp: index_at_def push_phantom_def nth_list_update list_update_beyond)

lemma index_set_parent:
  "i < length S \<Longrightarrow> j < length (DirectParents (S ! i)) \<Longrightarrow>
     index_at (set_parent i j t S) p = (if p = (i, j) then t else index_at S p)"
  by (cases p) (auto simp: index_at_def set_parent_def nth_list_update)

lemma relate_index:
  assumes "linked infos S" "i < length infos" "j < length (DirectParents (infos ! i))" "t < length infos"
  shows "index_at (relate_types dl i j t S) p = (if p = (i, j) \<and> parent_is infos (i, j) t then t else index_at S p)"
  using linked_names[OF assms] assms(2,3)
  by (auto simp: relate_types_alt parent_is_def Let_def index_set_parent)

lemma relate_all_index:
  assumes "linked infos S" "i < length infos" "j < length (DirectParents (infos ! i))"
    "set ts \<subseteq> {..<length infos}"
  shows "linked infos (fold (relate_types dl i j) ts S) \<and>
    index_at (fold (relate_types dl i j) ts S) p =
      (if p = (i, j) then fold (\<lambda>t v. if parent_is infos (i, j) t then t else v) ts (index_at S p) else index_at S p)"
  using assms
proof (induction ts arbitrary: S)
  case (Cons t ts)
  have len: "length S = length infos" using Cons.prems(1) by (simp add: linked_def)
  have "linked infos (relate_types dl i j t S)"
    using linked_trans[OF Cons.prems(1) relate_types_linked(1)] Cons.prems len by simp
  from Cons.IH[OF this Cons.prems(2,3)] Cons.prems relate_index[OF Cons.prems(1-3), of t dl]
  show ?case by auto
qed simp

lemma link_row:
  assumes "linked infos S" "i < length infos"
  shows "linked infos (fold (\<lambda>j S. fold (relate_types dl i j) [0..<length S] S) [0..<length (DirectParents (S ! i))] S) \<and>
    (\<forall>p. index_at (fold (\<lambda>j S. fold (relate_types dl i j) [0..<length S] S) [0..<length (DirectParents (S ! i))] S) p =
      (if p \<in> {(i, j) | j. j < length (DirectParents (infos ! i))} then last_match infos p (index_at S p) else index_at S p))"
proof -
  have m: "length (DirectParents (S ! i)) = length (DirectParents (infos ! i))"
    using assms map_eq_imp_length_eq unfolding linked_def by blast
  have main: "linked infos (fold (\<lambda>j S. fold (relate_types dl i j) [0..<length S] S) [0..<length (DirectParents (S ! i))] S) \<and>
    (\<forall>p. index_at (fold (\<lambda>j S. fold (relate_types dl i j) [0..<length S] S) [0..<length (DirectParents (S ! i))] S) p =
      (if p \<in> \<Union> ((\<lambda>j. {(i, j)}) ` set [0..<length (DirectParents (S ! i))]) then last_match infos p (index_at S p)
       else index_at S p))"
  proof (rule fold_places)
    fix j S' assume j: "j \<in> set [0..<length (DirectParents (S ! i))]" and S': "linked infos S'"
    then have len: "length S' = length infos" by (simp add: linked_def)
    show "linked infos (fold (relate_types dl i j) [0..<length S'] S') \<and>
      (\<forall>y. index_at (fold (relate_types dl i j) [0..<length S'] S') y =
        (if y \<in> {(i, j)} then last_match infos y (index_at S' y) else index_at S' y))"
      using relate_all_index[OF S' assms(2), of j "[0..<length S']" dl] j len m
      by (auto simp: last_match_def atLeast0LessThan)
  qed (use assms(1) in auto)
  have sets: "\<Union> ((\<lambda>j. {(i, j)}) ` set [0..<length (DirectParents (S ! i))]) =
      {(i, j) | j. j < length (DirectParents (infos ! i))}" by (auto simp: m)
  show ?thesis using main unfolding sets .
qed

lemma link_index:
  assumes "i < length infos" "j < length (DirectParents (infos ! i))"
  shows "index_at (link_types dl infos) (i, j) = last_match infos (i, j) (index_at infos (i, j))"
proof -
  let ?f = "\<lambda>i infos. fold (\<lambda>j infos. fold (relate_types dl i j) [0..<length infos] infos)
         [0..<length (DirectParents (infos ! i))] infos"
  let ?T = "\<lambda>i. {(i, j) | j. j < length (DirectParents (infos ! i))}"
  have "linked infos (fold ?f [0..<length infos] infos) \<and> (\<forall>p. index_at (fold ?f [0..<length infos] infos) p =
      (if p \<in> \<Union> (?T ` set [0..<length infos]) then last_match infos p (index_at infos p) else index_at infos p))"
    by (rule fold_places) (use link_row in auto)
  with assms show ?thesis by (auto simp: link_types_def)
qed

lemma last_match_none: "\<forall>t<length infos. \<not> parent_is infos p t \<Longrightarrow> last_match infos p v = v"
proof -
  assume "\<forall>t<length infos. \<not> parent_is infos p t"
  then have "fold (\<lambda>t v. if parent_is infos p t then t else v) ts v = v" if "set ts \<subseteq> {..<length infos}" for ts
    using that by (induction ts arbitrary: v) auto
  from this[of "[0..<length infos]"] show ?thesis by (simp add: last_match_def atLeast0LessThan)
qed

lemma link_call:
  assumes "i < length infos" "j < length (DirectParents (infos ! i))"
  shows "(i, last_match infos (i, j) (index_at infos (i, j))) \<in> calls_rel (parent_calls (link_types dl infos))"
proof -
  let ?L = "link_types dl infos"
  have lk: "linked infos ?L" using link_types_linked by blast
  have "j < length (DirectParents (?L ! i))"
    using assms(2) by (simp only: linked_names(3)[OF lk assms(1,2) assms(1)])
  then have "TypeIndex (DirectParents (?L ! i) ! j) \<in> TypeIndex ` set (DirectParents (?L ! i))"
    by (intro imageI nth_mem)
  moreover have "TypeIndex (DirectParents (?L ! i) ! j) = last_match infos (i, j) (index_at infos (i, j))"
    using link_index[OF assms, of dl] by (simp add: index_at_def)
  ultimately show ?thesis by (simp add: calls_rel_def parent_calls_def)
qed

text \<open>
  C25: The parents of a type are the reflexive-transitive closure of its structure elements and phantom
  types as linked by name; the closure is complete and contains nothing else.
\<close>

theorem extendTypeRelationInfo_closure:
  fixes Types :: "ir_struct list" and dl :: data_layout
  defines "infos \<equiv> getDirectTypeInfo Types []"
  defines "L \<equiv> link_types dl infos" and "E \<equiv> extendTypeRelationInfo dl infos"
  assumes "i < length infos"
  shows "set (AllParents (E ! i)) = (\<lambda>c. DetailInfo (infos ! c)) ` {c. (i, c) \<in> (calls_rel (parent_calls L))\<^sup>*} \<and>
    set (AllPhantomTypes (E ! i)) = (\<lambda>c. DetailInfo (infos ! c)) ` {c. (i, c) \<in> (calls_rel (phantom_calls L))\<^sup>*}"
  using extend_all(1,2)[of i Types dl] assms(4) unfolding E_def L_def infos_def by blast

text \<open>A module with \<open>B\<close> and \<open>A\<close>, which has a \<open>B\<close>, and one with \<open>C\<close>, which has an object of the unknown class \<open>U\<close>.\<close>

definition demo_U :: ir_type where
  "demo_U = StructTy (tracked 4 ''U'') [IntegerTy 64]"

definition demo_types :: "ir_struct list" where
  "demo_types = [(tracked 3 ''B'', [IntegerTy 64]), (tracked 2 ''A'', [IntegerTy 32, demo_B])]"

definition demo_unknown :: "ir_struct list" where
  "demo_unknown = [(tracked 3 ''B'', [IntegerTy 64]), (tracked 5 ''C'', [IntegerTy 32, demo_U])]"

lemma demo_infos:
  "map (\<lambda>I. (DetailInfo I, DirectParents I, DirectPhantomTypes I)) (getDirectTypeInfo demo_types []) =
     [(\<lparr>TypeIndex = 0, TypeName = ''B''\<rparr>, [], []),
      (\<lparr>TypeIndex = 1, TypeName = ''A''\<rparr>, [\<lparr>TypeIndex = 0, TypeName = ''B''\<rparr>], [])]"
  "map (\<lambda>I. (DetailInfo I, DirectParents I, DirectPhantomTypes I)) (getDirectTypeInfo demo_unknown []) =
     [(\<lparr>TypeIndex = 0, TypeName = ''B''\<rparr>, [], []),
      (\<lparr>TypeIndex = 1, TypeName = ''C''\<rparr>, [\<lparr>TypeIndex = 0, TypeName = ''U''\<rparr>], [])]"
  by code_simp+

lemma extendTypeRelationInfo_closure_witness:
  "''B'' \<in> TypeName ` set (AllParents (extendTypeRelationInfo demo_layout (getDirectTypeInfo demo_types []) ! 1))"
proof -
  let ?I = "getDirectTypeInfo demo_types []"
  have len: "length ?I = 2" using arg_cong[OF demo_infos(1), of length] by simp
  have f: "DetailInfo (?I ! 0) = \<lparr>TypeIndex = 0, TypeName = ''B''\<rparr>" "DetailInfo (?I ! 1) = \<lparr>TypeIndex = 1, TypeName = ''A''\<rparr>"
    "DirectParents (?I ! 1) = [\<lparr>TypeIndex = 0, TypeName = ''B''\<rparr>]"
    using arg_cong[OF demo_infos(1), of "\<lambda>l. l ! 0"] arg_cong[OF demo_infos(1), of "\<lambda>l. l ! 1"] len by simp_all
  have i: "1 < length ?I" by (simp add: len)
  have "last_match ?I (1, 0) (index_at ?I (1, 0)) = 0"
    by (simp add: last_match_def parent_is_def index_at_def f len numeral_2_eq_2[symmetric] upt_rec flip: One_nat_def)
  with link_call[OF i, of 0 demo_layout] f have "(1, 0) \<in> (calls_rel (parent_calls (link_types demo_layout ?I)))\<^sup>*"
    by (simp add: r_into_rtrancl)
  with extendTypeRelationInfo_closure[OF i, of demo_layout]
  have "DetailInfo (?I ! 0) \<in> set (AllParents (extendTypeRelationInfo demo_layout ?I ! 1))" by blast
  then show ?thesis by (rule rev_image_eqI) (simp add: f)
qed

text \<open>
  A structure element whose type is not in the table (a class that is not tracked, or \<open>.base\<close> of such)
  keeps index 0, and the first type of the module counts as a parent of the class that has it.
\<close>

theorem unknown_element_adds_first_type:
  fixes Types :: "ir_struct list" and dl :: data_layout
  defines "infos \<equiv> getDirectTypeInfo Types []"
  assumes "i < length infos" "d \<in> set (DirectParents (infos ! i))"
    and "\<forall>t<length infos. t \<noteq> i \<longrightarrow> TypeName (DetailInfo (infos ! t)) \<noteq> TypeName d"
  shows "DetailInfo (infos ! 0) \<in> set (AllParents (extendTypeRelationInfo dl infos ! i))"
proof -
  let ?L = "link_types dl infos"
  from assms(3) obtain j where j: "j < length (DirectParents (infos ! i))" "d = DirectParents (infos ! i) ! j"
    by (auto simp: in_set_conv_nth)
  have base: "infos ! i = parsingTypeInfo (filter own_type Types ! i) i"
    using getDirectTypeInfo_table[where Types = Types] assms(2) by (simp add: infos_def)
  have "d \<in> set (struct_elements (snd (filter own_type Types ! i)))"
    using assms(3) base by (simp add: parsingTypeInfo_def)
  from struct_elements_index[OF this] j have "index_at infos (i, j) = 0" by (simp add: index_at_def)
  moreover have "\<forall>t<length infos. \<not> parent_is infos (i, j) t"
    using assms(4) j by (auto simp: parent_is_def)
  ultimately have "(i, 0) \<in> calls_rel (parent_calls ?L)"
    using link_call[OF assms(2) j(1), of dl] last_match_none by simp
  then have r: "(i, 0) \<in> (calls_rel (parent_calls ?L))\<^sup>*" by (rule r_into_rtrancl)
  have e: "set (AllParents (extendTypeRelationInfo dl infos ! i)) =
      (\<lambda>c. DetailInfo (infos ! c)) ` {c. (i, c) \<in> (calls_rel (parent_calls ?L))\<^sup>*}"
    unfolding infos_def by (rule extend_all(1)) (use assms(2) in \<open>simp add: infos_def\<close>)
  show ?thesis unfolding e by (rule imageI, rule CollectI, rule r)
qed

lemma unknown_element_adds_first_type_witness:
  "''B'' \<in> TypeName ` set (AllParents (extendTypeRelationInfo demo_layout (getDirectTypeInfo demo_unknown []) ! 1))"
proof -
  let ?I = "getDirectTypeInfo demo_unknown []"
  have len: "length ?I = 2" using arg_cong[OF demo_infos(2), of length] by simp
  have f: "DetailInfo (?I ! 0) = \<lparr>TypeIndex = 0, TypeName = ''B''\<rparr>" "DetailInfo (?I ! 1) = \<lparr>TypeIndex = 1, TypeName = ''C''\<rparr>"
    "DirectParents (?I ! 1) = [\<lparr>TypeIndex = 0, TypeName = ''U''\<rparr>]"
    using arg_cong[OF demo_infos(2), of "\<lambda>l. l ! 0"] arg_cong[OF demo_infos(2), of "\<lambda>l. l ! 1"] len by simp_all
  have "DetailInfo (?I ! 0) \<in> set (AllParents (extendTypeRelationInfo demo_layout ?I ! 1))"
    by (rule unknown_element_adds_first_type[where d = "\<lparr>TypeIndex = 0, TypeName = ''U''\<rparr>"])
      (simp_all add: len f less_2_cases_iff flip: One_nat_def)
  then show ?thesis by (rule rev_image_eqI) (simp add: f)
qed

end
