(* ===== verification/TraceCode.thy ===== *)
theory TraceCode
  imports SafeCode RuntimeProps
begin

text \<open>
  The code the passes insert to trace objects, \<open>insertUpdate\<close>, \<open>emitInstForObjTrace\<close> and
  \<open>insertRemove\<close> of \<open>lib/Transforms/Utils/BitypeUtil.cpp\<close>: the instructions emitted for the objects inside
  an allocation, and what they do to the state of the run-time library. Addresses are the address of the
  allocation (\<open>ObjAddr\<close>, known when the code runs) and a constant; a code array is the position of its
  global variable, placed by \<open>at\<close> when the program is loaded. Under \<open>ClInlineOpt\<close> the table is updated
  by inlined instructions instead of calls.
\<close>

unbundle bit_operations_syntax

section \<open>The emitted instructions\<close>

text \<open>A length is a \<open>ConstantInt\<close> or a value of the instrumented program.\<close>

datatype array_len = ConstLen u64 | RunLen

datatype emit_type = CONOBJADD | VLAOBJADD | CONOBJDEL | VLAOBJDEL

record trace_opts =
  ClInlineOpt :: bool
  ClMakeLogInfo :: bool

datatype trace_inst =
    InlineUpdate u32 nat u32
  | CallDirectUpdate u32 nat u32
  | CallHandleReinterpret u32 nat u32
  | CallUpdateObjTrace u32 nat u32 array_len u32
  | CallUpdateArraySize array_len
  | CallUpdateCount alloc_type array_len
  | InlineErase u32
  | CallDirectErase u32
  | CallEraseObj u32 u32 array_len alloc_type
  | CallEraseArraySize

text \<open>
  The instructions for one entry: the objects at slot \<open>k\<close> of element \<open>CurrArrayIndex\<close>, whose array is \<open>g\<close>.
  The flag of the first entry is never cleared, so every entry of a variable-length array records the length.
\<close>

definition entry_offset :: "u32 \<Rightarrow> u32 \<Rightarrow> nat \<Rightarrow> u32" where
  "entry_offset TypeSizeInt CurrArrayIndex k = of_nat k * 8 + TypeSizeInt * CurrArrayIndex"

definition count_code :: "trace_opts \<Rightarrow> alloc_type \<Rightarrow> array_len \<Rightarrow> trace_inst list" where
  "count_code opts AllocType n = (if ClMakeLogInfo opts then [CallUpdateCount AllocType n] else [])"

definition add_const_code :: "trace_opts \<Rightarrow> u32 \<Rightarrow> u32 \<Rightarrow> alloc_type \<Rightarrow> nat \<Rightarrow> nat \<Rightarrow> trace_inst list" where
  [simp]: "add_const_code opts TypeSizeInt CurrArrayIndex AllocType k g =
     (let off = entry_offset TypeSizeInt CurrArrayIndex k; OffsetV = of_nat k * 8 in
      (if ClInlineOpt opts \<and> AllocType \<noteq> REINTERPRET \<and> AllocType \<noteq> GLOBALALLOC
       then [InlineUpdate off g OffsetV]
       else if AllocType = REINTERPRET then [CallHandleReinterpret off g OffsetV]
       else [CallDirectUpdate off g OffsetV]) @ count_code opts AllocType (ConstLen 1))"

definition add_var_code ::
  "trace_opts \<Rightarrow> array_len \<Rightarrow> u32 \<Rightarrow> u32 \<Rightarrow> alloc_type \<Rightarrow> nat \<Rightarrow> nat \<Rightarrow> trace_inst list" where
  [simp]: "add_var_code opts ArraySize TypeSizeInt CurrArrayIndex AllocType k g =
     [CallUpdateObjTrace (entry_offset TypeSizeInt CurrArrayIndex k) g TypeSizeInt ArraySize (of_nat k * 8),
      CallUpdateArraySize ArraySize] @ count_code opts AllocType ArraySize"

definition del_const_code :: "trace_opts \<Rightarrow> u32 \<Rightarrow> u32 \<Rightarrow> nat \<Rightarrow> trace_inst list" where
  [simp]: "del_const_code opts TypeSizeInt CurrArrayIndex k =
     (let off = entry_offset TypeSizeInt CurrArrayIndex k in
      if ClInlineOpt opts then [InlineErase off] else [CallDirectErase off])"

definition del_var_code :: "array_len \<Rightarrow> u32 \<Rightarrow> u32 \<Rightarrow> alloc_type \<Rightarrow> bool \<Rightarrow> nat \<Rightarrow> trace_inst list" where
  [simp]: "del_var_code ArraySize TypeSizeInt CurrArrayIndex AllocType last_entry k =
     CallEraseObj (entry_offset TypeSizeInt CurrArrayIndex k) TypeSizeInt ArraySize AllocType
       # (if last_entry then [CallEraseArraySize] else [])"

fun entry_code ::
  "trace_opts \<Rightarrow> emit_type \<Rightarrow> array_len \<Rightarrow> u32 \<Rightarrow> u32 \<Rightarrow> alloc_type \<Rightarrow> bool \<Rightarrow> nat \<Rightarrow> nat \<Rightarrow> trace_inst list" where
  "entry_code opts CONOBJADD ArraySize TypeSizeInt CurrArrayIndex AllocType last_entry k g =
     add_const_code opts TypeSizeInt CurrArrayIndex AllocType k g"
| "entry_code opts VLAOBJADD ArraySize TypeSizeInt CurrArrayIndex AllocType last_entry k g =
     add_var_code opts ArraySize TypeSizeInt CurrArrayIndex AllocType k g"
| "entry_code opts CONOBJDEL ArraySize TypeSizeInt CurrArrayIndex AllocType last_entry k g =
     del_const_code opts TypeSizeInt CurrArrayIndex k"
| "entry_code opts VLAOBJDEL ArraySize TypeSizeInt CurrArrayIndex AllocType last_entry k g =
     del_var_code ArraySize TypeSizeInt CurrArrayIndex AllocType last_entry k"

text \<open>What does not change during the pass, and the global variable of a set of classes.\<close>

record module_env =
  target_layout :: data_layout
  maps :: code_maps
  opts :: trace_opts
  mname :: string

definition global_for ::
  "module_env \<Rightarrow> string \<Rightarrow> struct_set \<Rightarrow> bitype_util \<Rightarrow> (nat option \<times> bitype_util) option" where
  "global_for M Prefix S U =
     (case map_find (GlobalVariableMap U) (set_names S) of
        Some g \<Rightarrow> Some (Some g, U)
      | None \<Rightarrow> CreateGlobalVariable (target_layout M) (maps M) Prefix (mname M) S U)"

text \<open>\<open>None\<close>: \<open>CreateGlobalVariable\<close> reads past the end of a map.\<close>

fun emitInstForObjTrace ::
  "module_env \<Rightarrow> string \<Rightarrow> struct_slots \<Rightarrow> emit_type \<Rightarrow> array_len \<Rightarrow> u32 \<Rightarrow> u32 \<Rightarrow> alloc_type \<Rightarrow> bitype_util
     \<Rightarrow> (trace_inst list \<times> bitype_util) option" where
  "emitInstForObjTrace M Prefix [] EmitType ArraySize TypeSizeInt CurrArrayIndex AllocType U = Some ([], U)"
| "emitInstForObjTrace M Prefix ((k, S) # Elements) EmitType ArraySize TypeSizeInt CurrArrayIndex AllocType U =
     (let rest = emitInstForObjTrace M Prefix Elements EmitType ArraySize TypeSizeInt CurrArrayIndex AllocType in
      if S = [] then rest U
      else case global_for M Prefix S U of
          None \<Rightarrow> None
        | Some (None, U) \<Rightarrow> rest U
        | Some (Some g, U) \<Rightarrow>
            map_option (\<lambda>(code, U). (entry_code (opts M) EmitType ArraySize TypeSizeInt CurrArrayIndex AllocType
                (Elements = []) k g @ code, U)) (rest U))"

text \<open>
  The loops over the elements of an array of constant length have a \<open>uint32_t\<close> counter; \<open>None\<close> is also
  that the compiler does not get out of the loop.
\<close>

partial_function (option) emit_elements ::
  "module_env \<Rightarrow> string \<Rightarrow> struct_slots \<Rightarrow> emit_type \<Rightarrow> u64 \<Rightarrow> u32 \<Rightarrow> u32 \<Rightarrow> alloc_type \<Rightarrow> bitype_util
     \<Rightarrow> (trace_inst list \<times> bitype_util) option" where
  "emit_elements M Prefix Elements EmitType n TypeSize i AllocType U =
     (if ucast i < n
      then Option.bind (emitInstForObjTrace M Prefix Elements EmitType (ConstLen n) TypeSize i AllocType U) (\<lambda>(code, U).
           Option.bind (emit_elements M Prefix Elements EmitType n TypeSize (i + 1) AllocType U) (\<lambda>(more, U).
             Some (code @ more, U)))
      else Some ([], U))"

definition insertUpdate ::
  "module_env \<Rightarrow> string \<Rightarrow> alloc_type \<Rightarrow> struct_slots \<Rightarrow> u32 \<Rightarrow> array_len \<Rightarrow> bitype_util
     \<Rightarrow> (trace_inst list \<times> bitype_util) option" where
  "insertUpdate M Prefix AllocType Elements TypeSize ArraySize U =
     (if AllocType = REALLOC
      then emitInstForObjTrace M Prefix Elements VLAOBJADD ArraySize TypeSize 0 AllocType U
      else if AllocType = PLACEMENTNEW \<or> AllocType = REINTERPRET
      then emitInstForObjTrace M Prefix Elements CONOBJADD ArraySize TypeSize 0 AllocType U
      else case ArraySize of
          ConstLen n \<Rightarrow>
            if AllocType \<noteq> HEAPALLOC then emit_elements M Prefix Elements CONOBJADD n TypeSize 0 AllocType U
            else emitInstForObjTrace M Prefix Elements VLAOBJADD ArraySize TypeSize 0 AllocType U
        | RunLen \<Rightarrow> emitInstForObjTrace M Prefix Elements VLAOBJADD ArraySize TypeSize 0 AllocType U)"

text \<open>A null \<open>ArraySize\<close> is \<open>None\<close> and means one object.\<close>

definition insertRemove ::
  "module_env \<Rightarrow> string \<Rightarrow> alloc_type \<Rightarrow> struct_slots \<Rightarrow> array_len option \<Rightarrow> u32 \<Rightarrow> bitype_util
     \<Rightarrow> (trace_inst list \<times> bitype_util) option" where
  "insertRemove M Prefix AllocType Elements ArraySize TypeSize U =
     (if Elements = [] then Some ([], U)
      else let ArraySize = (case ArraySize of None \<Rightarrow> ConstLen 1 | Some n \<Rightarrow> n) in
        case ArraySize of
          ConstLen n \<Rightarrow>
            if AllocType \<noteq> HEAPALLOC then emit_elements M Prefix Elements CONOBJDEL n TypeSize 0 AllocType U
            else emitInstForObjTrace M Prefix Elements VLAOBJDEL ArraySize TypeSize 0 AllocType U
        | RunLen \<Rightarrow> emitInstForObjTrace M Prefix Elements VLAOBJDEL ArraySize TypeSize 0 AllocType U)"

section \<open>What the instructions do\<close>

text \<open>
  The inlined update of an entry. The index list of the field is kept in one vector, which the second
  address changes under the first: for a table that exists both stores go to the offset, and the size
  stays; in a table just taken from the pool the size becomes 1.
\<close>

definition inline_update :: "os \<Rightarrow> addr \<Rightarrow> addr \<Rightarrow> u32 \<Rightarrow> runtime \<Rightarrow> rt_error + runtime" where
  "inline_update os NewAddr g OffsetV s =
     (let idx1 = drop_bit 26 NewAddr AND (push_bit 22 1 - 1);
          idx2 = push_bit 1 (drop_bit 3 NewAddr AND (push_bit 23 1 - 1));
          idx222 = idx2 + 1;
          bitypeLookupInit = LookupStart s;
          firstLevelValue = read_cell bitypeLookupInit idx1 s
      in if firstLevelValue = 0
         then bindR (if SecondLevelStart s \<ge> SecondLevelEnd s then bitype_malloc_new_space os s else Inr s)
           (\<lambda>s. let secondStart = SecondLevelStart s;
                    s = write_cell bitypeLookupInit idx1 secondStart s;
                    s = write_cell secondStart idx2 g s;
                    s = write_size secondStart idx222 1 s;
                    s = write_offset secondStart idx222 OffsetV s
                in Inr (s\<lparr>SecondLevelStart := secondStart + 8 * push_bit 24 1\<rparr>))
         else let s = write_cell firstLevelValue idx2 g s;
                  s = write_offset firstLevelValue idx222 0 s
              in Inr (write_offset firstLevelValue idx222 OffsetV s))"

definition inline_erase :: "addr \<Rightarrow> runtime \<Rightarrow> runtime" where
  "inline_erase NewAddr s =
     (let idx1 = drop_bit 26 NewAddr AND (push_bit 22 1 - 1);
          idx2 = push_bit 1 (drop_bit 3 NewAddr AND (push_bit 23 1 - 1));
          firstLevelValue = read_cell (LookupStart s) idx1 s
      in if firstLevelValue \<noteq> 0
         then write_cell firstLevelValue (idx2 + 1) 0 (write_cell firstLevelValue idx2 0 s) else s)"

text \<open>
  The parameters of the calls that are declared as 32 bits get the low half of the length. \<open>None\<close> is a
  call that does not return.
\<close>

definition len_value :: "u64 \<Rightarrow> array_len \<Rightarrow> u64" where
  "len_value n l = (case l of ConstLen m \<Rightarrow> m | RunLen \<Rightarrow> n)"

fun exec_inst ::
  "os \<Rightarrow> (nat \<Rightarrow> addr) \<Rightarrow> addr \<Rightarrow> u64 \<Rightarrow> trace_inst \<Rightarrow> runtime \<Rightarrow> (rt_error + runtime) option" where
  "exec_inst os at p n (InlineUpdate off g OffsetV) s = Some (inline_update os (p + ucast off) (at g) OffsetV s)"
| "exec_inst os at p n (CallDirectUpdate off g OffsetV) s =
     Some (bitype_direct_updateObjTrace os (p + ucast off) (at g) OffsetV s)"
| "exec_inst os at p n (CallHandleReinterpret off g OffsetV) s =
     Some (bitype_handle_reinterpret_cast os (p + ucast off) (at g) OffsetV s)"
| "exec_inst os at p n (CallUpdateObjTrace off g TypeSize l OffsetV) s =
     Some (bitype_updateObjTrace os (p + ucast off) (at g) TypeSize (ucast (len_value n l)) OffsetV s)"
| "exec_inst os at p n (CallUpdateArraySize l) s = Some (bitype_update_arraySize os p (ucast (len_value n l)) s)"
| "exec_inst os at p n (CallUpdateCount ty l) s = Some (Inr (obj_update_count ty (len_value n l) s))"
| "exec_inst os at p n (InlineErase off) s = Some (Inr (inline_erase (p + ucast off) s))"
| "exec_inst os at p n (CallDirectErase off) s = Some (Inr (bitype_direct_eraseObj (p + ucast off) s))"
| "exec_inst os at p n (CallEraseObj off TypeSize l ty) s =
     map_option Inr (bitype_eraseObj (p + ucast off) p TypeSize (len_value n l) ty s)"
| "exec_inst os at p n CallEraseArraySize s = Some (Inr (bitype_direct_eraseArraySize p s))"

fun exec_code ::
  "os \<Rightarrow> (nat \<Rightarrow> addr) \<Rightarrow> addr \<Rightarrow> u64 \<Rightarrow> trace_inst list \<Rightarrow> runtime \<Rightarrow> (rt_error + runtime) option" where
  "exec_code os at p n [] s = Some (Inr s)"
| "exec_code os at p n (i # code) s =
     (case exec_inst os at p n i s of
        None \<Rightarrow> None | Some (Inl e) \<Rightarrow> Some (Inl e) | Some (Inr s') \<Rightarrow> exec_code os at p n code s')"

end
