(* ===== verification/StackPass.thy ===== *)
theory StackPass
  imports PassIR TraceCode
begin

text \<open>
  The pass of \<open>lib/Transforms/Instrumentation/BitypePass.cpp\<close>, which traces variables and global objects. It leaves
  the instructions of the module alone but for the copies of parameters passed by value; what it adds is a list
  of effects: code put before an instruction that records or forgets a variable, code of the constructor of the
  module, and alignments raised to 8.
  \<open>None\<close> is a compiler that crashes on a null pointer or does not come back. The call graph and the dominator
  trees belong to LLVM and are parameters.
\<close>

section \<open>State\<close>

record stack_opts =
  ClStackOpt :: bool
  ClSafeStackOpt :: bool

record stack_state =
  AllAllocaSet :: "nat sset"
  LifeTimeEndMap :: "(nat, nat) smap"
  LifeTimeStartMap :: "(nat, nat) smap"
  ReturnInstMap :: "(string, nat list) smap"
  AllAllocaWithFnMap :: "(nat, string) smap"
  mayCastMap :: "(string, bool) smap"

datatype pass_effect =
    RaiseAlignment nat
  | RecordBefore nat nat "trace_inst list"
  | ForgetBefore nat nat "trace_inst list"
  | RaiseGlobalAlignment nat
  | RecordGlobal nat "trace_inst list"

section \<open>Functions and their parameters\<close>

text \<open>
  \<open>mayCast\<close>: the body of the loop over the calls of the function starts with \<open>return true\<close>. \<open>CG\<close> is the list of
  the functions called, \<open>None\<close> for an unknown one.
\<close>

definition mayCast :: "(string \<Rightarrow> string option list) \<Rightarrow> ir_function \<Rightarrow> (string, bool) smap \<Rightarrow> bool" where
  "mayCast CG F cast_map =
     (if isDeclaration F then True
      else case map_find cast_map (fun_name F) of
          Some b \<Rightarrow> b
        | None \<Rightarrow> (case CG (fun_name F) of [] \<Rightarrow> False | _ # _ \<Rightarrow> True))"

definition isSafeStackFn ::
  "(string \<Rightarrow> string option list) \<Rightarrow> ir_function \<Rightarrow> stack_state \<Rightarrow> bool \<times> stack_state" where
  "isSafeStackFn CG F st =
     (let mayCurrentCast = mayCast CG F (mayCastMap st)
      in (mayCurrentCast, st\<lparr>mayCastMap := map_insert (fun_name F) mayCurrentCast (mayCastMap st)\<rparr>))"

text \<open>
  The copy of a parameter passed by value, put at the front of the function; its four instructions get the
  numbers from \<open>n\<close> on.
\<close>

definition replace_value :: "ir_value \<Rightarrow> ir_value \<Rightarrow> ir_inst \<Rightarrow> ir_inst" where
  "replace_value V W I = I\<lparr>inst_op := map_inst_op (\<lambda>x. if x = V then W else x) (inst_op I)\<rparr>"

definition copy_parameter :: "data_layout \<Rightarrow> nat \<Rightarrow> fn_arg \<Rightarrow> ir_function \<times> nat \<Rightarrow> ir_function \<times> nat" where
  "copy_parameter dl k A = (\<lambda>(F, n).
     let blocks = map (map (replace_value (Arg k) (Inst n))) (fun_blocks F);
         copy = [\<lparr>inst_id = n, inst_op = Alloca (pointee A) (ConstInt 1) 0, is_pointer = True\<rparr>,
           \<lparr>inst_id = n + 1, inst_op = BitCast (Some (pointee A)) (Arg k), is_pointer = True\<rparr>,
           \<lparr>inst_id = n + 2, inst_op = BitCast (Some (pointee A)) (Inst n), is_pointer = True\<rparr>,
           \<lparr>inst_id = n + 3, inst_op = Call (Direct ''llvm.memcpy.p0i8.p0i8.i64'')
              [Inst (n + 2), Inst (n + 1), ConstInt (of_nat (getTypeStoreSize dl (pointee A))), ConstInt 1, ConstInt 0],
            is_pointer = False\<rparr>]
     in (F\<lparr>fun_blocks := (copy @ hd blocks) # tl blocks\<rparr>, n + 4))"

text \<open>The loop over the parameters returns at the first one that is not passed by value.\<close>

fun copy_parameters :: "data_layout \<Rightarrow> nat \<Rightarrow> fn_arg list \<Rightarrow> ir_function \<times> nat \<Rightarrow> ir_function \<times> nat" where
  "copy_parameters dl k [] S = S"
| "copy_parameters dl k (A # As) S =
     (if \<not> hasByValAttr A then S
      else copy_parameters dl (k + 1) As (if isInterestingType (pointee A) then copy_parameter dl k A S else S))"

definition handleFnParameter :: "data_layout \<Rightarrow> ir_function \<Rightarrow> nat \<Rightarrow> ir_function \<times> nat" where
  "handleFnParameter dl F n =
     (if \<not> isInterestingFn F then (F, n) else copy_parameters dl 0 (fun_args F) (F, n))"

section \<open>Collecting\<close>

definition collectLifeTimeInfo :: "ir_function \<Rightarrow> ir_inst \<Rightarrow> stack_state \<Rightarrow> stack_state option" where
  "collectLifeTimeInfo F I st =
     (case inst_op I of
        Call f args \<Rightarrow>
          if f = LifetimeStart \<or> f = LifetimeEnd
          then (case args of
              ConstInt c # V # _ \<Rightarrow>
                if c = -1 then Some st
                else Option.bind (findAllocaForValue F V) (\<lambda>r. case r of
                    None \<Rightarrow> Some st
                  | Some AI \<Rightarrow>
                      Some (if f = LifetimeStart
                        then st\<lparr>LifeTimeStartMap := map_insert AI (inst_id I) (LifeTimeStartMap st)\<rparr>
                        else st\<lparr>LifeTimeEndMap := map_insert AI (inst_id I) (LifeTimeEndMap st)\<rparr>))
            | _ \<Rightarrow> None)
          else Some st
      | _ \<Rightarrow> Some st)"

definition collectAllocaInstInfo :: "stack_opts \<Rightarrow> ir_function \<Rightarrow> ir_inst \<Rightarrow> stack_state \<Rightarrow> stack_state" where
  "collectAllocaInstInfo flags F I st =
     (case inst_op I of
        Alloca Ty n a \<Rightarrow>
          if isInterestingType Ty \<and> \<not> (ClSafeStackOpt flags \<and> isSafeStackAlloca F I)
          then st\<lparr>AllAllocaWithFnMap := map_insert (inst_id I) (fun_name F) (AllAllocaWithFnMap st),
                  AllAllocaSet := set_insert (inst_id I) (AllAllocaSet st)\<rparr>
          else st
      | _ \<Rightarrow> st)"

definition return_insts :: "ir_function \<Rightarrow> nat list" where
  "return_insts F = map inst_id (filter (\<lambda>I. case inst_op I of Ret V \<Rightarrow> True | _ \<Rightarrow> False) (insts F))"

definition findReturnInst :: "ir_function \<Rightarrow> stack_state \<Rightarrow> stack_state" where
  "findReturnInst F st =
     st\<lparr>ReturnInstMap := map_insert (fun_name F) (return_insts F) (ReturnInstMap st)\<rparr>"

text \<open>One function of the module; the result has the function with its parameters copied.\<close>

definition collect_inst :: "stack_opts \<Rightarrow> ir_function \<Rightarrow> ir_inst \<Rightarrow> stack_state \<Rightarrow> stack_state option" where
  "collect_inst flags F I st = map_option (collectAllocaInstInfo flags F I) (collectLifeTimeInfo F I st)"

definition collect_fn ::
  "data_layout \<Rightarrow> stack_opts \<Rightarrow> (string \<Rightarrow> string option list) \<Rightarrow> ir_function \<Rightarrow>
     ir_function list \<times> nat \<times> stack_state \<Rightarrow> (ir_function list \<times> nat \<times> stack_state) option" where
  "collect_fn dl flags CG F = (\<lambda>(Fs, n, st).
     if \<not> isInterestingFn F then Some (Fs @ [F], n, st)
     else let (traced, st) = (if ClStackOpt flags then isSafeStackFn CG F st else (True, st)) in
       if \<not> traced then Some (Fs @ [F], n, st)
       else let (F, n) = handleFnParameter dl F n in
         map_option (\<lambda>st. (Fs @ [F], n, findReturnInst F st)) (foldO (collect_inst flags F) (insts F) st))"

section \<open>Emitting\<close>

abbreviation slots_of :: "module_env \<Rightarrow> ir_type \<Rightarrow> struct_slots" where
  "slots_of M Ty \<equiv> fst (getArrayAlignment (target_layout M) (maps M) Ty 0 ([], []))"

abbreviation type_size :: "module_env \<Rightarrow> ir_type \<Rightarrow> u32" where
  "type_size M Ty \<equiv> of_nat (getTypeAllocSize (target_layout M) Ty)"

definition array_length :: "ir_value \<Rightarrow> array_len" where
  "array_length n = (case n of ConstInt c \<Rightarrow> ConstLen c | _ \<Rightarrow> RunLen)"

definition find_alloca :: "ir_function list \<Rightarrow> nat \<Rightarrow> (ir_function \<times> ir_type \<times> ir_value \<times> nat) option" where
  "find_alloca Fs i =
     (case find (\<lambda>F. \<exists>I\<in>set (insts F). inst_id I = i) Fs of
        None \<Rightarrow> None
      | Some F \<Rightarrow> (case find_inst F (Inst i) of
            None \<Rightarrow> None
          | Some I \<Rightarrow> (case inst_op I of Alloca Ty n a \<Rightarrow> Some (F, Ty, n, a) | _ \<Rightarrow> None)))"

definition add_alloca ::
  "module_env \<Rightarrow> ir_function list \<Rightarrow> stack_state \<Rightarrow> nat \<Rightarrow> pass_effect list \<times> bitype_util
     \<Rightarrow> (pass_effect list \<times> bitype_util) option" where
  "add_alloca M Fs st AI = (\<lambda>(effs, U).
     Option.bind (find_alloca Fs AI) (\<lambda>(F, AllocaType, n, alignment).
       Option.bind (findNextInstruction F AI) (\<lambda>next_inst.
         let effs = effs @ (if isInCastRelatedSetType (maps M) AllocaType \<and> alignment < 8 then [RaiseAlignment AI] else []);
             offsets = slots_of M AllocaType;
             place = (case map_find (LifeTimeStartMap st) AI of Some start \<Rightarrow> start | None \<Rightarrow> next_inst)
         in if offsets = [] then Some (effs, U)
            else map_option (\<lambda>(code, U). (effs @ [RecordBefore place AI code], U))
              (insertUpdate M ''bitype'' STACKALLOC offsets (type_size M AllocaType) (array_length n) U))))"

definition handleAllocaAdd ::
  "module_env \<Rightarrow> ir_function list \<Rightarrow> stack_state \<Rightarrow> pass_effect list \<times> bitype_util
     \<Rightarrow> (pass_effect list \<times> bitype_util) option" where
  "handleAllocaAdd M Fs st = foldO (add_alloca M Fs st) (AllAllocaSet st)"

definition emitRemoveInst ::
  "module_env \<Rightarrow> string \<Rightarrow> ir_type \<Rightarrow> ir_value \<Rightarrow> bitype_util \<Rightarrow> (trace_inst list \<times> bitype_util) option" where
  "emitRemoveInst M Prefix AllocaType n U =
     (let Elements = slots_of M AllocaType in
      if Elements = [] then Some ([], U)
      else insertRemove M Prefix STACKALLOC Elements (Some (array_length n)) (type_size M AllocaType) U)"

definition remove_at ::
  "module_env \<Rightarrow> nat \<Rightarrow> ir_type \<Rightarrow> ir_value \<Rightarrow> nat \<Rightarrow> pass_effect list \<times> bitype_util
     \<Rightarrow> (pass_effect list \<times> bitype_util) option" where
  "remove_at M AI AllocaType n place = (\<lambda>(effs, U).
     map_option (\<lambda>(code, U). (effs @ [ForgetBefore place AI code], U)) (emitRemoveInst M ''bitype'' AllocaType n U))"

definition returns_alloca :: "ir_function \<Rightarrow> nat \<Rightarrow> nat \<Rightarrow> bool" where
  "returns_alloca F AI r =
     (case find_inst F (Inst r) of None \<Rightarrow> False | Some I \<Rightarrow> inst_op I = Ret (Some (Inst AI)))"

text \<open>\<open>dominates f a b\<close>: in the function \<open>f\<close> instruction \<open>a\<close> dominates instruction \<open>b\<close>.\<close>

definition delete_alloca ::
  "module_env \<Rightarrow> (string \<Rightarrow> nat \<Rightarrow> nat \<Rightarrow> bool) \<Rightarrow> ir_function list \<Rightarrow> stack_state \<Rightarrow> nat \<times> string
     \<Rightarrow> pass_effect list \<times> bitype_util \<Rightarrow> (pass_effect list \<times> bitype_util) option" where
  "delete_alloca M dominates Fs st = (\<lambda>(AI, TargetFn) S.
     Option.bind (find_alloca Fs AI) (\<lambda>(F, AllocaType, n, alignment).
       Option.bind (map_find (ReturnInstMap st) TargetFn) (\<lambda>FnReturnSet.
         let rets = filter (dominates TargetFn AI) FnReturnSet in
         if \<exists>r\<in>set rets. returns_alloca F AI r then Some S
         else case map_find (LifeTimeEndMap st) AI of
             Some lifetime_end \<Rightarrow> remove_at M AI AllocaType n lifetime_end S
           | None \<Rightarrow> foldO (remove_at M AI AllocaType n) rets S)))"

definition handleAllocaDelete ::
  "module_env \<Rightarrow> (string \<Rightarrow> nat \<Rightarrow> nat \<Rightarrow> bool) \<Rightarrow> ir_function list \<Rightarrow> stack_state \<Rightarrow> pass_effect list \<times> bitype_util
     \<Rightarrow> (pass_effect list \<times> bitype_util) option" where
  "handleAllocaDelete M dominates Fs st = foldO (delete_alloca M dominates Fs st) (AllAllocaWithFnMap st)"

definition no_stack_state :: stack_state where
  "no_stack_state = \<lparr>AllAllocaSet = [], LifeTimeEndMap = [], LifeTimeStartMap = [], ReturnInstMap = [],
     AllAllocaWithFnMap = [], mayCastMap = []\<rparr>"

definition stackObjTracing ::
  "module_env \<Rightarrow> stack_opts \<Rightarrow> (string \<Rightarrow> string option list) \<Rightarrow> (string \<Rightarrow> nat \<Rightarrow> nat \<Rightarrow> bool) \<Rightarrow> ir_function list \<Rightarrow> nat
     \<Rightarrow> pass_effect list \<times> bitype_util \<Rightarrow> (ir_function list \<times> pass_effect list \<times> bitype_util) option" where
  "stackObjTracing M flags CG dominates Fs n S =
     Option.bind (foldO (collect_fn (target_layout M) flags CG) Fs ([], n, no_stack_state)) (\<lambda>(Fs, n, st).
       Option.bind (handleAllocaAdd M Fs st S) (\<lambda>S.
         map_option (\<lambda>S. (Fs, S)) (handleAllocaDelete M dominates Fs st S)))"

section \<open>Global objects\<close>

record global_var =
  gv_id :: nat
  gv_name :: string
  gv_type :: ir_type
  gv_align :: nat

text \<open>The variables the pass itself adds are byte arrays, which are not interesting.\<close>

definition skipped_global :: "global_var \<Rightarrow> bool" where
  "skipped_global GV \<longleftrightarrow>
     gv_name GV \<in> {''llvm.global_ctors'', ''llvm.global_dtors'', ''llvm.global.annotations'', ''llvm.used''} \<or>
     startswith (gv_name GV) ''bitype.''"

definition trace_global ::
  "module_env \<Rightarrow> global_var \<Rightarrow> pass_effect list \<times> bitype_util \<Rightarrow> (pass_effect list \<times> bitype_util) option" where
  "trace_global M GV = (\<lambda>(effs, U).
     if skipped_global GV \<or> \<not> isInterestingType (gv_type GV) then Some (effs, U)
     else let (AllocaType, NElems) = (case gv_type GV of ArrayTy n Ty \<Rightarrow> (Ty, n) | Ty \<Rightarrow> (Ty, 1));
              effs = effs @ (if isInCastRelatedSetType (maps M) AllocaType \<and> gv_align GV < 8
                             then [RaiseGlobalAlignment (gv_id GV)] else []);
              offsets = slots_of M AllocaType
          in if offsets = [] then Some (effs, U)
             else map_option (\<lambda>(code, U). (effs @ [RecordGlobal (gv_id GV) code], U))
               (insertUpdate M ''bitype'' GLOBALALLOC offsets (type_size M AllocaType) (ConstLen (of_nat NElems)) U))"

definition globalObjTracing ::
  "module_env \<Rightarrow> global_var list \<Rightarrow> pass_effect list \<times> bitype_util \<Rightarrow> (pass_effect list \<times> bitype_util) option" where
  "globalObjTracing M = foldO (trace_global M)"

section \<open>The pass\<close>

definition Bitype_runOnModule ::
  "module_env \<Rightarrow> stack_opts \<Rightarrow> (string \<Rightarrow> string option list) \<Rightarrow> (string \<Rightarrow> nat \<Rightarrow> nat \<Rightarrow> bool) \<Rightarrow> ir_struct list
     \<Rightarrow> global_var list \<Rightarrow> ir_function list \<Rightarrow> nat \<Rightarrow> bitype_util
     \<Rightarrow> (ir_function list \<times> pass_effect list \<times> bitype_util) option" where
  "Bitype_runOnModule M flags CG dominates Types GVs Fs n U =
     Option.bind (globalObjTracing M GVs
         ([], getAllClassSafeCast (target_layout M) (maps M) ''bitype'' (mname M) Types U))
       (stackObjTracing M flags CG dominates Fs n)"

end
