(* ===== verification/HeapPass.thy ===== *)
theory HeapPass
  imports StackPass
begin

text \<open>
  The pass of \<open>lib/Transforms/Instrumentation/BitypeInitializePass.cpp\<close>: it traces heap objects, drops checks of
  casts it thinks to be safe, replaces checks by inlined ones and turns Clang's marks into tracing code. What LLVM
  knows about allocation functions and the demangler of the C++ library are parameters. As in \<open>StackPass\<close>,
  \<open>None\<close> is a compiler that crashes or does not come back.
\<close>

unbundle bit_operations_syntax

section \<open>Calls\<close>

record heap_lib =
  isAllocationFn :: "ir_inst \<Rightarrow> bool"
  isMallocLikeFn :: "ir_inst \<Rightarrow> bool"
  isCallocLikeFn :: "ir_inst \<Rightarrow> bool"
  isAllocLikeFn :: "ir_inst \<Rightarrow> bool"
  isFreeCall :: "ir_inst \<Rightarrow> bool"
  getMallocAllocatedType :: "ir_inst \<Rightarrow> ir_type option"
  cxa_demangle :: "string \<Rightarrow> string option"
  module_globals :: "nat list"

definition isAllocCall :: "heap_lib \<Rightarrow> ir_inst \<Rightarrow> bool" where
  "isAllocCall lib val \<longleftrightarrow>
     isAllocationFn lib val \<and> (isMallocLikeFn lib val \<or> isCallocLikeFn lib val \<or> \<not> isAllocLikeFn lib val)"

text \<open>\<open>module_globals\<close> are the numbers of the global variables of the module.\<close>

text \<open>The name of the function called directly.\<close>

definition called_name :: "ir_inst \<Rightarrow> string option" where
  "called_name I =
     (case inst_op I of
        Call f args \<Rightarrow>
          (case f of Direct g \<Rightarrow> Some g | LifetimeStart \<Rightarrow> Some ''llvm.lifetime.start''
           | LifetimeEnd \<Rightarrow> Some ''llvm.lifetime.end'' | Indirect v \<Rightarrow> None)
      | _ \<Rightarrow> None)"

abbreviation is_call :: "ir_inst \<Rightarrow> bool" where
  "is_call I \<equiv> (case inst_op I of Call f args \<Rightarrow> True | _ \<Rightarrow> False)"

definition call_args :: "ir_inst \<Rightarrow> ir_value list" where
  "call_args I = (case inst_op I of Call f args \<Rightarrow> args | _ \<Rightarrow> [])"

definition overloaded_new :: "heap_lib \<Rightarrow> ir_inst \<Rightarrow> bool" where
  "overloaded_new lib call =
     (case cxa_demangle lib (case called_name call of None \<Rightarrow> [] | Some g \<Rightarrow> g) of
        None \<Rightarrow> False
      | Some s \<Rightarrow>
          find_str ''::operator new(unsigned long)'' s \<noteq> None \<or>
          find_str ''::operator new(unsigned long, std::nothrow_t const&)'' s \<noteq> None \<or>
          find_str ''::operator new[](unsigned long)'' s \<noteq> None \<or>
          find_str ''::operator new[](unsigned long, std::nothrow_t const&)'' s \<noteq> None)"

section \<open>Heap objects\<close>

definition collectHeapAlloc :: "heap_lib \<Rightarrow> ir_inst \<Rightarrow> (nat, ir_type) smap \<Rightarrow> (nat, ir_type) smap" where
  "collectHeapAlloc lib call heapObjsNew =
     (if isAllocCall lib call \<or> overloaded_new lib call
      then case getMallocAllocatedType lib call of
          None \<Rightarrow> heapObjsNew
        | Some allocTy \<Rightarrow> if isInterestingType allocTy then map_insert (inst_id call) allocTy heapObjsNew else heapObjsNew
      else heapObjsNew)"

text \<open>
  \<open>InstPrev\<close> is the instruction before, also across blocks and functions; it is not initialised (\<open>None\<close>). The source
  of the cast must be a pointer.
\<close>

definition collectFree ::
  "heap_lib \<Rightarrow> ir_inst \<Rightarrow> ir_inst option \<Rightarrow> (nat, ir_type) smap \<Rightarrow> (nat, ir_type) smap option" where
  "collectFree lib call InstPrev heapObjsFree =
     (if \<not> isFreeCall lib call then Some heapObjsFree
      else case InstPrev of
          None \<Rightarrow> None
        | Some P \<Rightarrow>
            (case inst_op P of
               BitCast Ty v \<Rightarrow>
                 (case Ty of
                    None \<Rightarrow> None
                  | Some VTy \<Rightarrow>
                      Some (if isInterestingType VTy then map_insert (inst_id call) VTy heapObjsFree else heapObjsFree))
             | _ \<Rightarrow> Some heapObjsFree))"

definition isReallocFn :: "string \<Rightarrow> bool" where
  "isReallocFn funName \<longleftrightarrow> find_str ''realloc'' funName \<noteq> None"

text \<open>The length of an allocation: an argument of the call, or an argument divided by the size of the type.\<close>

datatype alloc_len = Whole ir_value | Quotient ir_value "64 word"

definition len_of :: "alloc_len \<Rightarrow> array_len" where
  "len_of l =
     (case l of
        Whole v \<Rightarrow> (case v of ConstInt c \<Rightarrow> ConstLen c | _ \<Rightarrow> RunLen)
      | Quotient v d \<Rightarrow> (case v of ConstInt c \<Rightarrow> ConstLen (c div d) | _ \<Rightarrow> RunLen))"

text \<open>\<open>ArraySizeF\<close>; \<open>None\<close> is the null pointer.\<close>

definition alloc_length :: "heap_lib \<Rightarrow> data_layout \<Rightarrow> ir_inst \<Rightarrow> ir_type \<Rightarrow> alloc_len option" where
  "alloc_length lib dl call Ty =
     (if isMallocLikeFn lib call \<or> \<not> isAllocLikeFn lib call \<or> \<not> isAllocationFn lib call
      then let ArraySize = (if isMallocLikeFn lib call \<or> \<not> isAllocationFn lib call then call_args call ! 0
                            else call_args call ! 1);
               TypeSizeVal = of_nat (getTypeAllocSize dl Ty)
           in Some (if TypeSizeVal \<noteq> 0 then Quotient ArraySize TypeSizeVal else Whole ArraySize)
      else if isCallocLikeFn lib call then Some (Whole (call_args call ! 1))
      else None)"

definition is_realloc :: "heap_lib \<Rightarrow> ir_inst \<Rightarrow> bool option" where
  "is_realloc lib call =
     (if isMallocLikeFn lib call \<or> \<not> isAllocLikeFn lib call \<or> \<not> isAllocationFn lib call
      then map_option isReallocFn (called_name call) else Some False)"

datatype heap_effect =
    RecordHeap nat nat alloc_type alloc_len "trace_inst list"
  | ForgetHeap nat nat "trace_inst list"
  | RecordMark nat nat "ir_value \<times> ir_value" "trace_inst list"
  | InlineCheck nat
  | EraseCall nat

definition call_inst :: "ir_function \<Rightarrow> nat \<Rightarrow> ir_inst option" where
  "call_inst F i = find_inst F (Inst i)"

definition record_heap ::
  "heap_lib \<Rightarrow> module_env \<Rightarrow> ir_function \<Rightarrow> nat \<times> ir_type \<Rightarrow> heap_effect list \<times> bitype_util
     \<Rightarrow> (heap_effect list \<times> bitype_util) option" where
  "record_heap lib M F = (\<lambda>(i, Ty) (effs, U).
     Option.bind (findNextInstruction F i) (\<lambda>next_inst.
       Option.bind (call_inst F i) (\<lambda>call.
         let offsets = slots_of M Ty in
         if offsets = [] then Some (effs, U)
         else Option.bind (is_realloc lib call) (\<lambda>isRealloc.
           case alloc_length lib (target_layout M) call Ty of
             None \<Rightarrow> Some (effs, U)
           | Some len \<Rightarrow>
               let ty = (if isRealloc then REALLOC else HEAPALLOC) in
               map_option (\<lambda>(code, U). (effs @ [RecordHeap next_inst i ty len code], U))
                 (insertUpdate M ''bitype.Init.'' ty offsets (type_size M Ty) (len_of len) U)))))"

definition forget_heap ::
  "module_env \<Rightarrow> ir_function \<Rightarrow> nat \<times> ir_type \<Rightarrow> heap_effect list \<times> bitype_util
     \<Rightarrow> (heap_effect list \<times> bitype_util) option" where
  "forget_heap M F = (\<lambda>(i, Ty) (effs, U).
     Option.bind (findNextInstruction F i) (\<lambda>next_inst.
       map_option (\<lambda>(code, U). (effs @ [ForgetHeap next_inst i code], U))
         (insertRemove M ''bitype.Init.'' HEAPALLOC (slots_of M Ty) None (type_size M Ty) U)))"

definition handleHeapAlloc ::
  "heap_lib \<Rightarrow> module_env \<Rightarrow> ir_function \<Rightarrow> (nat, ir_type) smap \<Rightarrow> heap_effect list \<times> bitype_util
     \<Rightarrow> (heap_effect list \<times> bitype_util) option" where
  "handleHeapAlloc lib M F heapObjsNew = foldO (record_heap lib M F) heapObjsNew"

definition handleFree ::
  "module_env \<Rightarrow> ir_function \<Rightarrow> (nat, ir_type) smap \<Rightarrow> heap_effect list \<times> bitype_util
     \<Rightarrow> (heap_effect list \<times> bitype_util) option" where
  "handleFree M F heapObjsFree = foldO (forget_heap M F) heapObjsFree"

text \<open>The calls of a block are collected before any code is put in.\<close>

definition scan_call ::
  "heap_lib \<Rightarrow> ir_inst \<Rightarrow> ir_inst option \<times> (nat, ir_type) smap \<times> (nat, ir_type) smap
     \<Rightarrow> (ir_inst option \<times> (nat, ir_type) smap \<times> (nat, ir_type) smap) option" where
  "scan_call lib I = (\<lambda>(InstPrev, heapObjsNew, heapObjsFree).
     if is_call I
     then map_option (\<lambda>frees. (Some I, collectHeapAlloc lib I heapObjsNew, frees)) (collectFree lib I InstPrev heapObjsFree)
     else Some (Some I, heapObjsNew, heapObjsFree))"

definition trace_block ::
  "heap_lib \<Rightarrow> module_env \<Rightarrow> ir_function \<Rightarrow> ir_inst list \<Rightarrow> ir_inst option \<times> heap_effect list \<times> bitype_util
     \<Rightarrow> (ir_inst option \<times> heap_effect list \<times> bitype_util) option" where
  "trace_block lib M F BB = (\<lambda>(InstPrev, S).
     Option.bind (foldO (scan_call lib) BB (InstPrev, [], [])) (\<lambda>(InstPrev, heapObjsNew, heapObjsFree).
       Option.bind (handleHeapAlloc lib M F heapObjsNew S) (\<lambda>S.
         map_option (\<lambda>S. (InstPrev, S)) (handleFree M F heapObjsFree S))))"

definition heapObjTracing ::
  "heap_lib \<Rightarrow> module_env \<Rightarrow> ir_function list \<Rightarrow> heap_effect list \<times> bitype_util
     \<Rightarrow> (heap_effect list \<times> bitype_util) option" where
  "heapObjTracing lib M Fs S =
     map_option snd (foldO (\<lambda>F. foldO (trace_block lib M F) (fun_blocks F)) Fs (None, S))"

section \<open>Checks the pass takes for safe\<close>

definition isHeapObj :: "heap_lib \<Rightarrow> ir_inst \<Rightarrow> bool" where
  "isHeapObj lib call =
     (if isAllocCall lib call \<or> overloaded_new lib call
      then case getMallocAllocatedType lib call of None \<Rightarrow> False | Some allocTy \<Rightarrow> isInterestingType allocTy
      else False)"

definition is_struct :: "ir_type \<Rightarrow> bool" where
  "is_struct Ty = (case Ty of StructTy ST Tys \<Rightarrow> True | _ \<Rightarrow> False)"

definition is_pointer_type :: "ir_type \<Rightarrow> bool" where
  "is_pointer_type Ty = (case Ty of PointerTy s \<Rightarrow> True | _ \<Rightarrow> False)"

definition isLocalPointer :: "ir_function \<Rightarrow> ir_value \<Rightarrow> bool" where
  "isLocalPointer F target \<longleftrightarrow>
     (case find_inst F target of
        None \<Rightarrow> False | Some I \<Rightarrow> (case inst_op I of Alloca Ty n a \<Rightarrow> True | _ \<Rightarrow> False))"

definition stored_values :: "ir_function \<Rightarrow> ir_value \<Rightarrow> ir_value list" where
  "stored_values F target =
     concat (map (\<lambda>I. case inst_op I of Store v p \<Rightarrow> if p = target then [v] else [] | _ \<Rightarrow> []) (insts F))"

text \<open>
  \<open>isSafeSrcValue\<close> of a value: the verdict, or the values all of which must be safe; for a local variable that holds a
  pointer these are the values stored to it (\<open>isSafePointer\<close>).
\<close>

definition safe_step :: "heap_lib \<Rightarrow> ir_function \<Rightarrow> ir_value \<Rightarrow> bool + ir_value list" where
  "safe_step lib F SrcValue =
     (if SrcValue \<in> Global ` set (module_globals lib) then Inl True
      else case find_inst F SrcValue of
          None \<Rightarrow> Inl False
        | Some I \<Rightarrow>
            (case inst_op I of
               Alloca Ty n a \<Rightarrow>
                 if isInterestingType Ty \<and> is_struct Ty then Inl True
                 else if is_pointer_type Ty then Inr (stored_values F SrcValue)
                 else Inl False
             | Call f args \<Rightarrow> Inl (isHeapObj lib I)
             | GetElementPtr Ty p idx \<Rightarrow> Inl (is_struct Ty)
             | Load p \<Rightarrow> if isLocalPointer F p then Inr (stored_values F p) else Inl False
             | Store v p \<Rightarrow> Inr [v]
             | BitCast Ty v \<Rightarrow> Inr [v]
             | _ \<Rightarrow> Inl False))"

text \<open>
  All values of a list, up to the first that is not safe. The recursion has no memory of where it has been: \<open>None\<close>
  is not returning.
\<close>

partial_function (option) safe_values ::
  "heap_lib \<Rightarrow> ir_function \<Rightarrow> ir_value list \<Rightarrow> bool option" where
  "safe_values lib F Values =
     (case Values of
        [] \<Rightarrow> Some True
      | SrcValue # Values' \<Rightarrow>
          (case safe_step lib F SrcValue of
             Inl safe \<Rightarrow> if safe then safe_values lib F Values' else Some False
           | Inr needed \<Rightarrow>
               Option.bind (safe_values lib F needed) (\<lambda>safe.
                 if safe then safe_values lib F Values' else Some False)))"

definition isSafePointer :: "heap_lib \<Rightarrow> ir_function \<Rightarrow> ir_value \<Rightarrow> bool option" where
  "isSafePointer lib F target =
     (if isLocalPointer F target then safe_values lib F (stored_values F target) else Some False)"

definition isSafeSrcValue :: "heap_lib \<Rightarrow> ir_function \<Rightarrow> ir_value \<Rightarrow> bool option" where
  "isSafeSrcValue lib F SrcValue = safe_values lib F [SrcValue]"

definition compiletime_verification :: "heap_lib \<Rightarrow> ir_function \<Rightarrow> ir_value \<Rightarrow> bool option" where
  "compiletime_verification lib F SrcValue = isSafeSrcValue lib F SrcValue"

text \<open>The check of a cast whose source is the conversion of a pointer; what pointer.\<close>

definition check_source :: "ir_function \<Rightarrow> ir_inst \<Rightarrow> ir_value option" where
  "check_source F I =
     (if called_name I = Some ''__bitype_cast_verification''
      then case find_inst F (call_args I ! 0) of
          None \<Rightarrow> None
        | Some P \<Rightarrow> (case inst_op P of PtrToInt v \<Rightarrow> Some v | _ \<Rightarrow> None)
      else None)"

definition erase_inst :: "nat \<Rightarrow> ir_function \<Rightarrow> ir_function" where
  "erase_inst i F = F\<lparr>fun_blocks := map (filter (\<lambda>I. inst_id I \<noteq> i)) (fun_blocks F)\<rparr>"

fun first_safe :: "heap_lib \<Rightarrow> ir_function \<Rightarrow> ir_inst list \<Rightarrow> nat option option" where
  "first_safe lib F [] = Some None"
| "first_safe lib F (I # Is) =
     (case check_source F I of
        None \<Rightarrow> first_safe lib F Is
      | Some v \<Rightarrow> Option.bind (compiletime_verification lib F v) (\<lambda>safe.
          if safe then Some (Some (inst_id I)) else first_safe lib F Is))"

text \<open>After a check is erased the loop starts again at the front of its block.\<close>

partial_function (option) verify_block ::
  "heap_lib \<Rightarrow> nat \<Rightarrow> ir_function \<times> heap_effect list \<Rightarrow> (ir_function \<times> heap_effect list) option" where
  "verify_block lib k S =
     (case S of (F, effs) \<Rightarrow>
        Option.bind (first_safe lib F (fun_blocks F ! k)) (\<lambda>r.
          case r of
            None \<Rightarrow> Some (F, effs)
          | Some i \<Rightarrow> verify_block lib k (erase_inst i F, effs @ [EraseCall i])))"

definition verify_fn ::
  "heap_lib \<Rightarrow> ir_function \<Rightarrow> ir_function list \<times> heap_effect list
     \<Rightarrow> (ir_function list \<times> heap_effect list) option" where
  "verify_fn lib F = (\<lambda>(Fs, effs).
     map_option (\<lambda>(F, effs). (Fs @ [F], effs))
       (foldO (verify_block lib) [0..<length (fun_blocks F)] (F, effs)))"

definition compileTimeVerification ::
  "heap_lib \<Rightarrow> ir_function list \<Rightarrow> heap_effect list \<Rightarrow> (ir_function list \<times> heap_effect list) option" where
  "compileTimeVerification lib Fs effs = foldO (verify_fn lib) Fs ([], effs)"

section \<open>Clang's marks\<close>

text \<open>
  \<open>emitExtendObjTraceInst\<close>: the operands of the mark are an address, the index of a class and an offset. Classes
  smaller than a slot are taken out of the sets of the slots, the emptied sets stay.
\<close>

definition drop_small :: "data_layout \<Rightarrow> struct_slots \<Rightarrow> struct_slots" where
  "drop_small dl offsets =
     map (\<lambda>(k, S). (k, filter (\<lambda>(i, s). \<not> getTypeAllocSize dl (StructTy (fst s) (snd s)) < 8) S)) offsets"

definition emitExtendObjTraceInst ::
  "module_env \<Rightarrow> ir_function \<Rightarrow> ir_inst \<Rightarrow> alloc_type \<Rightarrow> heap_effect list \<times> bitype_util
     \<Rightarrow> (heap_effect list \<times> bitype_util) option" where
  "emitExtendObjTraceInst M F call extendTarget = (\<lambda>(effs, U).
     case call_args call ! 1 of
       ConstInt classIndex \<Rightarrow>
         (case map_find (bitypeClassIndexSet (maps M)) (unat (ucast classIndex :: u32)) of
            None \<Rightarrow> Some (effs, U)
          | Some className \<Rightarrow>
              (case map_find (classStructSet U) className of
                 None \<Rightarrow> Some (effs, U)
               | Some ST \<Rightarrow>
                   let offsets = drop_small (target_layout M) (slots_of M (StructTy (fst ST) (snd ST)))
                   in if offsets = [] then Some (effs, U)
                      else Option.bind (findNextInstruction F (inst_id call)) (\<lambda>next_inst.
                        map_option (\<lambda>(code, U).
                            (effs @ [RecordMark next_inst (inst_id call) (call_args call ! 0, call_args call ! 2) code], U))
                          (insertUpdate M ''bitype.Init.'' extendTarget offsets 0 RunLen U))))
     | _ \<Rightarrow> None)"

definition extend_call ::
  "module_env \<Rightarrow> ir_function \<Rightarrow> ir_inst \<Rightarrow> heap_effect list \<times> bitype_util \<Rightarrow> (heap_effect list \<times> bitype_util) option" where
  "extend_call M F I S =
     (if called_name I = Some ''__placement_new_handle''
      then map_option (\<lambda>(effs, U). (effs @ [EraseCall (inst_id I)], U)) (emitExtendObjTraceInst M F I PLACEMENTNEW S)
      else if called_name I = Some ''__reinterpret_casting_handle''
      then map_option (\<lambda>(effs, U). (effs @ [EraseCall (inst_id I)], U)) (emitExtendObjTraceInst M F I REINTERPRET S)
      else Some S)"

definition extendClangInstrumentation ::
  "module_env \<Rightarrow> ir_function list \<Rightarrow> heap_effect list \<times> bitype_util \<Rightarrow> (heap_effect list \<times> bitype_util) option" where
  "extendClangInstrumentation M Fs = foldO (\<lambda>F. foldO (extend_call M F) (insts F)) Fs"

section \<open>Inlined checks\<close>

text \<open>
  What the instructions do that replace a call of \<open>__bitype_cast_verification\<close> with the arguments \<open>sourcePtr\<close>,
  \<open>thisPtr\<close>, \<open>indexValue\<close>, \<open>tempCode\<close>, \<open>debugValue\<close>: only the object at \<open>thisPtr\<close> is looked up. The index is a
  32-bit operand of a \<open>getelementptr\<close>, which is extended with its sign.
\<close>

definition inline_cast_check ::
  "(addr \<Rightarrow> u8) \<Rightarrow> addr \<Rightarrow> addr \<Rightarrow> u32 \<Rightarrow> u8 \<Rightarrow> int \<Rightarrow> runtime \<Rightarrow> rt_error + runtime" where
  "inline_cast_check rodata sourcePtr thisPtr indexValue tempCode debugValue s =
     (if sourcePtr = 0 then Inr s
      else let firstLeIndex = drop_bit 26 thisPtr AND (push_bit 22 1 - 1);
               firstLeAddr = read_cell (LookupStart s) firstLeIndex s
           in if firstLeAddr = 0 then Inr s
      else let secondLeIndex = push_bit 1 (drop_bit 3 thisPtr AND (push_bit 23 1 - 1));
               targetAddr = read_cell firstLeAddr secondLeIndex s
           in if targetAddr = 0 then Inr s
      else let targetValue = rodata (targetAddr + scast (indexValue + 2))
           in if (targetValue XOR tempCode) > targetValue then bitype_print_type_confusion debugValue s else Inr s)"

definition inline_check :: "ir_inst \<Rightarrow> heap_effect list" where
  "inline_check I =
     (if called_name I = Some ''__bitype_cast_verification'' then [InlineCheck (inst_id I), EraseCall (inst_id I)] else [])"

definition typecastinginlineoptimization :: "ir_function list \<Rightarrow> heap_effect list \<Rightarrow> heap_effect list" where
  "typecastinginlineoptimization Fs effs = effs @ concat (map (\<lambda>F. concat (map inline_check (insts F))) Fs)"

section \<open>The pass\<close>

definition BitypeInitialize_runOnModule ::
  "heap_lib \<Rightarrow> module_env \<Rightarrow> bool \<Rightarrow> ir_struct list \<Rightarrow> ir_function list \<Rightarrow> bitype_util
     \<Rightarrow> (ir_function list \<times> heap_effect list \<times> bitype_util) option" where
  "BitypeInitialize_runOnModule lib M ClCompileTimeVerifyOpt Types Fs U =
     (let U = getAllClassSafeCast (target_layout M) (maps M) ''bitype.Init.'' (mname M) Types U in
      Option.bind (heapObjTracing lib M Fs ([], U)) (\<lambda>(effs, U).
        Option.bind (if ClCompileTimeVerifyOpt then compileTimeVerification lib Fs effs else Some (Fs, effs)) (\<lambda>(Fs, effs).
          let effs = (if ClInlineOpt (opts M) then typecastinginlineoptimization Fs effs else effs)
          in map_option (\<lambda>S. (Fs, S)) (extendClangInstrumentation M Fs (effs, U)))))"

end
