(* ===== verification/StackSafety.thy ===== *)
theory StackSafety
  imports PassIR
begin

text \<open>
  \<open>isSafeStackAlloca\<close> against the uses that let an address leave the function, and where it departs from them. And
  \<open>findAllocaForValue\<close>: where it ends and what it finds.
\<close>

section \<open>Addresses that leave a function\<close>

text \<open>The instructions whose result is an address computed from an operand.\<close>

fun passes_address :: "'v inst_op \<Rightarrow> bool" where
  "passes_address (GetElementPtr Ty p idx) = True"
| "passes_address (BitCast Ty v) = True"
| "passes_address (IntToPtr v) = True"
| "passes_address (PHI vs) = True"
| "passes_address (PtrToInt v) = True"
| "passes_address (Select c a b) = True"
| "passes_address _ = False"

inductive comes_from :: "ir_function \<Rightarrow> ir_inst \<Rightarrow> ir_inst \<Rightarrow> bool" for F AI where
  variable: "comes_from F AI AI"
| passed: "comes_from F AI V \<Longrightarrow> I \<in> set (users F V) \<Longrightarrow> passes_address (inst_op I) \<Longrightarrow> comes_from F AI I"

text \<open>What the pass takes for a use that lets the address out.\<close>

definition lets_out :: "ir_inst \<Rightarrow> ir_inst \<Rightarrow> ir_inst \<Rightarrow> bool" where
  "lets_out AI V I =
     (case inst_op I of
        Load p \<Rightarrow> False
      | VAArg p \<Rightarrow> False
      | Store v p \<Rightarrow> v = val_of V \<and> \<not> (p = val_of AI \<and> \<not> allocates_pointer AI)
      | GetElementPtr Ty p idx \<Rightarrow> \<not> const_size AI
      | Call f args \<Rightarrow> f \<notin> {LifetimeStart, LifetimeEnd} \<and> val_of V \<in> set args \<and> is_pointer V
      | Invoke f args \<Rightarrow> val_of V \<in> set args \<and> is_pointer V
      | op \<Rightarrow> \<not> passes_address op)"

lemma judge_use_spec:
  "judge_use AI V I = Unsafe \<longleftrightarrow> lets_out AI V I"
  "judge_use AI V I = Follow \<longleftrightarrow> passes_address (inst_op I) \<and> \<not> lets_out AI V I"
  by (auto simp: judge_use_def lets_out_def split: inst_op.splits)

lemma scan_uses_None: "scan_uses AI V Is S = None \<longleftrightarrow> (\<exists>I\<in>set Is. judge_use AI V I = Unsafe)"
  by (induction AI V Is S rule: scan_uses.induct) (auto split: use_verdict.splits)

lemma scan_uses_Some:
  assumes "scan_uses AI V Is S = Some S'"
  shows "set (fst S') = set (fst S) \<union> inst_id ` {I \<in> set Is. judge_use AI V I = Follow} \<and>
    set (snd S) \<subseteq> set (snd S') \<and> set (snd S') \<subseteq> set (snd S) \<union> {I \<in> set Is. judge_use AI V I = Follow} \<and>
    inst_id ` {I \<in> set Is. judge_use AI V I = Follow} \<subseteq> set (fst S) \<union> inst_id ` set (snd S')"
  using assms
proof (induction AI V Is S rule: scan_uses.induct)
  case (2 AI V I Is Visited WorkList)
  show ?case
  proof (cases "judge_use AI V I")
    case Harmless
    with 2 have "scan_uses AI V Is (Visited, WorkList) = Some S'" by simp
    note IH = "2.IH"(1)[OF Harmless this]
    have "{J \<in> set (I # Is). judge_use AI V J = Follow} = {J \<in> set Is. judge_use AI V J = Follow}" using Harmless by auto
    with IH show ?thesis by (simp only: fst_conv snd_conv)
  next
    case Unsafe
    with 2 show ?thesis by simp
  next
    case Follow
    let ?S = "if inst_id I \<in> set Visited then (Visited, WorkList) else (inst_id I # Visited, I # WorkList)"
    from Follow 2 have "scan_uses AI V Is ?S = Some S'" by simp
    note IH = "2.IH"(2)[OF Follow this]
    have "{J \<in> set (I # Is). judge_use AI V J = Follow} = insert I {J \<in> set Is. judge_use AI V J = Follow}"
      using Follow by auto
    with IH show ?thesis by (auto split: if_splits)
  qed
qed simp

text \<open>What has been met is the variable and the visited instructions; what is not on the list is dealt with.\<close>

abbreviation met :: "ir_function \<Rightarrow> ir_inst \<Rightarrow> nat list \<Rightarrow> ir_inst set" where
  "met F AI Visited \<equiv> insert AI {I \<in> set (insts F). inst_id I \<in> set Visited}"

lemma safe_stack_loop_spec:
  assumes "distinct (map inst_id (insts F))" "AI \<in> set (insts F)"
    "set WorkList \<subseteq> met F AI Visited" "\<forall>V\<in>met F AI Visited. comes_from F AI V"
    "\<forall>V\<in>met F AI Visited - set WorkList. \<forall>I\<in>set (users F V). \<not> lets_out AI V I \<and>
       (passes_address (inst_op I) \<longrightarrow> inst_id I \<in> set Visited)"
  shows "safe_stack_loop F AI Visited WorkList \<longleftrightarrow> (\<forall>V. comes_from F AI V \<longrightarrow> (\<forall>I\<in>set (users F V). \<not> lets_out AI V I))"
  using assms
proof (induction F AI Visited WorkList rule: safe_stack_loop.induct)
  case (1 F AI Visited)
  have dealt: "I \<in> met F AI Visited \<and> \<not> lets_out AI V I"
    if "V \<in> met F AI Visited" "I \<in> set (users F V)" "passes_address (inst_op I) \<or> lets_out AI V I" for I V
  proof -
    have "\<not> lets_out AI V I \<and> (passes_address (inst_op I) \<longrightarrow> inst_id I \<in> set Visited)"
      using "1.prems"(5) that(1,2) unfolding list.set Diff_empty by blast
    with that(2,3) show ?thesis by (simp add: users_def)
  qed
  have "V \<in> met F AI Visited" if "comes_from F AI V" for V
    using that by induction (simp, use dealt in blast)
  with dealt show ?case by (simp only: safe_stack_loop.simps) blast
next
  case (2 F AI Visited V WorkList)
  have "V \<in> met F AI Visited" using "2.prems"(3) by simp
  with "2.prems"(4) have V: "V \<in> met F AI Visited" "comes_from F AI V" by blast+
  show ?case
  proof (cases "scan_uses AI V (users F V) (Visited, WorkList)")
    case None
    then obtain I where "I \<in> set (users F V)" "lets_out AI V I"
      unfolding scan_uses_None by (auto simp: judge_use_spec)
    with V None show ?thesis by auto
  next
    case (Some S)
    have safe: "\<forall>I\<in>set (users F V). \<not> lets_out AI V I"
      using scan_uses_None[of AI V "users F V" "(Visited, WorkList)"] Some by (simp add: judge_use_spec)
    let ?N = "{I \<in> set (users F V). passes_address (inst_op I)}"
    have "{I \<in> set (users F V). judge_use AI V I = Follow} = ?N" using safe by (auto simp: judge_use_spec)
    with scan_uses_Some[OF Some] have S: "set (fst S) = set Visited \<union> inst_id ` ?N" "set WorkList \<subseteq> set (snd S)"
      "set (snd S) \<subseteq> set WorkList \<union> ?N" "inst_id ` ?N \<subseteq> set Visited \<union> inst_id ` set (snd S)" by simp_all
    have N: "?N \<subseteq> set (insts F)" "\<forall>I\<in>?N. comes_from F AI I"
      subgoal by (auto simp: users_def)
      subgoal using passed[OF V(2)] by blast
      done
    have inj: "I = J" if "I \<in> set (insts F)" "J \<in> set (insts F)" "inst_id I = inst_id J" for I J
      using that "2.prems"(1) by (auto simp: distinct_map inj_on_def)
    have new: "met F AI (fst S) = met F AI Visited \<union> ?N"
    proof -
      have "J \<in> ?N" if "J \<in> set (insts F)" "inst_id J = inst_id I" "I \<in> ?N" for I J
        using inj[OF that(1) _ that(2)] N(1) that(3) by blast
      then show ?thesis unfolding S(1) using N(1) by blast
    qed
    have "safe_stack_loop F AI (fst S) (snd S) \<longleftrightarrow>
        (\<forall>V. comes_from F AI V \<longrightarrow> (\<forall>I\<in>set (users F V). \<not> lets_out AI V I))"
    proof (rule "2.IH"[OF Some "2.prems"(1)])
      show "AI \<in> set (insts F)" by (rule "2.prems"(2))
      show "set (snd S) \<subseteq> met F AI (fst S)" unfolding new using S(3) "2.prems"(3) by auto
      show "\<forall>V\<in>met F AI (fst S). comes_from F AI V" unfolding new using "2.prems"(4) N(2) by blast
      show "\<forall>V\<in>met F AI (fst S) - set (snd S). \<forall>I\<in>set (users F V). \<not> lets_out AI V I \<and>
          (passes_address (inst_op I) \<longrightarrow> inst_id I \<in> set (fst S))"
      proof (intro ballI)
        fix W I
        assume W: "W \<in> met F AI (fst S) - set (snd S)" and I: "I \<in> set (users F W)"
        have "W = V \<or> W \<in> met F AI Visited - set (V # WorkList)"
        proof (cases "W \<in> met F AI Visited")
          case True
          with W S(2) show ?thesis by auto
        next
          case False
          with W have n: "W \<in> ?N" unfolding new by blast
          with S(4) False N(1) have "inst_id W \<in> inst_id ` set (snd S)" by blast
          moreover have "set (snd S) \<subseteq> set (insts F)"
          proof -
            have "set WorkList \<subseteq> met F AI Visited" using "2.prems"(3) by simp
            moreover have "met F AI Visited \<subseteq> set (insts F)" using "2.prems"(2) by blast
            ultimately show ?thesis using S(3) N(1) by blast
          qed
          ultimately have "W \<in> set (snd S)" using inj N(1) n by blast
          with W show ?thesis by blast
        qed
        then show "\<not> lets_out AI W I \<and> (passes_address (inst_op I) \<longrightarrow> inst_id I \<in> set (fst S))"
        proof
          assume "W = V"
          with I safe show ?thesis unfolding S(1) by blast
        next
          assume "W \<in> met F AI Visited - set (V # WorkList)"
          with "2.prems"(5) I show ?thesis unfolding S(1) by blast
        qed
      qed
    qed
    then show ?thesis using Some by simp
  qed
qed

text \<open>
  The uses that let an address \<open>V\<close> out, whatever its type: it is stored anywhere, handed to a call other than a mark
  of a lifetime, returned, or used by an instruction that neither computes an address nor reads memory.
\<close>

definition leaves :: "ir_inst \<Rightarrow> ir_inst \<Rightarrow> bool" where
  "leaves V I =
     (case inst_op I of
        Load p \<Rightarrow> False
      | VAArg p \<Rightarrow> False
      | Store v p \<Rightarrow> v = val_of V
      | Call f args \<Rightarrow> f \<notin> {LifetimeStart, LifetimeEnd} \<and> val_of V \<in> set args
      | Invoke f args \<Rightarrow> val_of V \<in> set args
      | op \<Rightarrow> \<not> passes_address op)"

definition handed_as_number :: "ir_inst \<Rightarrow> ir_inst \<Rightarrow> bool" where
  "handed_as_number V I \<longleftrightarrow> \<not> is_pointer V \<and> (\<exists>f args. inst_op I = Call f args \<or> inst_op I = Invoke f args)"

definition stored_to_itself :: "ir_inst \<Rightarrow> ir_inst \<Rightarrow> ir_inst \<Rightarrow> bool" where
  "stored_to_itself AI V I \<longleftrightarrow> inst_op I = Store (val_of V) (val_of AI) \<and> \<not> allocates_pointer AI"

definition indexes :: "ir_inst \<Rightarrow> bool" where
  "indexes I \<longleftrightarrow> (\<exists>Ty p idx. inst_op I = GetElementPtr Ty p idx)"

lemma lets_out_leaves:
  "\<not> lets_out AI V I \<longleftrightarrow>
     (leaves V I \<longrightarrow> handed_as_number V I \<or> stored_to_itself AI V I) \<and> (indexes I \<longrightarrow> const_size AI)"
  by (cases "inst_op I") (auto simp: lets_out_def leaves_def handed_as_number_def stored_to_itself_def indexes_def)

text \<open>
  C32: What \<open>isSafeStackAlloca\<close> decides: it ends, and it accepts a variable exactly if no address that comes from the
  variable, through any number of casts, selections and address computations, leaves the function, but for two ways
  it allows: an address that is a number may be handed to calls, and an address may be stored in the variable itself
  unless the variable is a pointer. Besides, a variable of no constant length must not be indexed.
\<close>

theorem isSafeStackAlloca_iff:
  assumes "distinct (map inst_id (insts F))" "AI \<in> set (insts F)"
  shows "isSafeStackAlloca F AI \<longleftrightarrow> (\<forall>V I. comes_from F AI V \<and> I \<in> set (users F V) \<longrightarrow>
    (leaves V I \<longrightarrow> handed_as_number V I \<or> stored_to_itself AI V I) \<and> (indexes I \<longrightarrow> const_size AI))"
proof -
  have "safe_stack_loop F AI [] [AI] \<longleftrightarrow> (\<forall>V. comes_from F AI V \<longrightarrow> (\<forall>I\<in>set (users F V). \<not> lets_out AI V I))"
    by (rule safe_stack_loop_spec[OF assms]) (auto intro: variable)
  then show ?thesis unfolding isSafeStackAlloca_def lets_out_leaves[symmetric] by blast
qed

section \<open>The source of a value\<close>

text \<open>The operands \<open>findAllocaForValue\<close> follows from an instruction.\<close>

fun followed :: "nat \<Rightarrow> ir_value inst_op \<Rightarrow> ir_value list" where
  "followed i (BitCast Ty V) = [V]"
| "followed i (IntToPtr V) = [V]"
| "followed i (PtrToInt V) = [V]"
| "followed i (OtherCast V) = [V]"
| "followed i (PHI Vs) = filter (\<lambda>V. V \<noteq> Inst i) Vs"
| "followed i _ = []"

fun goes_on :: "'v inst_op \<Rightarrow> bool" where
  "goes_on (BitCast Ty V) = True"
| "goes_on (IntToPtr V) = True"
| "goes_on (PtrToInt V) = True"
| "goes_on (OtherCast V) = True"
| "goes_on (PHI Vs) = True"
| "goes_on _ = False"

inductive source_of :: "ir_function \<Rightarrow> ir_value \<Rightarrow> ir_value \<Rightarrow> bool" for F where
  itself: "\<forall>I. find_inst F V = Some I \<longrightarrow> \<not> goes_on (inst_op I) \<Longrightarrow> source_of F V V"
| through: "find_inst F V = Some I \<Longrightarrow> W \<in> set (followed (inst_id I) (inst_op I)) \<Longrightarrow> source_of F W R \<Longrightarrow> source_of F V R"

lemma find_instD: "find_inst F V = Some I \<Longrightarrow> V = val_of I \<and> I \<in> set (insts F)"
  by (auto simp: find_inst_def split: ir_value.splits dest: find_SomeD simp del: set_concat)

text \<open>One value: the body of \<open>findAllocaForValue\<close>.\<close>

definition alloca_of :: "ir_function \<Rightarrow> ir_value \<Rightarrow> nat option option" where
  "alloca_of F V =
     (case find_inst F V of
        None \<Rightarrow> Some None
      | Some I \<Rightarrow>
          (case inst_op I of
             Alloca Ty n a \<Rightarrow> Some (Some (inst_id I))
           | BitCast Ty V \<Rightarrow> incoming_alloca F [V] None None
           | IntToPtr V \<Rightarrow> incoming_alloca F [V] None None
           | PtrToInt V \<Rightarrow> incoming_alloca F [V] None None
           | OtherCast V \<Rightarrow> incoming_alloca F [V] None None
           | PHI Vs \<Rightarrow> incoming_alloca F Vs (Some (inst_id I)) None
           | _ \<Rightarrow> Some None))"

lemma incoming_simps:
  "incoming_alloca F [] PN Res = Some Res"
  "incoming_alloca F (V # Vs) PN Res =
     (if PN \<noteq> None \<and> V = Inst (the PN) then incoming_alloca F Vs PN Res
      else Option.bind (alloca_of F V) (\<lambda>A.
        if A = None \<or> (Res \<noteq> None \<and> A \<noteq> Res) then Some None else incoming_alloca F Vs PN A))"
  unfolding alloca_of_def by (subst incoming_alloca.simps; simp)+

lemma incoming_single: "incoming_alloca F [V] None None = alloca_of F V"
  by (auto simp: incoming_simps bind_eq_Some_conv split: option.split bind_split)

lemma findAllocaForValue_eq: "findAllocaForValue F V = alloca_of F V"
  by (simp add: findAllocaForValue_def incoming_single)

lemma incoming_found:
  assumes "incoming_alloca F Vs PN Res = Some (Some a)"
  shows "(Res = None \<or> Res = Some a) \<and> (\<forall>V\<in>set Vs. PN = None \<or> V \<noteq> Inst (the PN) \<longrightarrow> alloca_of F V = Some (Some a))"
  using assms
proof (induction Vs arbitrary: Res)
  case (Cons V Vs)
  show ?case
  proof (cases "PN \<noteq> None \<and> V = Inst (the PN)")
    case True
    with Cons show ?thesis by (auto simp: incoming_simps)
  next
    case False
    with Cons.prems obtain A where A: "alloca_of F V = Some A"
      "(if A = None \<or> (Res \<noteq> None \<and> A \<noteq> Res) then Some None else incoming_alloca F Vs PN A) = Some (Some a)"
      by (auto simp: incoming_simps bind_eq_Some_conv)
    from A(2) have c: "A \<noteq> None" "Res = None \<or> A = Res" "incoming_alloca F Vs PN A = Some (Some a)"
      by (auto split: if_splits)
    with Cons.IH[OF c(3)] A(1) show ?thesis by auto
  qed
qed (simp add: incoming_simps)

lemma alloca_of_source:
  assumes "source_of F V R" "alloca_of F V = Some (Some a)"
  shows "R = Inst a"
  using assms
proof induction
  case (itself V)
  then show ?case by (auto simp: alloca_of_def split: option.splits inst_op.splits dest!: find_instD)
next
  case (through V I W R)
  have "alloca_of F W = Some (Some a)"
  proof (cases "inst_op I")
    case (PHI Vs)
    with through have "incoming_alloca F Vs (Some (inst_id I)) None = Some (Some a)" by (simp add: alloca_of_def)
    from incoming_found[OF this] through(2) show ?thesis by (simp add: PHI)
  qed (use through in \<open>auto simp: alloca_of_def incoming_single[unfolded alloca_of_def]\<close>)
  with through.IH show ?case by simp
qed

lemma incoming_total:
  assumes "\<forall>V\<in>set Vs. PN = None \<or> V \<noteq> Inst (the PN) \<longrightarrow> alloca_of F V \<noteq> None"
  shows "\<exists>r. incoming_alloca F Vs PN Res = Some r"
  using assms
proof (induction Vs arbitrary: Res)
  case (Cons V Vs)
  then have IH: "\<exists>r. incoming_alloca F Vs PN Res = Some r" for Res by simp
  show ?case
  proof (cases "PN \<noteq> None \<and> V = Inst (the PN)")
    case True
    with IH show ?thesis by (simp add: incoming_simps)
  next
    case False
    with Cons.prems obtain A where "alloca_of F V = Some A" by auto
    with False IH show ?thesis by (auto simp: incoming_simps)
  qed
qed (simp add: incoming_simps)

text \<open>Without cycles through other instructions the recursion ends.\<close>

definition acyclic_by :: "(ir_inst \<Rightarrow> nat) \<Rightarrow> ir_function \<Rightarrow> bool" where
  "acyclic_by rank F \<longleftrightarrow> (\<forall>I\<in>set (insts F). \<forall>W\<in>set (followed (inst_id I) (inst_op I)). \<forall>J.
     find_inst F W = Some J \<longrightarrow> rank J < rank I)"

lemma alloca_of_total:
  assumes "acyclic_by rank F"
  shows "\<exists>r. alloca_of F V = Some r"
proof (induction "case find_inst F V of None \<Rightarrow> 0 | Some I \<Rightarrow> Suc (rank I)" arbitrary: V rule: less_induct)
  case less
  show ?case
  proof (cases "find_inst F V")
    case None
    then show ?thesis by (simp add: alloca_of_def)
  next
    case (Some I)
    have sub: "\<exists>r. alloca_of F W = Some r" if "W \<in> set (followed (inst_id I) (inst_op I))" for W
    proof (rule less)
      show "(case find_inst F W of None \<Rightarrow> 0 | Some I \<Rightarrow> Suc (rank I)) < (case find_inst F V of None \<Rightarrow> 0 | Some I \<Rightarrow> Suc (rank I))"
        using assms[unfolded acyclic_by_def, rule_format, OF conjunct2[OF find_instD[OF Some]] that] unfolding Some
        by (cases "find_inst F W") simp_all
    qed
    show ?thesis
    proof (cases "inst_op I")
      case (PHI Vs)
      have "\<forall>V\<in>set Vs. Some (inst_id I) = None \<or> V \<noteq> Inst (the (Some (inst_id I))) \<longrightarrow> alloca_of F V \<noteq> None"
        using sub by (auto simp: PHI)
      from incoming_total[OF this, of None] show ?thesis using Some by (simp add: alloca_of_def PHI)
    qed (use sub Some in \<open>auto simp: alloca_of_def incoming_single[unfolded alloca_of_def]\<close>)
  qed
qed

text \<open>
  C33: Where no chain of casts and \<open>PHI\<close>s comes back to an instruction but to the \<open>PHI\<close> it is an operand of,
  \<open>findAllocaForValue\<close> returns, and a variable it returns is the only source of the value.
\<close>

theorem findAllocaForValue_sound:
  assumes "acyclic_by rank F"
  shows "\<exists>r. findAllocaForValue F V = Some r \<and> (\<forall>a R. r = Some a \<and> source_of F V R \<longrightarrow> R = Inst a)"
  using alloca_of_total[OF assms, of V] alloca_of_source unfolding findAllocaForValue_eq by blast

text \<open>Two \<open>PHI\<close>s that are each other's first operand keep it from returning.\<close>

lemma phi_cycle_diverges:
  assumes "find_inst F (Inst i) = Some I" "inst_op I = PHI (Inst j # vs)"
    "find_inst F (Inst j) = Some J" "inst_op J = PHI (Inst i # ws)" "i \<noteq> j"
  shows "findAllocaForValue F (Inst i) = None"
proof -
  have ids: "inst_id I = i" "inst_id J = j" using find_instD[OF assms(1)] find_instD[OF assms(3)] by simp_all
  let ?loop = "\<lambda>Vs PN. (PN = Some i \<and> hd Vs = Inst j \<and> Vs \<noteq> []) \<or> (PN = Some j \<and> hd Vs = Inst i \<and> Vs \<noteq> [])"
  have never: "\<not> (G = F \<and> ?loop Vs PN)" if "incoming_alloca G Vs PN Res = Some r" for G Vs PN Res r
  proof (rule incoming_alloca.raw_induct[where P = "\<lambda>G Vs PN Res r. \<not> (G = F \<and> ?loop Vs PN)", OF _ that], goal_cases)
    case (1 f G Vs PN Res r)
    show ?case
    proof
      assume a: "G = F \<and> ?loop Vs PN"
      then obtain V Vs' where Vs: "Vs = V # Vs'" by (cases Vs) auto
      have "\<exists>x. f F (Inst i # ws) (Some j) None = Some x \<or> f F (Inst j # vs) (Some i) None = Some x"
        using 1(2) a assms unfolding Vs by (auto simp: ids bind_eq_Some_conv)
      then show False using 1(1) by fastforce
    qed
  qed
  have "incoming_alloca F (Inst j # vs) (Some i) None = None"
    using never[of F "Inst j # vs" "Some i" None] by (cases "incoming_alloca F (Inst j # vs) (Some i) None") auto
  then show ?thesis using assms(1,2) by (simp add: findAllocaForValue_eq alloca_of_def ids)
qed

section \<open>Examples\<close>

text \<open>A function with a variable of class \<open>B\<close>, its address as a number, and the check of a cast of it.\<close>

definition demo_check_fn :: ir_function where
  "demo_check_fn = \<lparr>fun_name = ''f'', fun_args = [], fun_blocks =
     [[\<lparr>inst_id = 2, inst_op = Alloca demo_B (ConstInt 1) 8, is_pointer = True\<rparr>,
       \<lparr>inst_id = 3, inst_op = PtrToInt (Inst 2), is_pointer = False\<rparr>,
       \<lparr>inst_id = 4, inst_op = Call (Direct ''__bitype_cast_verification'') [Inst 3, Inst 3, ConstInt 0, ConstInt 2, ConstInt 0],
         is_pointer = False\<rparr>,
       \<lparr>inst_id = 5, inst_op = Ret None, is_pointer = False\<rparr>]]\<rparr>"

lemma findAllocaForValue_sound_witness:
  "\<exists>r. findAllocaForValue demo_check_fn (Inst 3) = Some r \<and>
     (\<forall>a R. r = Some a \<and> source_of demo_check_fn (Inst 3) R \<longrightarrow> R = Inst a)"
proof (rule findAllocaForValue_sound)
  show "acyclic_by inst_id demo_check_fn"
    by (auto simp: acyclic_by_def demo_check_fn_def find_inst_def split: if_splits)
qed

text \<open>A variable whose address goes to a call as a number is accepted.\<close>

lemma isSafeStackAlloca_iff_witness:
  "\<exists>P C. inst_op P = PtrToInt (Inst 2) \<and> leaves P C \<and> handed_as_number P C \<and>
     isSafeStackAlloca demo_check_fn \<lparr>inst_id = 2, inst_op = Alloca demo_B (ConstInt 1) 8, is_pointer = True\<rparr>"
proof -
  let ?A = "\<lparr>inst_id = 2, inst_op = Alloca demo_B (ConstInt 1) 8, is_pointer = True\<rparr>"
  let ?P = "\<lparr>inst_id = 3, inst_op = PtrToInt (Inst 2), is_pointer = False\<rparr>"
  let ?C = "\<lparr>inst_id = 4, inst_op = Call (Direct ''__bitype_cast_verification'') [Inst 3, Inst 3, ConstInt 0, ConstInt 2, ConstInt 0],
       is_pointer = False\<rparr>"
  have "distinct (map inst_id (insts demo_check_fn))" "?A \<in> set (insts demo_check_fn)"
    by (simp_all add: demo_check_fn_def)
  note iff = isSafeStackAlloca_iff[OF this]
  have safe: "isSafeStackAlloca demo_check_fn ?A"
    by (simp add: isSafeStackAlloca_def demo_check_fn_def users_def judge_use_def const_size_def)
  have "comes_from demo_check_fn ?A ?P"
    by (rule passed[OF variable]) (simp_all add: demo_check_fn_def users_def)
  moreover have "?C \<in> set (users demo_check_fn ?P)" by (simp add: demo_check_fn_def users_def)
  ultimately have "leaves ?P ?C \<longrightarrow> handed_as_number ?P ?C \<or> stored_to_itself ?A ?P ?C" using iff safe by blast
  moreover have "leaves ?P ?C" "\<not> stored_to_itself ?A ?P ?C" by (simp_all add: leaves_def stored_to_itself_def)
  ultimately have "inst_op ?P = PtrToInt (Inst 2) \<and> leaves ?P ?C \<and> handed_as_number ?P ?C" by simp
  with safe show ?thesis by blast
qed

end
