(* ===== verification/TraceInline.thy ===== *)
theory TraceInline
  imports TraceCode
begin

text \<open>
  Inlining the updates of the table does not change what is recorded: the inlined instructions against
  the calls they replace, alone and in the code emitted for an allocation. The two differ only in the
  recorded size of a slot, which no update reads.
\<close>

unbundle bit_operations_syntax

section \<open>One inlined update\<close>

lemma inline_indices:
  "drop_bit 26 a AND (push_bit 22 1 - 1) = l1_index a" "drop_bit 3 a AND (push_bit 23 1 - 1) = l2_index a"
  "8 * push_bit 24 (1 :: u64) = 8 * (L2_BITS * 2)" "read_cell (LookupStart s) i s = read_l1 s i"
  unfolding l1_index_def l2_index_def L1_MASK_def L2_MASK_def L2_NUM_def L2_BITS_def read_cell_def read_l1_def
  by simp_all

lemma inline_erase_eq: "inline_erase a s = bitype_direct_eraseObj a s"
  unfolding inline_erase_def bitype_direct_eraseObj_def Let_def inline_indices by (rule refl)

text \<open>Two writes to one word, and to the two words of a slot.\<close>

lemma write_write [simp]: "write_cell t i v (write_cell t i w s) = write_cell t i v s"
  by (simp add: write_cell_def)

lemma read_write [simp]: "read_cell t i (write_cell t i v s) = v"
  by (simp add: read_cell_def write_cell_def)

lemma read_write_next [simp]: "read_cell t (i + 1) (write_cell t i v s) = read_cell t (i + 1) s"
proof -
  have "t + 8 * (i + 1) \<noteq> t + 8 * (i :: u64)" by (simp add: distrib_left)
  then show ?thesis by (simp add: read_cell_def write_cell_def)
qed

lemma write_start [simp]:
  "write_cell t i v (s\<lparr>SecondLevelStart := x\<rparr>) = (write_cell t i v s)\<lparr>SecondLevelStart := x\<rparr>"
  "read_cell t i (s\<lparr>SecondLevelStart := x\<rparr>) = read_cell t i s"
  by (simp_all add: write_cell_def read_cell_def)

text \<open>The entry of a slot as the code leaves it, by size.\<close>

definition put_entry :: "addr \<Rightarrow> addr \<Rightarrow> addr \<Rightarrow> u32 \<Rightarrow> u32 \<Rightarrow> runtime \<Rightarrow> runtime" where
  "put_entry t a g sz off s =
     write_cell t (push_bit 1 (l2_index a) + 1) (so_pack sz off) (write_cell t (push_bit 1 (l2_index a)) g s)"

lemma put_entry_eqs:
  "write_offset t (push_bit 1 (l2_index a) + 1) off
     (write_size t (push_bit 1 (l2_index a) + 1) sz (write_cell t (push_bit 1 (l2_index a)) g s)) =
   put_entry t a g sz off s"
  "write_size t (push_bit 1 (l2_index a) + 1) sz (put_entry t a g sz' off s) = put_entry t a g sz off s"
  "write_offset t (push_bit 1 (l2_index a) + 1) off
     (write_offset t (push_bit 1 (l2_index a) + 1) off' (write_cell t (push_bit 1 (l2_index a)) g s)) =
   put_entry t a g (so_size (read_cell t (push_bit 1 (l2_index a) + 1) s)) off s"
  by (simp_all add: put_entry_def write_offset_def write_size_def)

lemma direct_update_entry:
  "bitype_direct_updateObjTrace os a g off s =
     bindR (level2_or_new os (l1_index a) s) (\<lambda>(t, s). Inr (put_entry t a g 0 off s))"
  unfolding bitype_direct_updateObjTrace_def Let_def put_entry_eqs by (rule refl)

lemma inline_update_entry:
  "inline_update os a g off s =
     bindR (level2_or_new os (l1_index a) s) (\<lambda>(t, s'). Inr (put_entry t a g
       (if has_table s a then so_size (read_cell t (push_bit 1 (l2_index a) + 1) s') else 1) off s'))"
proof (cases "has_table s a")
  case True
  then have "read_l1 s (l1_index a) \<noteq> 0" by (simp add: has_table_def)
  then show ?thesis
    unfolding inline_update_def level2_or_new_def Let_def inline_indices put_entry_eqs
    by (simp only: if_False bindR_simps prod.case True if_True not_False_eq_True)
next
  case False
  then have 0: "read_l1 s (l1_index a) = 0" by (simp add: has_table_def)
  have start: "put_entry t a g 1 off (s\<lparr>SecondLevelStart := x\<rparr>) = (put_entry t a g 1 off s)\<lparr>SecondLevelStart := x\<rparr>"
    for t s x unfolding put_entry_def by (simp only: write_start)
  have l: "LookupStart s' = LookupStart s"
    if "(if SecondLevelStart s \<ge> SecondLevelEnd s then bitype_malloc_new_space os s else Inr s) = Inr s'" for s'
    using that
    by (auto simp: bitype_malloc_new_space_def bitype_mmap_def bindR_Inr_iff split: option.splits if_splits)
  show ?thesis
    unfolding inline_update_def level2_or_new_def Let_def inline_indices put_entry_eqs
    using 0 l False
    by (cases "if SecondLevelStart s \<ge> SecondLevelEnd s then bitype_malloc_new_space os s else Inr s")
      (simp_all only: if_True if_False bindR_simps prod.case start simp_thms)
qed

section \<open>States that differ only in recorded sizes\<close>

lemma read_l1_new:
  assumes "os_ok os" "rt_inv os s" "level2_or_new os (l1_index a) s = Inr (t, s')"
  shows "read_l1 s' (l1_index b) = (if l1_index b = l1_index a then t else read_l1 s (l1_index b))"
proof (cases "l1_index b = l1_index a")
  case True
  with level2_or_new_spec(2)[OF assms] show ?thesis by simp
next
  case False
  obtain C where C: "rt_inv_at os C s" using assms(2) by (auto simp: rt_inv_def)
  show ?thesis
  proof (cases "read_l1 s (l1_index a) = 0")
    case True
    obtain u where u: "(if SecondLevelStart s \<ge> SecondLevelEnd s then bitype_malloc_new_space os s else Inr s) = Inr u"
      and s': "s' = (write_cell (LookupStart u) (l1_index a) (SecondLevelStart u) u)
          \<lparr>SecondLevelStart := SecondLevelStart u + 8 * (L2_BITS * 2)\<rparr>"
      using assms(3) True by (auto simp: level2_or_new_def Let_def bindR_Inr_iff simp del: sizes)
    have r: "LookupStart u = LookupStart s" "read_l1 u (l1_index b) = read_l1 s (l1_index b)"
      using u malloc_new_space_inv(6,7)[OF assms(1) C, of u] l1_index_less by (auto split: if_splits)
    have "LookupStart s + 8 * l1_index b \<noteq> LookupStart s + 8 * l1_index a"
      using l1_cell_inj[OF assms(1) rt_inv_atD(3)[OF C] l1_index_less l1_index_less] False by simp
    then have "read_l1 s' (l1_index b) = read_l1 u (l1_index b)"
      by (simp add: s' r read_l1_def write_cell_def)
    with r False show ?thesis by simp
  next
    case 2: False
    with assms(3) False show ?thesis by (auto simp: level2_or_new_def)
  qed
qed

lemma new_fields:
  assumes "level2_or_new os (l1_index a) s = Inr (t, s')"
  shows "LookupStart s' = LookupStart s" "count_index s' = count_index s"
  using assms
  by (auto simp: level2_or_new_def bitype_malloc_new_space_def bitype_mmap_def bindR_Inr_iff Let_def
      split: if_splits option.splits)

text \<open>What a run of the library depends on, sizes apart.\<close>

definition fields_of :: "runtime \<Rightarrow> addr \<times> addr \<times> addr \<times> nat \<times> (nat \<Rightarrow> bool) \<times> int list \<times> (nat \<Rightarrow> u64)" where
  "fields_of s = (LookupStart s, SecondLevelStart s, SecondLevelEnd s, mmaps s, debugArray s, reports s, count_index s)"

definition same_records :: "os \<Rightarrow> runtime \<Rightarrow> runtime \<Rightarrow> bool" where
  "same_records os s t \<longleftrightarrow> rt_inv os s \<and> rt_inv os t \<and> fields_of s = fields_of t \<and>
     (\<forall>a. read_l1 s (l1_index a) = read_l1 t (l1_index a) \<and> ref_of s a = ref_of t a \<and>
       so_offset (meta_of s a) = so_offset (meta_of t a))"

lemma same_records_refl [simp]: "same_records os s s \<longleftrightarrow> rt_inv os s"
  by (auto simp: same_records_def)

lemma level2_or_new_same:
  assumes "os_ok os" "same_records os s t"
  shows "(\<exists>e. level2_or_new os (l1_index a) s = Inl e \<and> level2_or_new os (l1_index a) t = Inl e) \<or>
    (\<exists>l s' t'. level2_or_new os (l1_index a) s = Inr (l, s') \<and> level2_or_new os (l1_index a) t = Inr (l, t') \<and>
       same_records os s' t')"
proof -
  let ?n = "level2_or_new os (l1_index a)"
  have f: "fields_of s = fields_of t" and r: "read_l1 s (l1_index a) = read_l1 t (l1_index a)"
    and inv: "rt_inv os s" "rt_inv os t"
    using assms(2) by (auto simp: same_records_def)
  have "(\<exists>e. ?n s = Inl e \<and> ?n t = Inl e) \<or>
      (\<exists>l s' t'. ?n s = Inr (l, s') \<and> ?n t = Inr (l, t') \<and> fields_of s' = fields_of t')"
    using f r
    by (auto simp: fields_of_def level2_or_new_def bitype_malloc_new_space_def bitype_mmap_def Let_def
        split: option.split)
  moreover have "same_records os s' t'"
    if "?n s = Inr (l, s')" "?n t = Inr (l, t')" "fields_of s' = fields_of t'" for l s' t'
    using level2_or_new_spec(1,4,5)[OF assms(1) inv(1) that(1)] level2_or_new_spec(1,4,5)[OF assms(1) inv(2) that(2)]
      read_l1_new[OF assms(1) inv(1) that(1)] read_l1_new[OF assms(1) inv(2) that(2)] assms(2) that(3)
    by (simp add: same_records_def)
  ultimately show ?thesis by blast
qed

lemma fields_of_write [simp]: "fields_of (write_cell t i v s) = fields_of s"
  by (simp add: fields_of_def write_cell_def)

lemma same_recordsD:
  assumes "same_records os s t"
  shows "rt_inv os s" "rt_inv os t" "fields_of s = fields_of t" "read_l1 s (l1_index a) = read_l1 t (l1_index a)"
    "ref_of s a = ref_of t a" "so_offset (meta_of s a) = so_offset (meta_of t a)" "has_table s a \<longleftrightarrow> has_table t a"
  using assms by (simp_all add: same_records_def has_table_def)

lemma write_ref_same:
  assumes "os_ok os" "same_records os s t" "has_table s a" "l = read_l1 s (l1_index a)"
  shows "same_records os (write_cell l (push_bit 1 (l2_index a)) v s) (write_cell l (push_bit 1 (l2_index a)) v t)"
proof -
  note d = same_recordsD[OF assms(2)]
  have t: "has_table t a" "l = read_l1 t (l1_index a)" using assms(3,4) d(4,7) by simp_all
  note w = write_ref_spec[OF assms(1) d(1) assms(3), folded assms(4)] write_ref_spec[OF assms(1) d(2) t(1), folded t(2)]
  show ?thesis unfolding same_records_def fields_of_write w(2,3,5) w(7,8,10) using w(1,6) d by simp
qed

lemma write_meta_same:
  assumes "os_ok os" "same_records os s t" "has_table s a" "l = read_l1 s (l1_index a)" "so_offset v = so_offset w"
  shows "same_records os (write_cell l (push_bit 1 (l2_index a) + 1) v s) (write_cell l (push_bit 1 (l2_index a) + 1) w t)"
proof -
  note d = same_recordsD[OF assms(2)]
  have t: "has_table t a" "l = read_l1 t (l1_index a)" using assms(3,4) d(4,7) by simp_all
  note w = write_meta_spec[OF assms(1) d(1) assms(3), folded assms(4)] write_meta_spec[OF assms(1) d(2) t(1), folded t(2)]
  show ?thesis unfolding same_records_def fields_of_write w(2,3,5) w(7,8,10) using w(1,6) d assms(5) by simp
qed

lemma put_entry_same:
  assumes "os_ok os" "same_records os s t" "has_table s a" "l = read_l1 s (l1_index a)"
  shows "same_records os (put_entry l a g sz off s) (put_entry l a g sz' off t)"
proof -
  note w = write_ref_spec[OF assms(1) same_recordsD(1)[OF assms(2)] assms(3), folded assms(4), of g]
  have "has_table (write_cell l (push_bit 1 (l2_index a)) g s) a"
    "l = read_l1 (write_cell l (push_bit 1 (l2_index a)) g s) (l1_index a)"
    using w(4)[of a] w(5)[of a] assms(3,4) by simp_all
  from write_meta_same[OF assms(1) write_ref_same[OF assms] this] show ?thesis by (simp add: put_entry_def)
qed

abbreviation same_run :: "os \<Rightarrow> rt_error + runtime \<Rightarrow> rt_error + runtime \<Rightarrow> bool" where
  "same_run os \<equiv> rel_sum (=) (same_records os)"

lemma bind_level2_same:
  assumes os: "os_ok os" and sim: "same_records os s t"
    and c: "\<And>l s' t'. same_records os s' t' \<Longrightarrow> has_table s' a \<Longrightarrow> l = read_l1 s' (l1_index a) \<Longrightarrow>
      level2_or_new os (l1_index a) t = Inr (l, t') \<Longrightarrow> same_run os (f (l, s')) (g (l, t'))"
  shows "same_run os (bindR (level2_or_new os (l1_index a) s) f) (bindR (level2_or_new os (l1_index a) t) g)"
  using level2_or_new_same[OF os sim, of a]
proof (elim disjE exE conjE)
  fix l s' t'
  assume n: "level2_or_new os (l1_index a) s = Inr (l, s')" "level2_or_new os (l1_index a) t = Inr (l, t')"
    and "same_records os s' t'"
  with c[OF this(3) level2_or_new_spec(3)[OF os same_recordsD(1)[OF sim] n(1)]
      level2_or_new_spec(2)[OF os same_recordsD(1)[OF sim] n(1)] n(2)]
  show ?thesis by simp
qed simp

lemma direct_update_same:
  "os_ok os \<Longrightarrow> same_records os s t \<Longrightarrow>
     same_run os (bitype_direct_updateObjTrace os a g off s) (bitype_direct_updateObjTrace os a g off t)"
  unfolding direct_update_entry by (rule bind_level2_same) (auto intro: put_entry_same)

lemma inline_update_same:
  "os_ok os \<Longrightarrow> same_records os s t \<Longrightarrow>
     same_run os (inline_update os a g off s) (bitype_direct_updateObjTrace os a g off t)"
  unfolding direct_update_entry inline_update_entry by (rule bind_level2_same) (auto intro: put_entry_same)

lemma reinterpret_same:
  assumes "os_ok os" "same_records os s t"
  shows "same_run os (bitype_handle_reinterpret_cast os a g off s) (bitype_handle_reinterpret_cast os a g off t)"
  unfolding bitype_handle_reinterpret_cast_def Let_def put_entry_eqs
proof (rule bind_level2_same[OF assms], goal_cases)
  case (1 l s' t')
  have "has_table t' a" "l = read_l1 t' (l1_index a)" using 1(2,3) same_recordsD(4,7)[OF 1(1)] by simp_all
  then have "read_cell l (push_bit 1 (l2_index a)) s' = read_cell l (push_bit 1 (l2_index a)) t'"
    "so_offset (read_cell l (push_bit 1 (l2_index a) + 1) s') = so_offset (read_cell l (push_bit 1 (l2_index a) + 1) t')"
    using 1(2,3) read_ref[of _ a] read_meta[of _ a] same_recordsD(5,6)[OF 1(1), of a] by metis+
  with put_entry_same[OF assms(1) 1(1,2,3), of g 0 "-1" 0] 1(1) show ?case by simp
qed

lemma arraySize_same:
  assumes "os_ok os" "same_records os s t"
  shows "same_run os (bitype_update_arraySize os a n s) (bitype_update_arraySize os a n t)"
proof (cases "a = 0")
  case False
  show ?thesis
    unfolding bitype_update_arraySize_def Let_def if_not_P[OF False] ucast_idx2
  proof (rule bind_level2_same[OF assms], goal_cases)
    case (1 l s' t')
    have "has_table t' a" "l = read_l1 t' (l1_index a)" using 1(2,3) same_recordsD(4,7)[OF 1(1)] by simp_all
    then have "so_offset (read_cell l (push_bit 1 (l2_index a) + 1) s') = so_offset (read_cell l (push_bit 1 (l2_index a) + 1) t')"
      using 1(2,3) read_meta[of _ a] same_recordsD(6)[OF 1(1), of a] by metis
    then show ?case using write_meta_same[OF assms(1) 1(1,2,3)] by (simp add: write_size_def)
  qed
qed (use assms in \<open>simp add: bitype_update_arraySize_def\<close>)

lemma foldR_same:
  assumes "\<And>x s t. same_records os s t \<Longrightarrow> same_run os (f x s) (f x t)" "same_records os s t"
  shows "same_run os (foldR f xs s) (foldR f xs t)"
  using assms(2)
proof (induction xs arbitrary: s t)
  case (Cons x xs)
  from assms(1)[OF Cons.prems, of x] Cons.IH show ?case by (cases rule: rel_sum.cases) auto
qed simp

lemma count_frame [simp]:
  "read_l1 (s\<lparr>count_index := c\<rparr>) = read_l1 s" "ref_of (s\<lparr>count_index := c\<rparr>) = ref_of s"
  "meta_of (s\<lparr>count_index := c\<rparr>) = meta_of s"
  by (simp_all add: fun_eq_iff read_l1_def ref_of_def meta_of_def read_cell_def Let_def)

lemma count_same:
  assumes "same_records os s t"
  shows "same_records os (obj_update_count ty n s) (obj_update_count ty n t)"
proof -
  have "same_records os (IncVal i c s) (IncVal i c t)" for i c
    using assms unfolding IncVal_def same_records_def fields_of_def
    by simp
  with assms show ?thesis by (cases ty) simp_all
qed

lemma direct_erase_same:
  assumes "os_ok os" "same_records os s t"
  shows "same_records os (bitype_direct_eraseObj a s) (bitype_direct_eraseObj a t)"
proof (cases "has_table s a")
  case True
  define l where "l = read_l1 s (l1_index a)"
  have lt: "l = read_l1 t (l1_index a)" "has_table t a"
    using same_recordsD(4,7)[OF assms(2)] True by (simp_all add: l_def)
  note w = write_ref_spec[OF assms(1) same_recordsD(1)[OF assms(2)] True, folded l_def, of 0]
  have "has_table (write_cell l (push_bit 1 (l2_index a)) 0 s) a"
    "l = read_l1 (write_cell l (push_bit 1 (l2_index a)) 0 s) (l1_index a)"
    using w(4)[of a] w(5)[of a] True by (simp_all add: l_def)
  note m = write_meta_same[OF assms(1) write_ref_same[OF assms True l_def] this, of 0 0]
  have l: "read_l1 s (l1_index a) = l" "read_l1 t (l1_index a) = l" "l \<noteq> 0"
    using True lt(1) by (simp_all add: l_def has_table_def)
  show ?thesis unfolding bitype_direct_eraseObj_def Let_def l using l(3) m by simp
next
  case False
  moreover have "\<not> has_table t a" using same_recordsD(7)[OF assms(2)] False by simp
  ultimately show ?thesis using assms(2) by (simp add: bitype_direct_eraseObj_def has_table_def)
qed

lemma erase_size_same:
  assumes "os_ok os" "same_records os s t"
  shows "same_records os (bitype_direct_eraseArraySize a s) (bitype_direct_eraseArraySize a t)"
proof (cases "a \<noteq> 0 \<and> has_table s a")
  case True
  define l where "l = read_l1 s (l1_index a)"
  have lt: "l = read_l1 t (l1_index a)" "has_table t a"
    using same_recordsD(4,7)[OF assms(2)] True by (simp_all add: l_def)
  have l: "read_l1 s (l1_index a) = l" "read_l1 t (l1_index a) = l" "l \<noteq> 0"
    using True lt(1) by (simp_all add: l_def has_table_def)
  show ?thesis unfolding bitype_direct_eraseArraySize_def Let_def l
    using l(3) write_meta_same[OF assms conjunct2[OF True] l_def, of 0 0] True by simp
next
  case False
  moreover have "a = 0 \<or> \<not> has_table t a" using same_recordsD(7)[OF assms(2)] False by simp
  ultimately show ?thesis using assms(2) by (auto simp: bitype_direct_eraseArraySize_def has_table_def)
qed

section \<open>The code of an allocation\<close>

text \<open>The call an inlined instruction stands for.\<close>

fun call_of :: "trace_inst \<Rightarrow> trace_inst" where
  "call_of (InlineUpdate off g OffsetV) = CallDirectUpdate off g OffsetV"
| "call_of (InlineErase off) = CallDirectErase off"
| "call_of i = i"

fun reads_size :: "trace_inst \<Rightarrow> bool" where
  "reads_size (CallEraseObj _ _ _ _) = True"
| "reads_size _ = False"

abbreviation same_exec :: "os \<Rightarrow> (rt_error + runtime) option \<Rightarrow> (rt_error + runtime) option \<Rightarrow> bool" where
  "same_exec os \<equiv> rel_option (same_run os)"

lemma exec_inst_same:
  assumes "os_ok os" "same_records os s t" "\<not> reads_size i"
  shows "same_exec os (exec_inst os at p n i s) (exec_inst os at p n (call_of i) t)"
  using assms(3)
proof (cases i)
  case (CallUpdateObjTrace off g ts l v)
  then show ?thesis
    using foldR_same[OF direct_update_same[OF assms(1)] assms(2)] by (simp add: updateObjTrace_fold)
qed (use assms(1,2) in \<open>simp_all add: inline_update_same direct_update_same reinterpret_same arraySize_same
      count_same direct_erase_same erase_size_same inline_erase_eq\<close>)

lemma exec_code_same:
  assumes "os_ok os" "same_records os s t" "\<forall>i\<in>set code. \<not> reads_size i"
  shows "same_exec os (exec_code os at p n code s) (exec_code os at p n (map call_of code) t)"
  using assms(2,3)
proof (induction code arbitrary: s t)
  case (Cons i code)
  then have "same_exec os (exec_inst os at p n i s) (exec_inst os at p n (call_of i) t)"
    using exec_inst_same[OF assms(1)] by simp
  then show ?case using Cons.IH Cons.prems(2)
    by (cases rule: option.rel_cases) (auto elim!: rel_sum.cases)
qed simp

definition inlining :: "bool \<Rightarrow> module_env \<Rightarrow> module_env" where
  "inlining b M = M\<lparr>opts := (opts M)\<lparr>ClInlineOpt := b\<rparr>\<rparr>"

lemma inlining_sel [simp]:
  "ClInlineOpt (opts (inlining b M)) = b" "ClMakeLogInfo (opts (inlining b M)) = ClMakeLogInfo (opts M)"
  "global_for (inlining b M) Prefix S U = global_for M Prefix S U"
  by (simp_all add: inlining_def global_for_def split: option.split)

lemma entry_code_calls:
  "entry_code (opts (inlining False M)) e l ts i ty b k g = map call_of (entry_code (opts (inlining True M)) e l ts i ty b k g)"
  by (cases e) (auto simp: count_code_def Let_def)

lemma emit_calls:
  "emitInstForObjTrace (inlining False M) Prefix E e l ts i ty U =
     map_option (\<lambda>(code, U). (map call_of code, U)) (emitInstForObjTrace (inlining True M) Prefix E e l ts i ty U)"
proof (induction E arbitrary: U)
  case (Cons x E)
  obtain k S where x: "x = (k, S)" by force
  show ?case
    by (auto simp: x Let_def Cons.IH entry_code_calls option.map_comp comp_def case_prod_beta split: option.split)
qed simp

lemma emit_elements_calls:
  assumes "emit_elements (inlining True M) Prefix E e n ts i ty U = Some r"
  shows "emit_elements (inlining False M) Prefix E e n ts i ty U = Some (map call_of (fst r), snd r)"
proof -
  have "inlining True M = inlining True M \<longrightarrow>
      emit_elements (inlining False M) Prefix E e n ts i ty U = Some (map call_of (fst r), snd r)"
  proof (rule emit_elements.raw_induct[where P = "\<lambda>N Prefix E e n ts i ty U r. N = inlining True M \<longrightarrow>
        emit_elements (inlining False M) Prefix E e n ts i ty U = Some (map call_of (fst r), snd r)", OF _ assms])
    fix f N Prefix E e n ts i ty U r
    assume IH: "\<And>N Prefix E e n ts i ty U r. f N Prefix E e n ts i ty U = Some r \<Longrightarrow>
          N = inlining True M \<longrightarrow> emit_elements (inlining False M) Prefix E e n ts i ty U = Some (map call_of (fst r), snd r)"
      and eq: "(if ucast i < n
        then Option.bind (emitInstForObjTrace N Prefix E e (ConstLen n) ts i ty U) (\<lambda>(code, U).
             Option.bind (f N Prefix E e n ts (i + 1) ty U) (\<lambda>(more, U). Some (code @ more, U)))
        else Some ([], U)) = Some r"
    show "N = inlining True M \<longrightarrow> emit_elements (inlining False M) Prefix E e n ts i ty U = Some (map call_of (fst r), snd r)"
    proof
      assume N: "N = inlining True M"
      show "emit_elements (inlining False M) Prefix E e n ts i ty U = Some (map call_of (fst r), snd r)"
      proof (cases "ucast i < n")
        case True
        with eq obtain c V m W where c: "emitInstForObjTrace N Prefix E e (ConstLen n) ts i ty U = Some (c, V)"
          and m: "f N Prefix E e n ts (i + 1) ty V = Some (m, W)" and r: "r = (c @ m, W)"
          by (auto simp: bind_eq_Some_conv)
        from IH[OF m] c r True N show ?thesis by (subst emit_elements.simps) (simp add: emit_calls)
      next
        case False
        with eq show ?thesis by (subst emit_elements.simps) auto
      qed
    qed
  qed
  then show ?thesis by simp
qed

lemma insertUpdate_calls:
  assumes "insertUpdate (inlining True M) Prefix ty E ts l U = Some (code, V)"
  shows "insertUpdate (inlining False M) Prefix ty E ts l U = Some (map call_of code, V)"
  using assms
  by (auto simp: insertUpdate_def emit_calls dest: emit_elements_calls split: if_splits array_len.splits)

lemma insertRemove_calls:
  assumes "insertRemove (inlining True M) Prefix ty E l ts U = Some (code, V)"
  shows "insertRemove (inlining False M) Prefix ty E l ts U = Some (map call_of code, V)"
  using assms
  by (auto simp: insertRemove_def emit_calls Let_def dest: emit_elements_calls split: if_splits array_len.splits)

text \<open>Which instructions the code of an allocation has.\<close>

lemma emit_insts:
  assumes "emitInstForObjTrace M Prefix E e l ts i ty U = Some (code, V)"
    "\<And>b k g x. x \<in> set (entry_code (opts M) e l ts i ty b k g) \<Longrightarrow> Q x"
  shows "\<forall>x\<in>set code. Q x"
  using assms(1)
proof (induction E arbitrary: code U)
  case (Cons y E)
  obtain k S where y: "y = (k, S)" by force
  from Cons.prems show ?case
    using Cons.IH assms(2) by (fastforce simp: y Let_def split: if_splits option.splits)
qed simp

lemma emit_elements_insts:
  assumes "emit_elements M Prefix E e n ts i ty U = Some r"
    "\<And>i b k g x. x \<in> set (entry_code (opts M) e (ConstLen n) ts i ty b k g) \<Longrightarrow> Q x"
  shows "\<forall>x\<in>set (fst r). Q x"
proof -
  have "(M, n, ty, e, ts) = (M, n, ty, e, ts) \<longrightarrow> (\<forall>x\<in>set (fst r). Q x)"
  proof (rule emit_elements.raw_induct[where P = "\<lambda>N Prefix E d m us i z U r.
        (N, m, z, d, us) = (M, n, ty, e, ts) \<longrightarrow> (\<forall>x\<in>set (fst r). Q x)", OF _ assms(1)])
    fix f N Prefix E d m us i z U r
    assume IH: "\<And>N Prefix E d m us i z U r. f N Prefix E d m us i z U = Some r \<Longrightarrow>
          (N, m, z, d, us) = (M, n, ty, e, ts) \<longrightarrow> (\<forall>x\<in>set (fst r). Q x)"
      and eq: "(if ucast i < m
        then Option.bind (emitInstForObjTrace N Prefix E d (ConstLen m) us i z U) (\<lambda>(code, U).
             Option.bind (f N Prefix E d m us (i + 1) z U) (\<lambda>(more, U). Some (code @ more, U)))
        else Some ([], U)) = Some r"
    show "(N, m, z, d, us) = (M, n, ty, e, ts) \<longrightarrow> (\<forall>x\<in>set (fst r). Q x)"
    proof
      assume N: "(N, m, z, d, us) = (M, n, ty, e, ts)"
      show "\<forall>x\<in>set (fst r). Q x"
      proof (cases "ucast i < m")
        case True
        with eq obtain c V a W where c: "emitInstForObjTrace N Prefix E d (ConstLen m) us i z U = Some (c, V)"
          and a: "f N Prefix E d m us (i + 1) z V = Some (a, W)" and r: "r = (c @ a, W)"
          by (auto simp: bind_eq_Some_conv)
        from IH[OF a] emit_insts[OF c, of Q] assms(2) N r show ?thesis by auto
      next
        case False
        with eq show ?thesis by auto
      qed
    qed
  qed
  then show ?thesis by simp
qed

lemma insertUpdateE:
  assumes "insertUpdate M Prefix ty E ts l U = Some r"
  obtains (one) e where "emitInstForObjTrace M Prefix E e l ts 0 ty U = Some r" "e = CONOBJADD \<or> e = VLAOBJADD"
  | (array) n where "emit_elements M Prefix E CONOBJADD n ts 0 ty U = Some r" "l = ConstLen n"
  using assms by (auto simp: insertUpdate_def split: if_splits array_len.splits)

lemma update_code_sizeless:
  assumes "insertUpdate M Prefix ty E ts l U = Some (code, V)"
  shows "\<forall>x\<in>set code. \<not> reads_size x"
proof -
  have e: "\<not> reads_size x" if "x \<in> set (entry_code o' e l ts i ty b k g)" "e = CONOBJADD \<or> e = VLAOBJADD" for x o' e l i b k g
    using that by (auto simp: count_code_def Let_def split: if_splits)
  from assms show ?thesis
  proof (cases rule: insertUpdateE)
    case (one d)
    show ?thesis by (rule emit_insts[OF one(1)]) (rule e[OF _ one(2)])
  next
    case (array n)
    have "\<forall>x\<in>set (fst (code, V)). \<not> reads_size x"
      by (rule emit_elements_insts[OF array(1)]) (rule e, assumption, simp)
    then show ?thesis by simp
  qed
qed

text \<open>Inlined erasures do the very same.\<close>

lemma exec_erase_call:
  "\<forall>i\<in>set code. (\<forall>off g v. i \<noteq> InlineUpdate off g v) \<Longrightarrow>
     exec_code os at p n (map call_of code) s = exec_code os at p n code s"
proof (induction code arbitrary: s)
  case (Cons i code)
  then have "exec_inst os at p n (call_of i) s = exec_inst os at p n i s" by (cases i) (auto simp: inline_erase_eq)
  with Cons show ?case by (auto split: option.split sum.split)
qed simp

lemma insertRemoveE:
  assumes "insertRemove M Prefix ty E l ts U = Some r"
  obtains (none) "r = ([], U)" "E = []"
  | (one) m where "emitInstForObjTrace M Prefix E VLAOBJDEL m ts 0 ty U = Some r"
  | (array) n where "emit_elements M Prefix E CONOBJDEL n ts 0 ty U = Some r"
      "ConstLen n = (case l of None \<Rightarrow> ConstLen 1 | Some m \<Rightarrow> m)"
  using assms by (auto simp: insertRemove_def Let_def split: if_splits array_len.splits)

lemma remove_code_no_update:
  assumes "insertRemove M Prefix ty E l ts U = Some (code, V)"
  shows "\<forall>x\<in>set code. \<forall>off g v. x \<noteq> InlineUpdate off g v"
proof -
  have e: "\<forall>off g v. x \<noteq> InlineUpdate off g v"
    if "x \<in> set (entry_code o' e l ts i ty b k g)" "e = CONOBJDEL \<or> e = VLAOBJDEL" for x o' e l i b k g
    using that by (auto simp: Let_def split: if_splits)
  from assms show ?thesis
  proof (cases rule: insertRemoveE)
    case (one m)
    show ?thesis by (rule emit_insts[OF one]) (rule e, assumption, simp)
  next
    case (array n)
    have "\<forall>x\<in>set (fst (code, V)). \<forall>off g v. x \<noteq> InlineUpdate off g v"
      by (rule emit_elements_insts[OF array(1)]) (rule e, assumption, simp)
    then show ?thesis by simp
  qed simp
qed

text \<open>
  C27: With \<open>ClInlineOpt\<close> the passes emit other code for an allocation, and it does the same as the code
  with calls: both run to an end or both end the program alike, and then the recorded classes, offsets,
  reports and statistics agree; only the recorded sizes may differ. The code that forgets an allocation
  does exactly the same, sizes included.
\<close>

theorem inlined_code_equivalent:
  assumes "os_ok os" "rt_inv os s"
    "insertUpdate (inlining True M) Prefix ty E ts l U = Some (code, V)"
    "insertRemove (inlining True M) Prefix ty' E' l' ts' U' = Some (del, W)"
  shows "\<exists>code' del'. insertUpdate (inlining False M) Prefix ty E ts l U = Some (code', V) \<and>
    same_exec os (exec_code os at p n code s) (exec_code os at p n code' s) \<and>
    insertRemove (inlining False M) Prefix ty' E' l' ts' U' = Some (del', W) \<and>
    exec_code os at p n del s = exec_code os at p n del' s"
proof (intro exI conjI)
  show "same_exec os (exec_code os at p n code s) (exec_code os at p n (map call_of code) s)"
    using exec_code_same[OF assms(1) _ update_code_sizeless[OF assms(3)]] assms(2) by simp
  show "exec_code os at p n del s = exec_code os at p n (map call_of del) s"
    using exec_erase_call[OF remove_code_no_update[OF assms(4)]] by simp
qed (rule insertUpdate_calls[OF assms(3)] insertRemove_calls[OF assms(4)])+

text \<open>One object of class \<open>B\<close>.\<close>

definition demo_env :: module_env where
  "demo_env = \<lparr>target_layout = demo_layout, maps = demo_maps, opts = \<lparr>ClInlineOpt = True, ClMakeLogInfo = False\<rparr>,
     mname = ''m''\<rparr>"

definition demo_util :: bitype_util where
  "demo_util = \<lparr>AllTypeInfo = [], classStructSet = [], GlobalVariableMap = [(''B'', 0)],
     moduleGlobals = [(''bitypem.B'', [0, 0, 2])]\<rparr>"

definition demo_slots :: struct_slots where
  "demo_slots = [(0, [(3, (tracked 3 ''B'', [IntegerTy 64]))])]"

lemma demo_global: "global_for M Prefix [(3, (tracked 3 ''B'', [IntegerTy 64]))] demo_util = Some (Some 0, demo_util)"
proof -
  have "set_names [(3, (tracked 3 ''B'', [IntegerTy 64]))] = ''B''" by code_simp
  then show ?thesis by (simp add: global_for_def demo_util_def)
qed

lemma demo_update:
  "insertUpdate (inlining b demo_env) ''bitype'' STACKALLOC demo_slots 8 (ConstLen 1) demo_util =
     Some ([if b then InlineUpdate 0 0 0 else CallDirectUpdate 0 0 0], demo_util)"
  by (simp add: insertUpdate_def emit_elements.simps[of _ _ _ _ _ _ 0] emit_elements.simps[of _ _ _ _ _ _ 1] demo_slots_def
      demo_global entry_offset_def count_code_def)
    (simp add: demo_env_def)

lemma demo_remove:
  "insertRemove (inlining b demo_env) ''bitype'' STACKALLOC demo_slots (Some (ConstLen 1)) 8 demo_util =
     Some ([if b then InlineErase 0 else CallDirectErase 0], demo_util)"
  by (simp add: insertRemove_def emit_elements.simps[of _ _ _ _ _ _ 0] emit_elements.simps[of _ _ _ _ _ _ 1] demo_slots_def
      demo_global entry_offset_def Let_def)

lemma inlined_code_equivalent_witness:
  "same_exec linux_os (exec_code linux_os (\<lambda>_. 4096) 8 1 [InlineUpdate 0 0 0] boot_state)
     (exec_code linux_os (\<lambda>_. 4096) 8 1 [CallDirectUpdate 0 0 0] boot_state)"
  using inlined_code_equivalent[OF linux_os_ok boot_inv demo_update[where b = True] demo_remove[where b = True],
      of "\<lambda>_. 4096" 8 1] demo_update[where b = False] by simp

end
