(* ===== verification/TraceRecord.thy ===== *)
theory TraceRecord
  imports TraceInline
begin

text \<open>
  What the code emitted for an allocation of constant length records: every slot of every element gets
  the array of the classes the value has there, no other slot changes, and the code that forgets the
  allocation undoes it. Emitting code ends exactly for lengths below \<open>2 ^ 32\<close>.
\<close>

unbundle bit_operations_syntax

section \<open>The global variables of the entries\<close>

abbreviation var_of :: "bitype_util \<Rightarrow> struct_set \<Rightarrow> nat option" where
  "var_of U S \<equiv> map_find (GlobalVariableMap U) (set_names S)"

abbreviation vars_le :: "bitype_util \<Rightarrow> bitype_util \<Rightarrow> bool" where
  "vars_le U V \<equiv> map_of (GlobalVariableMap U) \<subseteq>\<^sub>m map_of (GlobalVariableMap V)"

lemma global_for_var:
  assumes "global_for M Prefix S U = Some (r, V)" "S \<noteq> []"
  shows "\<exists>g. r = Some g \<and> var_of V S = Some g" "vars_le U V"
  using assms
  by (auto simp: global_for_def CreateGlobalVariable_def new_global_def Let_def map_of_map_insert map_le_def
      split: option.splits if_splits dest: sym)

text \<open>Entries with their variables, at the offsets of one element.\<close>

definition entry_vars :: "bitype_util \<Rightarrow> struct_slots \<Rightarrow> u32 \<Rightarrow> u32 \<Rightarrow> (u32 \<times> nat \<times> u32) list" where
  "entry_vars V E ts i =
     map (\<lambda>(k, S). (entry_offset ts i k, the (var_of V S), of_nat k * 8)) (filter (\<lambda>(k, S). S \<noteq> []) E)"

definition has_vars :: "bitype_util \<Rightarrow> struct_slots \<Rightarrow> bool" where
  "has_vars V E \<longleftrightarrow> (\<forall>(k, S)\<in>set E. S \<noteq> [] \<longrightarrow> var_of V S \<noteq> None)"

lemma has_vars_le: "has_vars U E \<Longrightarrow> vars_le U V \<Longrightarrow> has_vars V E"
  by (fastforce simp: has_vars_def map_le_def dom_def)

lemma entry_vars_le: "has_vars U E \<Longrightarrow> vars_le U V \<Longrightarrow> entry_vars U E ts i = entry_vars V E ts i"
proof -
  assume h: "has_vars U E" "vars_le U V"
  have "var_of U S = var_of V S" if "(k, S) \<in> set E" "S \<noteq> []" for k S
    using h that by (fastforce simp: has_vars_def map_le_def dom_def)
  then show ?thesis by (auto simp: entry_vars_def)
qed

text \<open>The table writes and the erasures among the instructions.\<close>

fun write_of :: "trace_inst \<Rightarrow> (u32 \<times> nat \<times> u32) list" where
  "write_of (InlineUpdate off g v) = [(off, g, v)]"
| "write_of (CallDirectUpdate off g v) = [(off, g, v)]"
| "write_of _ = []"

fun clear_of :: "trace_inst \<Rightarrow> u32 list" where
  "clear_of (InlineErase off) = [off]"
| "clear_of (CallDirectErase off) = [off]"
| "clear_of _ = []"

abbreviation "writes code \<equiv> concat (map write_of code)"
abbreviation "clears code \<equiv> concat (map clear_of code)"

lemma emit_vars:
  assumes "emitInstForObjTrace M Prefix E e l ts i ty U = Some (code, V)"
  shows "has_vars V E \<and> vars_le U V \<and>
    (e = CONOBJADD \<and> ty \<noteq> REINTERPRET \<longrightarrow> writes code = entry_vars V E ts i) \<and>
    (e = CONOBJDEL \<longrightarrow> clears code = map fst (entry_vars V E ts i))"
  using assms
proof (induction E arbitrary: code U)
  case Nil
  then show ?case by (simp add: has_vars_def entry_vars_def)
next
  case (Cons y E)
  obtain k S where y: "y = (k, S)" by force
  show ?case
  proof (cases "S = []")
    case True
    with Cons.prems have "emitInstForObjTrace M Prefix E e l ts i ty U = Some (code, V)" by (simp add: y)
    from Cons.IH[OF this] True show ?thesis by (simp add: y has_vars_def entry_vars_def)
  next
    case False
    with Cons.prems obtain r W where g: "global_for M Prefix S U = Some (r, W)"
      by (auto simp: y Let_def split: option.splits)
    from global_for_var[OF g False] obtain x where x: "r = Some x" "var_of W S = Some x" and le: "vars_le U W" by blast
    from Cons.prems False g x obtain c where c: "emitInstForObjTrace M Prefix E e l ts i ty W = Some (c, V)"
      and code: "code = entry_code (opts M) e l ts i ty (E = []) k x @ c"
      by (auto simp: y Let_def)
    note IH = Cons.IH[OF c]
    then have v: "var_of V S = Some x" using x(2) by (auto simp: map_le_def dom_def)
    from IH le have "vars_le U V" using map_le_trans by blast
    with IH v False show ?thesis
      by (cases e) (auto simp: y has_vars_def entry_vars_def code count_code_def Let_def)
  qed
qed

section \<open>The loop over the elements\<close>

lemma emit_elements_vars:
  assumes "emit_elements M Prefix E e n ts i ty U = Some r"
  shows "vars_le U (snd r) \<and> unat n < 2 ^ 32 \<and> (ucast i < n \<longrightarrow> has_vars (snd r) E) \<and>
    (e = CONOBJADD \<and> ty \<noteq> REINTERPRET \<longrightarrow>
       writes (fst r) = concat (map (\<lambda>j. entry_vars (snd r) E ts (of_nat j)) [unat i..<unat n])) \<and>
    (e = CONOBJDEL \<longrightarrow>
       clears (fst r) = concat (map (\<lambda>j. map fst (entry_vars (snd r) E ts (of_nat j))) [unat i..<unat n]))"
proof (rule emit_elements.raw_induct[where P = "\<lambda>M Prefix E e n ts i ty U r.
      vars_le U (snd r) \<and> unat n < 2 ^ 32 \<and> (ucast i < n \<longrightarrow> has_vars (snd r) E) \<and>
      (e = CONOBJADD \<and> ty \<noteq> REINTERPRET \<longrightarrow>
         writes (fst r) = concat (map (\<lambda>j. entry_vars (snd r) E ts (of_nat j)) [unat i..<unat n])) \<and>
      (e = CONOBJDEL \<longrightarrow>
         clears (fst r) = concat (map (\<lambda>j. map fst (entry_vars (snd r) E ts (of_nat j))) [unat i..<unat n]))",
      OF _ assms], goal_cases)
  case (1 f M Prefix E e n ts i ty U r)
  note IH = 1(1) and eq = 1(2)
  show ?case
  proof (cases "ucast i < n")
    case True
    with eq obtain c V m W where c: "emitInstForObjTrace M Prefix E e (ConstLen n) ts i ty U = Some (c, V)"
      and m: "f M Prefix E e n ts (i + 1) ty V = Some (m, W)" and r: "r = (c @ m, W)"
      by (auto simp: bind_eq_Some_conv)
    note I = IH[OF m, simplified] and v = emit_vars[OF c]
    have lt: "unat i < unat n" using True by (simp add: ucast_less_u64)
    moreover from I have "unat n < 2 ^ 32" by simp
    ultimately have "unat i + 1 < 2 ^ 32" by linarith
    then have s: "unat (i + 1) = Suc (unat i)" by (simp add: unat_word_ariths)
    have le: "vars_le U W" using v I map_le_trans by blast
    have h: "has_vars W E" "entry_vars V E ts i = entry_vars W E ts i"
      using has_vars_le entry_vars_le v I by blast+
    have up: "[unat i..<unat n] = unat i # [unat (i + 1)..<unat n]" using lt by (simp add: s upt_conv_Cons)
    show ?thesis using I v le h lt unfolding r up by (auto simp: s)
  next
    case False
    with eq have r: "r = ([], U)" by auto
    have ge: "unat n \<le> unat i" using False by (simp add: ucast_less_u64)
    then have "unat n < 2 ^ 32" using unat32[of i] by simp
    with ge show ?thesis using False by (simp add: r)
  qed
qed

lemma emit_total: "has_vars U E \<Longrightarrow> \<exists>code. emitInstForObjTrace M Prefix E e l ts i ty U = Some (code, U)"
proof (induction E)
  case (Cons y E)
  obtain k S where y: "y = (k, S)" by force
  have "has_vars U E" using Cons.prems by (auto simp: has_vars_def)
  with Cons.IH obtain code where c: "emitInstForObjTrace M Prefix E e l ts i ty U = Some (code, U)" by blast
  show ?case
  proof (cases "S = []")
    case False
    with Cons.prems have "var_of U S \<noteq> None" by (simp add: y has_vars_def)
    then obtain g where "global_for M Prefix S U = Some (Some g, U)" by (auto simp: global_for_def)
    with c False show ?thesis by (simp add: y)
  qed (use c in \<open>simp add: y\<close>)
qed simp

lemma emit_elements_total:
  assumes "has_vars U E" "unat n < 2 ^ 32" "unat i \<le> unat n"
  shows "\<exists>code. emit_elements M Prefix E e n ts i ty U = Some (code, U)"
  using assms(3)
proof (induction "unat n - unat i" arbitrary: i)
  case 0
  then have "\<not> ucast i < n" by (simp add: ucast_less_u64)
  then show ?case by (subst emit_elements.simps) simp
next
  case (Suc d)
  then have lt: "unat i < unat n" by simp
  then have s: "unat (i + 1) = Suc (unat i)" using assms(2) by (simp add: unat_word_ariths)
  from Suc.hyps(2) lt s have "d = unat n - unat (i + 1)" "unat (i + 1) \<le> unat n" by simp_all
  from Suc.hyps(1)[OF this] obtain more where "emit_elements M Prefix E e n ts (i + 1) ty U = Some (more, U)" by blast
  moreover obtain code where "emitInstForObjTrace M Prefix E e (ConstLen n) ts i ty U = Some (code, U)"
    using emit_total[OF assms(1)] by blast
  ultimately show ?case using lt by (subst emit_elements.simps) (simp add: ucast_less_u64)
qed



section \<open>Running the code\<close>

lemma inline_update_spec:
  assumes "os_ok os" "rt_inv os s" "inline_update os a g off s = Inr s'"
  shows "rt_inv os s'" "ref_of s' b = (if same_slot a b then g else ref_of s b)"
    "so_offset (meta_of s' b) = (if same_slot a b then off else so_offset (meta_of s b))"
proof -
  have "same_run os (inline_update os a g off s) (bitype_direct_updateObjTrace os a g off s)"
    using inline_update_same[OF assms(1)] assms(2) by simp
  with assms(3) obtain t where t: "bitype_direct_updateObjTrace os a g off s = Inr t" "same_records os s' t"
    by (auto elim!: rel_sum.cases)
  note d = direct_update_spec(2,3)[OF assms(1,2) t(1), of b]
  show "rt_inv os s'" "ref_of s' b = (if same_slot a b then g else ref_of s b)"
    "so_offset (meta_of s' b) = (if same_slot a b then off else so_offset (meta_of s b))"
    using same_recordsD(1)[OF t(2)] same_recordsD(5,6)[OF t(2), of b] d by simp_all
qed

text \<open>The last write to a slot.\<close>

definition last_write :: "addr \<Rightarrow> addr \<Rightarrow> (u32 \<times> nat \<times> u32) list \<Rightarrow> (u32 \<times> nat \<times> u32) option" where
  "last_write p b ws = find (\<lambda>(off, g, v). same_slot (p + ucast off) b) (rev ws)"

lemma last_write_append:
  "last_write p b (ws @ us) = (case last_write p b us of None \<Rightarrow> last_write p b ws | Some x \<Rightarrow> Some x)"
  unfolding last_write_def rev_append find_append by (rule refl)

fun updates_only :: "trace_inst \<Rightarrow> bool" where
  "updates_only (InlineUpdate _ _ _) = True"
| "updates_only (CallDirectUpdate _ _ _) = True"
| "updates_only (CallUpdateCount _ _) = True"
| "updates_only _ = False"

fun erases_only :: "trace_inst \<Rightarrow> bool" where
  "erases_only (InlineErase _) = True"
| "erases_only (CallDirectErase _) = True"
| "erases_only _ = False"

lemma exec_write:
  assumes "os_ok os" "rt_inv os s" "updates_only i" "exec_inst os at p n i s = Some (Inr s')"
  shows "rt_inv os s'"
    "ref_of s' b = (case last_write p b (write_of i) of None \<Rightarrow> ref_of s b | Some (_, g, _) \<Rightarrow> at g)"
    "so_offset (meta_of s' b) = (case last_write p b (write_of i) of None \<Rightarrow> so_offset (meta_of s b) | Some (_, _, v) \<Rightarrow> v)"
proof -
  have "rt_inv os s' \<and>
      ref_of s' b = (case last_write p b (write_of i) of None \<Rightarrow> ref_of s b | Some (_, g, _) \<Rightarrow> at g) \<and>
      so_offset (meta_of s' b) = (case last_write p b (write_of i) of None \<Rightarrow> so_offset (meta_of s b) | Some (_, _, v) \<Rightarrow> v)"
    using assms(3)
  proof (cases i)
    case (InlineUpdate off g v)
    with inline_update_spec[OF assms(1,2)] assms(4) show ?thesis by (simp add: last_write_def)
  next
    case (CallDirectUpdate off g v)
    with direct_update_spec[OF assms(1,2)] assms(4) show ?thesis by (simp add: last_write_def)
  next
    case (CallUpdateCount ty l)
    with assms(2,4) show ?thesis by (cases ty) (auto simp: IncVal_def last_write_def)
  qed simp_all
  then show "rt_inv os s'"
    "ref_of s' b = (case last_write p b (write_of i) of None \<Rightarrow> ref_of s b | Some (_, g, _) \<Rightarrow> at g)"
    "so_offset (meta_of s' b) = (case last_write p b (write_of i) of None \<Rightarrow> so_offset (meta_of s b) | Some (_, _, v) \<Rightarrow> v)"
    by blast+
qed

lemma exec_writes:
  assumes "os_ok os" "rt_inv os s" "\<forall>i\<in>set code. updates_only i" "exec_code os at p n code s = Some (Inr s')"
  shows "rt_inv os s' \<and>
    ref_of s' b = (case last_write p b (writes code) of None \<Rightarrow> ref_of s b | Some (_, g, _) \<Rightarrow> at g) \<and>
    so_offset (meta_of s' b) = (case last_write p b (writes code) of None \<Rightarrow> so_offset (meta_of s b) | Some (_, _, v) \<Rightarrow> v)"
  using assms(2-4)
proof (induction code arbitrary: s)
  case (Cons i code)
  from Cons.prems(3) obtain t where t: "exec_inst os at p n i s = Some (Inr t)" "exec_code os at p n code t = Some (Inr s')"
    by (auto split: option.splits sum.splits)
  have i: "updates_only i" using Cons.prems(2) by simp
  note w = exec_write[OF assms(1) Cons.prems(1) i t(1)]
  from Cons.IH[OF w(1) _ t(2)] w(2,3)[of b] Cons.prems(2) show ?case
    by (simp add: last_write_append split: option.splits)
qed (simp add: last_write_def)

lemma exec_clears:
  assumes "os_ok os" "rt_inv os s" "\<forall>i\<in>set code. erases_only i"
  shows "\<exists>s'. exec_code os at p n code s = Some (Inr s') \<and> rt_inv os s' \<and>
    (\<forall>b. ref_of s' b = (if \<exists>off\<in>set (clears code). same_slot (p + ucast off) b then 0 else ref_of s b))"
  using assms(2,3)
proof (induction code arbitrary: s)
  case (Cons i code)
  from Cons.prems(2) obtain off where off: "clear_of i = [off]"
    and i: "exec_inst os at p n i s = Some (Inr (bitype_direct_eraseObj (p + ucast off) s))"
    by (cases i) (auto simp: inline_erase_eq)
  note e = direct_eraseObj_spec[OF assms(1) Cons.prems(1), of "p + ucast off"]
  from Cons.IH[OF e(1)] Cons.prems(2) obtain s' where
    "exec_code os at p n code (bitype_direct_eraseObj (p + ucast off) s) = Some (Inr s')" "rt_inv os s'"
    "\<forall>b. ref_of s' b = (if \<exists>off\<in>set (clears code). same_slot (p + ucast off) b then 0
        else ref_of (bitype_direct_eraseObj (p + ucast off) s) b)" by auto
  with i e(2) off show ?case by auto
qed simp

lemma update_code_updates:
  assumes "emit_elements M Prefix E CONOBJADD n ts i ty U = Some r" "ty \<noteq> REINTERPRET"
  shows "\<forall>x\<in>set (fst r). updates_only x"
  by (rule emit_elements_insts[OF assms(1)]) (use assms(2) in \<open>auto simp: count_code_def Let_def split: if_splits\<close>)

lemma remove_code_erases:
  assumes "emit_elements M Prefix E CONOBJDEL n ts i ty U = Some r"
  shows "\<forall>x\<in>set (fst r). erases_only x"
  by (rule emit_elements_insts[OF assms(1)]) (auto simp: Let_def split: if_splits)

text \<open>The allocations whose elements are recorded one by one: variables on the stack and global ones.\<close>

abbreviation variable_alloc :: "alloc_type \<Rightarrow> bool" where
  "variable_alloc ty \<equiv> ty = STACKALLOC \<or> ty = GLOBALALLOC"

lemma insertUpdate_const:
  "variable_alloc ty \<Longrightarrow>
     insertUpdate M Prefix ty E ts (ConstLen n) U = emit_elements M Prefix E CONOBJADD n ts 0 ty U"
  by (auto simp: insertUpdate_def)

lemma insertRemove_const:
  "variable_alloc ty \<Longrightarrow> E \<noteq> [] \<Longrightarrow>
     insertRemove M Prefix ty E (Some (ConstLen n)) ts U = emit_elements M Prefix E CONOBJDEL n ts 0 ty U"
  by (auto simp: insertRemove_def)

text \<open>The slots of the objects of an allocation.\<close>

definition object_slots :: "addr \<Rightarrow> struct_slots \<Rightarrow> u32 \<Rightarrow> u64 \<Rightarrow> addr set" where
  "object_slots p E ts n =
     {p + ucast (entry_offset ts (of_nat i) k) | i k S. i < unat n \<and> (k, S) \<in> set E \<and> S \<noteq> []}"

lemma entry_slots:
  "(\<lambda>off. p + ucast off) ` set (concat (map (\<lambda>j. map fst (entry_vars V E ts (of_nat j))) [0..<unat n])) =
     object_slots p E ts n"
  by (auto simp: object_slots_def entry_vars_def image_iff) (force simp: Bex_def)+

text \<open>The removal may be emitted any time later.\<close>

lemma recorded_forgotten:
  assumes "os_ok os" "rt_reachable os rodata s" "variable_alloc ty"
    "insertUpdate M Prefix ty E ts (ConstLen n) U = Some (code, V)"
    "insertRemove M Prefix ty E (Some (ConstLen n)) ts U' = Some (del, W)"
    "exec_code os at p m code s = Some (Inr s')"
  shows "\<exists>s''. exec_code os at p m del s' = Some (Inr s'') \<and>
    (\<forall>b. ref_of s'' b = (if \<exists>a\<in>object_slots p E ts n. same_slot a b then 0 else ref_of s b))"
proof (cases "E = []")
  case True
  have inv: "rt_inv os s" using rt_reachable_inv[OF assms(1,2)] by blast
  have c: "emit_elements M Prefix E CONOBJADD n ts 0 ty U = Some (code, V)"
    using assms(4) unfolding insertUpdate_const[OF assms(3)] .
  have u: "\<forall>x\<in>set code. updates_only x" using update_code_updates[OF c] assms(3) by auto
  have n: "concat (map (\<lambda>j. entry_vars V E ts (of_nat j)) js) = []" for js :: "nat list"
    by (induction js) (simp_all add: True entry_vars_def)
  have w: "writes code = concat (map (\<lambda>j. entry_vars V E ts (of_nat j)) [0..<unat n])"
    using emit_elements_vars[OF c] assms(3) by auto
  have "writes code = []" unfolding w n by (rule refl)
  with exec_writes[OF assms(1) inv u assms(6)] have "ref_of s' b = ref_of s b" for b
    by (simp add: last_write_def)
  moreover have "del = []" using assms(5) True by (simp add: insertRemove_def)
  ultimately show ?thesis by (simp add: True object_slots_def)
next
  case False
  have inv: "rt_inv os s" using rt_reachable_inv[OF assms(1,2)] by blast
  have c: "emit_elements M Prefix E CONOBJADD n ts 0 ty U = Some (code, V)"
    "emit_elements M Prefix E CONOBJDEL n ts 0 ty U' = Some (del, W)"
    using assms(4,5) unfolding insertUpdate_const[OF assms(3)] insertRemove_const[OF assms(3) False] .
  have u: "\<forall>x\<in>set code. updates_only x" "\<forall>x\<in>set del. erases_only x"
    using update_code_updates[OF c(1)] remove_code_erases[OF c(2)] assms(3) by auto
  note x = exec_writes[OF assms(1) inv u(1) assms(6)]
  have w: "writes code = concat (map (\<lambda>j. entry_vars V E ts (of_nat j)) [0..<unat n])"
    and d: "clears del = concat (map (\<lambda>j. map fst (entry_vars W E ts (of_nat j))) [0..<unat n])"
    using emit_elements_vars[OF c(1)] emit_elements_vars[OF c(2)] assms(3) by auto
  from x have inv': "rt_inv os s'" by blast
  obtain s'' where e: "exec_code os at p m del s' = Some (Inr s'')"
    and r: "\<forall>b. ref_of s'' b = (if \<exists>off\<in>set (clears del). same_slot (p + ucast off) b then 0 else ref_of s' b)"
    using exec_clears[OF assms(1) inv' u(2), of at p m] by blast
  have slots: "(\<exists>off\<in>set (clears del). same_slot (p + ucast off) b) \<longleftrightarrow> (\<exists>a\<in>object_slots p E ts n. same_slot a b)" for b
    unfolding d entry_slots[of p W, symmetric] by simp
  have "ref_of s' b = ref_of s b" if "\<not> (\<exists>a\<in>object_slots p E ts n. same_slot a b)" for b
  proof -
    have "\<not> same_slot (p + ucast off) b" if "(off, g, v) \<in> set (writes code)" for off g v
    proof -
      have "off \<in> fst ` set (writes code)" using that by force
      then have "p + ucast off \<in> object_slots p E ts n"
        unfolding w entry_slots[of p V, symmetric] by (auto simp: image_iff)
      with \<open>\<not> (\<exists>a\<in>object_slots p E ts n. same_slot a b)\<close> show ?thesis by blast
    qed
    then have "last_write p b (writes code) = None" by (auto simp: last_write_def find_None_iff)
    with x[of b] show ?thesis by simp
  qed
  with e r slots show ?thesis by auto
qed

text \<open>
  C29: The code that forgets a variable undoes the code that records it: it always runs to its end, the slots of
  the variable's objects are empty, and every other slot is as it was before the variable was recorded.
\<close>

theorem variable_recorded_then_forgotten:
  assumes "os_ok os" "rt_reachable os rodata s" "variable_alloc ty"
    "insertUpdate M Prefix ty E ts (ConstLen n) U = Some (code, V)"
    "insertRemove M Prefix ty E (Some (ConstLen n)) ts V = Some (del, W)"
    "exec_code os at p m code s = Some (Inr s')"
  shows "\<exists>s''. exec_code os at p m del s' = Some (Inr s'') \<and>
    (\<forall>b. ref_of s'' b = (if \<exists>a\<in>object_slots p E ts n. same_slot a b then 0 else ref_of s b))"
  by (rule recorded_forgotten[OF assms])

section \<open>Every object has its slot\<close>

lemma last_write_unique:
  assumes "(off, g, v) \<in> set ws" "same_slot (p + ucast off) b"
    "\<And>off' g' v'. (off', g', v') \<in> set ws \<Longrightarrow> same_slot (p + ucast off') b \<Longrightarrow> (off', g', v') = (off, g, v)"
  shows "last_write p b ws = Some (off, g, v)"
proof (cases "last_write p b ws")
  case None
  with assms(1,2) show ?thesis by (auto simp: last_write_def find_None_iff)
next
  case (Some x)
  obtain off' g' v' where x: "x = (off', g', v')" by (cases x)
  from Some have "x \<in> set (rev ws) \<and> (\<lambda>(off, g, v). same_slot (p + ucast off) b) x"
    unfolding last_write_def find_Some_iff by (metis nth_mem)
  with assms(3)[of off' g' v'] Some show ?thesis by (simp add: x)
qed

lemma object_address:
  fixes ts :: u32 and p :: addr
  assumes "8 * k < unat ts" "i < N" "unat ts * N < 2 ^ 32" "unat p + unat ts * N \<le> 2 ^ 48"
  shows "unat (p + ucast (entry_offset ts (of_nat i) k)) = unat p + (unat ts * i + 8 * k)"
    "unat (p + ucast (entry_offset ts (of_nat i) k)) < 2 ^ 48"
    "p + ucast (entry_offset ts (of_nat i) k) = p + of_nat (unat ts * i + 8 * k)"
proof -
  have "unat ts * i + unat ts \<le> unat ts * N"
    using assms(2) mult_le_mono2[of "Suc i" N "unat ts"] by simp
  then have lt: "unat ts * i + 8 * k < unat ts * N" using assms(1) by linarith
  define x where "x = unat ts * i + 8 * k"
  have x: "x < 2 ^ 32" using lt assms(3) by (simp add: x_def)
  have "entry_offset ts (of_nat i) k = of_nat x" by (simp add: x_def entry_offset_def)
  then have o: "unat (entry_offset ts (of_nat i) k) = x" using x by (simp add: unsigned_of_nat take_bit_nat_eq_self)
  have c: "unat (ucast (entry_offset ts (of_nat i) k) :: u64) = x"
    by (simp add: unsigned_ucast_eq o[symmetric] take_bit_nat_eq_self order_less_le_trans[OF unsigned_less])
  have "unat (of_nat x :: u64) = x" by (rule unat_of_nat64) (use x in simp)
  with c have "(ucast (entry_offset ts (of_nat i) k) :: u64) = of_nat x" by (simp only: word_unat_eq_iff)
  then show "p + ucast (entry_offset ts (of_nat i) k) = p + of_nat (unat ts * i + 8 * k)" by (simp only: x_def)
  have "unat (ucast (entry_offset ts (of_nat i) k) :: u64) = unat ts * i + 8 * k" using c by (simp only: x_def)
  then show u: "unat (p + ucast (entry_offset ts (of_nat i) k)) = unat p + (unat ts * i + 8 * k)"
    using lt assms(4) by (simp add: unat_word_ariths)
  show "unat (p + ucast (entry_offset ts (of_nat i) k)) < 2 ^ 48"
    unfolding u using lt assms(4) by linarith
qed

text \<open>Objects of an allocation of whole slots lie in different slots.\<close>

lemma slots_apart:
  fixes ts :: u32 and p :: addr
  assumes "8 * k < unat ts" "8 * l < unat ts" "i < N" "j < N" "8 dvd unat ts" "8 dvd unat p"
    "unat ts * N < 2 ^ 32" "unat p + unat ts * N \<le> 2 ^ 48"
    "same_slot (p + of_nat (unat ts * j + 8 * l)) (p + of_nat (unat ts * i + 8 * k))"
  shows "j = i \<and> l = k"
proof -
  let ?a = "\<lambda>i k. p + of_nat (unat ts * i + 8 * k) :: addr"
  have addr: "unat (?a j l) = unat p + (unat ts * j + 8 * l) \<and> unat (?a j l) < 2 ^ 48 \<and> take_bit 3 (?a j l) = 0"
    if "j < N" "8 * l < unat ts" for j l
  proof -
    note o = object_address[OF that(2,1) assms(7,8)]
    have "8 dvd unat p + (unat ts * j + 8 * l)" using assms(5,6) by (intro dvd_add dvd_mult2 dvd_triv_left)
    then have "8 dvd unat (?a j l)" using o by simp
    then have "take_bit 3 (unat (?a j l)) = 0" by (simp add: take_bit_eq_mod mod_eq_0_iff_dvd)
    then have "unat (take_bit 3 (?a j l)) = 0" by (simp only: unsigned_take_bit_eq)
    then show ?thesis using o by (simp add: unat_eq_0)
  qed
  have "?a j l = ?a i k"
    using assms(9) addr[OF assms(4,2)] addr[OF assms(3,1)] by (simp add: same_slot_aligned)
  then have eq: "unat ts * j + 8 * l = unat ts * i + 8 * k" using addr[OF assms(4,2)] addr[OF assms(3,1)] by simp
  have "j = (unat ts * j + 8 * l) div unat ts" "i = (unat ts * i + 8 * k) div unat ts" using assms(1,2) by simp_all
  with eq have "j = i" by simp
  with eq show ?thesis by simp
qed

lemma object_recorded:
  assumes "os_ok os" "rt_reachable os rodata s" "variable_alloc ty"
    "insertUpdate M Prefix ty E ts (ConstLen n) U = Some (code, V)" "exec_code os at p m code s = Some (Inr s')"
    "smap_ok E" "\<forall>k\<in>fst ` set E. 8 * k < unat ts" "8 dvd unat ts" "8 dvd unat p"
    "unat ts * unat n < 2 ^ 32" "unat p + unat ts * unat n \<le> 2 ^ 48"
    "(k, S) \<in> set E" "S \<noteq> []" "i < unat n"
  shows "\<exists>g. var_of V S = Some g \<and>
    ref_of s' (p + of_nat (unat ts * i + 8 * k)) = at g \<and>
    so_offset (meta_of s' (p + of_nat (unat ts * i + 8 * k))) = of_nat (8 * k)"
proof -
  let ?a = "\<lambda>i k. p + ucast (entry_offset ts (of_nat i) k)"
  have inv: "rt_inv os s" using rt_reachable_inv[OF assms(1,2)] by blast
  have c: "emit_elements M Prefix E CONOBJADD n ts 0 ty U = Some (code, V)"
    using assms(4) unfolding insertUpdate_const[OF assms(3)] .
  have u: "\<forall>x\<in>set code. updates_only x" using update_code_updates[OF c] assms(3) by auto
  note x = exec_writes[OF assms(1) inv u assms(5)] and v = emit_elements_vars[OF c]
  have w: "writes code = concat (map (\<lambda>j. entry_vars V E ts (of_nat j)) [0..<unat n])"
    using v assms(3) by auto
  have "unat (0 :: u32) < unat n" using assms(14) by simp
  with v assms(12,13) obtain g where g: "var_of V S = Some g" by (auto simp: has_vars_def ucast_less_u64 word_less_nat_alt)
  have k: "k \<in> fst ` set E" using assms(12) by force
  have only: "(off', g', v') = (entry_offset ts (of_nat i) k, g, of_nat k * 8)"
    if "(off', g', v') \<in> set (writes code)" "same_slot (p + ucast off') (?a i k)" for off' g' v'
  proof -
    from that(1) obtain j l T where j: "j < unat n" and l: "(l, T) \<in> set E"
      and e: "off' = entry_offset ts (of_nat j) l" "g' = the (var_of V T)" "v' = of_nat l * 8"
      unfolding w by (auto simp: entry_vars_def)
    have b: "8 * l < unat ts" "8 * k < unat ts" using assms(7) k l by force+
    have "?a j l = p + of_nat (unat ts * j + 8 * l)" "?a i k = p + of_nat (unat ts * i + 8 * k)"
      using object_address(3)[OF b(1) j assms(10,11)] object_address(3)[OF b(2) assms(14,10,11)] by simp_all
    then have "j = i" "l = k"
      using slots_apart[OF b(2,1) assms(14) j assms(8-11)] that(2) by (simp_all add: e)
    with l assms(6,12) have "T = S" using smap_ok_map_of_iff by (metis option.inject)
    with \<open>j = i\<close> \<open>l = k\<close> show ?thesis by (simp add: e g)
  qed
  have "(entry_offset ts (of_nat i) k, g, of_nat k * 8) \<in> set (writes code)"
    unfolding w using assms(12-14) g by (force simp: entry_vars_def)
  from last_write_unique[OF this same_slot_refl only]
  have "ref_of s' (?a i k) = at g" "so_offset (meta_of s' (?a i k)) = of_nat k * 8"
    using x[of "?a i k"] by simp_all
  moreover have "?a i k = p + of_nat (unat ts * i + 8 * k)"
    using object_address(3)[OF _ assms(14,10,11), of k] assms(7) k by blast
  ultimately show ?thesis using g by (simp add: mult.commute)
qed

text \<open>
  C31: Where the elements are whole slots, the code emitted for a variable records every object the variable
  contains: the slot at offset \<open>8 * k\<close> of element \<open>i\<close> gets the array of the set of classes the value has
  there, with \<open>8 * k\<close> as offset, for every entry of the table of slots and every element, and the array
  is the global variable registered for the set.
\<close>

theorem variable_objects_recorded:
  assumes "os_ok os" "rt_reachable os rodata s" "variable_alloc ty"
    "insertUpdate M Prefix ty E ts (ConstLen n) U = Some (code, V)" "exec_code os at p m code s = Some (Inr s')"
    "smap_ok E" "\<forall>k\<in>fst ` set E. 8 * k < unat ts" "8 dvd unat ts" "8 dvd unat p"
    "unat ts * unat n < 2 ^ 32" "unat p + unat ts * unat n \<le> 2 ^ 48"
    "(k, S) \<in> set E" "S \<noteq> []" "i < unat n"
  shows "\<exists>g. var_of V S = Some g \<and>
    ref_of s' (p + of_nat (unat ts * i + 8 * k)) = at g \<and>
    so_offset (meta_of s' (p + of_nat (unat ts * i + 8 * k))) = of_nat (8 * k)"
  by (rule object_recorded[OF assms])

section \<open>The demonstration variable\<close>

lemma demo_run: "\<exists>s. exec_code linux_os (\<lambda>_. 4096) 8 1 [CallDirectUpdate 0 0 0] boot_state = Some (Inr s)"
proof -
  have "linux_os (mmaps boot_state) \<noteq> None" by (rule linux_first) (simp add: boot_state_def)
  then have "\<forall>e. bitype_direct_updateObjTrace linux_os 8 4096 0 boot_state \<noteq> Inl e"
    by (simp add: direct_update_cases)
  then obtain s where "bitype_direct_updateObjTrace linux_os 8 4096 0 boot_state = Inr s" by (meson obj_sumE)
  then show ?thesis by simp
qed

lemma variable_recorded_then_forgotten_witness:
  "\<exists>s t. exec_code linux_os (\<lambda>_. 4096) 8 1 [CallDirectUpdate 0 0 0] boot_state = Some (Inr s) \<and>
     exec_code linux_os (\<lambda>_. 4096) 8 1 [CallDirectErase 0] s = Some (Inr t) \<and> ref_of t 8 = 0"
proof -
  obtain s where s: "exec_code linux_os (\<lambda>_. 4096) 8 1 [CallDirectUpdate 0 0 0] boot_state = Some (Inr s)"
    using demo_run by blast
  note r = variable_recorded_then_forgotten[OF linux_os_ok boot_reachable disjI1[OF refl]
      demo_update[where b = False, unfolded if_False] demo_remove[where b = False, unfolded if_False] s]
  obtain t where t: "exec_code linux_os (\<lambda>_. 4096) 8 1 [CallDirectErase 0] s = Some (Inr t)"
    "ref_of t 8 = (if \<exists>a\<in>object_slots 8 demo_slots 8 1. same_slot a 8 then 0 else ref_of boot_state 8)"
    using r by blast
  have "ref_of t 8 = 0" unfolding t(2) by (simp add: boot_empty)
  with s t(1) show ?thesis by blast
qed

lemma variable_objects_recorded_witness:
  "\<exists>s. exec_code linux_os (\<lambda>_. 4096) 8 1 [CallDirectUpdate 0 0 0] boot_state = Some (Inr s) \<and> ref_of s 8 = 4096"
proof -
  obtain s where s: "exec_code linux_os (\<lambda>_. 4096) 8 1 [CallDirectUpdate 0 0 0] boot_state = Some (Inr s)"
    using demo_run by blast
  have "ref_of s (8 + of_nat (unat (8 :: u32) * 0 + 8 * 0)) = 4096"
    using variable_objects_recorded[OF linux_os_ok boot_reachable disjI1[OF refl]
      demo_update[where b = False, unfolded if_False] s, of 0 "[(3, (tracked 3 ''B'', [IntegerTy 64]))]" 0]
    by (simp add: demo_slots_def smap_ok_def)
  with s show ?thesis by auto
qed

end
