(* ===== verification/StackTrace.thy ===== *)
theory StackTrace
  imports StackSafety StackPass TraceRecord
begin

text \<open>
  What the pass over variables does: which variables it traces, where it records and forgets them, and that what it
  inserts for one variable fits together.
\<close>

section \<open>The code of a variable\<close>

text \<open>The effects that record and forget variables come from the two emitters, for the variable's type and length.\<close>

definition effect_ok :: "module_env \<Rightarrow> ir_function list \<Rightarrow> pass_effect \<Rightarrow> bool" where
  "effect_ok M Fs e \<longleftrightarrow> (case e of
     RecordBefore p AI code \<Rightarrow> \<exists>F Ty n a U V. find_alloca Fs AI = Some (F, Ty, n, a) \<and>
       insertUpdate M ''bitype'' STACKALLOC (slots_of M Ty) (type_size M Ty) (array_length n) U = Some (code, V)
   | ForgetBefore p AI code \<Rightarrow> \<exists>F Ty n a U V. find_alloca Fs AI = Some (F, Ty, n, a) \<and>
       emitRemoveInst M ''bitype'' Ty n U = Some (code, V)
   | _ \<Rightarrow> True)"

lemma add_allocaE:
  assumes "add_alloca M Fs st AI S = Some T"
  obtains F Ty n al next_inst align where "find_alloca Fs AI = Some (F, Ty, n, al)" "findNextInstruction F AI = Some next_inst"
    "set align \<subseteq> {RaiseAlignment AI}" "slots_of M Ty = []" "T = (fst S @ align, snd S)"
  | F Ty n al next_inst align code V where "find_alloca Fs AI = Some (F, Ty, n, al)"
    "findNextInstruction F AI = Some next_inst" "set align \<subseteq> {RaiseAlignment AI}" "slots_of M Ty \<noteq> []"
    "insertUpdate M ''bitype'' STACKALLOC (slots_of M Ty) (type_size M Ty) (array_length n) (snd S) = Some (code, V)"
    "T = (fst S @ align @
      [RecordBefore (case map_find (LifeTimeStartMap st) AI of Some start \<Rightarrow> start | None \<Rightarrow> next_inst) AI code], V)"
proof -
  obtain effs U where S: "S = (effs, U)" by force
  from assms obtain F Ty n al where f: "find_alloca Fs AI = Some (F, Ty, n, al)"
    by (auto simp: add_alloca_def S bind_eq_Some_conv)
  with assms obtain next_inst where g: "findNextInstruction F AI = Some next_inst"
    by (auto simp: add_alloca_def S bind_eq_Some_conv)
  let ?align = "if isInCastRelatedSetType (maps M) Ty \<and> al < 8 then [RaiseAlignment AI] else []"
  have al: "set ?align \<subseteq> {RaiseAlignment AI}" by auto
  show thesis
  proof (cases "slots_of M Ty = []")
    case True
    with assms f g that(1)[OF f g al True] show thesis by (auto simp: add_alloca_def S)
  next
    case False
    with assms f g obtain code V where
      "insertUpdate M ''bitype'' STACKALLOC (slots_of M Ty) (type_size M Ty) (array_length n) U = Some (code, V)"
      "T = (effs @ ?align @
        [RecordBefore (case map_find (LifeTimeStartMap st) AI of Some start \<Rightarrow> start | None \<Rightarrow> next_inst) AI code], V)"
      by (auto simp: add_alloca_def S)
    with that(2)[OF f g al False] S show thesis by simp
  qed
qed

lemma add_alloca_ok:
  assumes "add_alloca M Fs st AI S = Some T" "\<forall>e\<in>set (fst S). effect_ok M Fs e"
  shows "\<forall>e\<in>set (fst T). effect_ok M Fs e"
  using assms(1)
proof (cases rule: add_allocaE)
  case (1 F Ty n al next_inst align)
  then show ?thesis using assms(2) by (auto simp: effect_ok_def[of _ _ "RaiseAlignment AI"])
next
  case (2 F Ty n al next_inst align code V)
  have "effect_ok M Fs (RecordBefore p AI code)" for p
    unfolding effect_ok_def pass_effect.case using 2(1,5) by blast
  then show ?thesis using 2(3,6) assms(2) by (auto simp: effect_ok_def[of _ _ "RaiseAlignment AI"])
qed

lemma remove_at_ok:
  assumes "remove_at M AI Ty n place S = Some T" "find_alloca Fs AI = Some (F, Ty, n, a)" "\<forall>e\<in>set (fst S). effect_ok M Fs e"
  shows "\<forall>e\<in>set (fst T). effect_ok M Fs e"
proof -
  obtain effs U code V where S: "S = (effs, U)" and r: "emitRemoveInst M ''bitype'' Ty n U = Some (code, V)"
    and T: "T = (effs @ [ForgetBefore place AI code], V)"
    using assms(1) by (cases S) (auto simp: remove_at_def)
  have "effect_ok M Fs (ForgetBefore place AI code)"
    unfolding effect_ok_def pass_effect.case using assms(2) r by blast
  with assms(3) show ?thesis by (simp add: S T)
qed

lemma delete_allocaE:
  assumes "delete_alloca M dominates Fs st (AI, Fn) S = Some T"
  obtains F Ty n al rets where "find_alloca Fs AI = Some (F, Ty, n, al)" "map_find (ReturnInstMap st) Fn = Some rets"
    "(\<exists>r\<in>set rets. dominates Fn AI r \<and> returns_alloca F AI r) \<and> T = S \<or>
     (\<exists>e. map_find (LifeTimeEndMap st) AI = Some e \<and> remove_at M AI Ty n e S = Some T) \<or>
     map_find (LifeTimeEndMap st) AI = None \<and> foldO (remove_at M AI Ty n) (filter (dominates Fn AI) rets) S = Some T"
proof -
  from assms obtain F Ty n al where f: "find_alloca Fs AI = Some (F, Ty, n, al)"
    by (auto simp: delete_alloca_def bind_eq_Some_conv)
  with assms obtain rets where g: "map_find (ReturnInstMap st) Fn = Some rets"
    by (auto simp: delete_alloca_def bind_eq_Some_conv)
  from assms f g have r: "(if \<exists>r\<in>set (filter (dominates Fn AI) rets). returns_alloca F AI r then Some S
       else case map_find (LifeTimeEndMap st) AI of
             Some e \<Rightarrow> remove_at M AI Ty n e S
           | None \<Rightarrow> foldO (remove_at M AI Ty n) (filter (dominates Fn AI) rets) S) = Some T"
    by (simp only: delete_alloca_def split_conv bind.bind_lunit Let_def)
  show thesis
  proof (rule that[OF f g])
    show "(\<exists>r\<in>set rets. dominates Fn AI r \<and> returns_alloca F AI r) \<and> T = S \<or>
     (\<exists>e. map_find (LifeTimeEndMap st) AI = Some e \<and> remove_at M AI Ty n e S = Some T) \<or>
     map_find (LifeTimeEndMap st) AI = None \<and> foldO (remove_at M AI Ty n) (filter (dominates Fn AI) rets) S = Some T"
    proof (cases "\<exists>r\<in>set (filter (dominates Fn AI) rets). returns_alloca F AI r")
      case True
      with r have "T = S" by (simp only: if_True option.inject)
      with True show ?thesis by auto
    next
      case False
      with r have "(case map_find (LifeTimeEndMap st) AI of
             Some e \<Rightarrow> remove_at M AI Ty n e S
           | None \<Rightarrow> foldO (remove_at M AI Ty n) (filter (dominates Fn AI) rets) S) = Some T"
        by (simp only: if_False)
      then show ?thesis by (auto split: option.splits)
    qed
  qed
qed

lemma removes_ok:
  assumes "foldO (remove_at M AI Ty n) ps S = Some T" "find_alloca Fs AI = Some (F, Ty, n, al)"
    "\<forall>e\<in>set (fst S). effect_ok M Fs e"
  shows "\<forall>e\<in>set (fst T). effect_ok M Fs e"
  by (rule foldO_inv[where P = "\<lambda>S. \<forall>e\<in>set (fst S). effect_ok M Fs e", OF assms(1,3)])
    (rule remove_at_ok[OF _ assms(2)])

lemma delete_alloca_ok:
  assumes "delete_alloca M dominates Fs st x S = Some T" "\<forall>e\<in>set (fst S). effect_ok M Fs e"
  shows "\<forall>e\<in>set (fst T). effect_ok M Fs e"
proof -
  obtain AI Fn where x: "x = (AI, Fn)" by force
  from assms(1)[unfolded x] show ?thesis
  proof (rule delete_allocaE, elim disjE conjE exE)
    fix F Ty n al rets e
    assume "remove_at M AI Ty n e S = Some T" "find_alloca Fs AI = Some (F, Ty, n, al)"
    with assms(2) show ?thesis by (rule remove_at_ok[rotated 2])
  next
    fix F Ty n al rets
    assume "foldO (remove_at M AI Ty n) (filter (dominates Fn AI) rets) S = Some T" "find_alloca Fs AI = Some (F, Ty, n, al)"
    with assms(2) show ?thesis by (rule removes_ok[rotated 2])
  qed (use assms(2) in simp)
qed

lemma stackObjTracing_ok:
  assumes "stackObjTracing M flags CG dominates Fs n S = Some (Fs', effs, V)" "fst S = []"
  shows "\<forall>e\<in>set effs. effect_ok M Fs' e"
proof -
  from assms(1) obtain k st T where a: "handleAllocaAdd M Fs' st S = Some T"
    and d: "handleAllocaDelete M dominates Fs' st T = Some (effs, V)"
    by (auto simp: stackObjTracing_def bind_eq_Some_conv)
  have "\<forall>e\<in>set (fst T). effect_ok M Fs' e"
    by (rule foldO_inv[where P = "\<lambda>S. \<forall>e\<in>set (fst S). effect_ok M Fs' e", OF a[unfolded handleAllocaAdd_def]])
      (use assms(2) add_alloca_ok in \<open>auto simp del: add_alloca_def\<close>)
  then have "\<forall>e\<in>set (fst (effs, V)). effect_ok M Fs' e"
    by (rule foldO_inv[where P = "\<lambda>S. \<forall>e\<in>set (fst S). effect_ok M Fs' e", OF d[unfolded handleAllocaDelete_def]])
      (rule delete_alloca_ok)
  then show ?thesis by simp
qed

text \<open>
  C34: Whatever the pass inserts to record a variable of constant length and to forget it again fits together: wherever
  the recording code has run to its end, the forgetting code runs to its end, empties the slots of the objects of the
  variable and puts every other slot back as it was before the recording.
\<close>

theorem inserted_code_balanced:
  assumes "os_ok os" "rt_reachable os rodata s"
    "stackObjTracing M flags CG dominates Fs n ([], U) = Some (Fs', effs, V)"
    "RecordBefore a AI add \<in> set effs" "ForgetBefore b AI del \<in> set effs"
    "find_alloca Fs' AI = Some (F, Ty, ConstInt c, al)" "exec_code os at p m add s = Some (Inr s')"
  shows "\<exists>s''. exec_code os at p m del s' = Some (Inr s'') \<and>
    (\<forall>x. ref_of s'' x =
       (if \<exists>y\<in>object_slots p (slots_of M Ty) (type_size M Ty) c. same_slot y x then 0 else ref_of s x))"
proof -
  note ok = stackObjTracing_ok[OF assms(3), simplified]
  from ok[rule_format, OF assms(4)] assms(6) obtain W W' where
    add: "insertUpdate M ''bitype'' STACKALLOC (slots_of M Ty) (type_size M Ty) (ConstLen c) W = Some (add, W')"
    by (auto simp: effect_ok_def array_length_def)
  from ok[rule_format, OF assms(5)] assms(6) obtain X X' where
    del: "emitRemoveInst M ''bitype'' Ty (ConstInt c) X = Some (del, X')"
    by (auto simp: effect_ok_def)
  have "insertRemove M ''bitype'' STACKALLOC (slots_of M Ty) (Some (ConstLen c)) (type_size M Ty) X = Some (del, X')"
    using del by (auto simp: emitRemoveInst_def insertRemove_def array_length_def Let_def split: if_splits)
  from recorded_forgotten[OF assms(1,2) disjI1[OF refl] add this assms(7)] show ?thesis .
qed

section \<open>Every traced variable is recorded and forgotten\<close>

text \<open>The variables of a function the pass traces, and functions without marks of lifetimes.\<close>

definition traced :: "stack_opts \<Rightarrow> ir_function \<Rightarrow> ir_inst \<Rightarrow> bool" where
  "traced flags F I \<longleftrightarrow> (case inst_op I of
     Alloca Ty n a \<Rightarrow> isInterestingType Ty \<and> \<not> (ClSafeStackOpt flags \<and> isSafeStackAlloca F I) | _ \<Rightarrow> False)"

definition lifetime_call :: "ir_inst \<Rightarrow> bool" where
  "lifetime_call I \<longleftrightarrow> (case inst_op I of Call f args \<Rightarrow> f = LifetimeStart \<or> f = LifetimeEnd | _ \<Rightarrow> False)"

abbreviation fn_of :: "stack_state \<Rightarrow> nat \<Rightarrow> string option" where
  "fn_of st \<equiv> map_find (AllAllocaWithFnMap st)"

lemma collect_inst_spec:
  assumes "collect_inst flags F I st = Some st'"
  shows "ReturnInstMap st' = ReturnInstMap st"
    "set (AllAllocaSet st') = set (AllAllocaSet st) \<union> (if traced flags F I then {inst_id I} else {})"
    "fn_of st' k = (if traced flags F I \<and> k = inst_id I \<and> fn_of st k = None then Some (fun_name F) else fn_of st k)"
    "\<not> lifetime_call I \<Longrightarrow> LifeTimeStartMap st' = LifeTimeStartMap st \<and> LifeTimeEndMap st' = LifeTimeEndMap st"
proof -
  from assms obtain t where t: "collectLifeTimeInfo F I st = Some t" and st': "st' = collectAllocaInstInfo flags F I t"
    by (auto simp: collect_inst_def)
  have k: "ReturnInstMap t = ReturnInstMap st \<and> AllAllocaSet t = AllAllocaSet st \<and>
      AllAllocaWithFnMap t = AllAllocaWithFnMap st"
    using t by (auto simp: collectLifeTimeInfo_def bind_eq_Some_conv split: inst_op.splits if_splits list.splits
        ir_value.splits option.splits)
  have l: "\<not> lifetime_call I \<Longrightarrow> t = st"
    using t by (auto simp: collectLifeTimeInfo_def lifetime_call_def split: inst_op.splits)
  have e: "st' = (if traced flags F I
      then t\<lparr>AllAllocaWithFnMap := map_insert (inst_id I) (fun_name F) (AllAllocaWithFnMap t),
             AllAllocaSet := set_insert (inst_id I) (AllAllocaSet t)\<rparr> else t)"
    unfolding st' by (cases "inst_op I") (simp_all add: collectAllocaInstInfo_def traced_def)
  show "ReturnInstMap st' = ReturnInstMap st"
    "set (AllAllocaSet st') = set (AllAllocaSet st) \<union> (if traced flags F I then {inst_id I} else {})"
    "fn_of st' k = (if traced flags F I \<and> k = inst_id I \<and> fn_of st k = None then Some (fun_name F) else fn_of st k)"
    using k by (auto simp: e map_of_map_insert)
  show "\<not> lifetime_call I \<Longrightarrow> LifeTimeStartMap st' = LifeTimeStartMap st \<and> LifeTimeEndMap st' = LifeTimeEndMap st"
    using l by (simp add: e)
qed

lemma collect_insts_spec:
  assumes "foldO (collect_inst flags F) Is st = Some st'"
  shows "ReturnInstMap st' = ReturnInstMap st \<and>
    set (AllAllocaSet st') = set (AllAllocaSet st) \<union> {inst_id I | I. I \<in> set Is \<and> traced flags F I} \<and>
    (\<forall>k. fn_of st' k = (if fn_of st k = None \<and> (\<exists>I\<in>set Is. traced flags F I \<and> k = inst_id I) then Some (fun_name F)
       else fn_of st k)) \<and>
    ((\<forall>I\<in>set Is. \<not> lifetime_call I) \<longrightarrow> LifeTimeStartMap st' = LifeTimeStartMap st \<and> LifeTimeEndMap st' = LifeTimeEndMap st)"
  using assms
proof (induction Is arbitrary: st)
  case (Cons I Is)
  from Cons.prems obtain t where t: "collect_inst flags F I st = Some t" "foldO (collect_inst flags F) Is t = Some st'"
    by (auto simp: bind_eq_Some_conv)
  note s = collect_inst_spec[OF t(1)] and IH = Cons.IH[OF t(2)]
  have "fn_of st' k = (if fn_of st k = None \<and> (\<exists>J\<in>set (I # Is). traced flags F J \<and> k = inst_id J) then Some (fun_name F)
       else fn_of st k)" for k
    using IH s(3)[of k] by auto
  with IH s(1,2,4) show ?case by auto
qed simp

definition collected :: "stack_opts \<Rightarrow> ir_function list \<Rightarrow> stack_state \<Rightarrow> bool" where
  "collected flags Fs st \<longleftrightarrow>
     (\<forall>k. fn_of st k \<noteq> None \<longrightarrow> (\<exists>F\<in>set Fs. k \<in> inst_ids F)) \<and>
     (\<forall>f. map_find (ReturnInstMap st) f \<noteq> None \<longrightarrow> f \<in> fun_name ` set Fs) \<and>
     (\<forall>F\<in>set Fs. isInterestingFn F \<longrightarrow> map_find (ReturnInstMap st) (fun_name F) = Some (return_insts F) \<and>
        (\<forall>I\<in>set (insts F). traced flags F I \<longrightarrow>
           inst_id I \<in> set (AllAllocaSet st) \<and> fn_of st (inst_id I) = Some (fun_name F))) \<and>
     ((\<forall>F\<in>set Fs. \<forall>I\<in>set (insts F). \<not> lifetime_call I) \<longrightarrow> LifeTimeStartMap st = [] \<and> LifeTimeEndMap st = [])"

lemma collectedD:
  assumes "collected flags Fs st"
  shows "fn_of st k \<noteq> None \<Longrightarrow> \<exists>F\<in>set Fs. k \<in> inst_ids F"
    "map_find (ReturnInstMap st) f \<noteq> None \<Longrightarrow> f \<in> fun_name ` set Fs"
    "F \<in> set Fs \<Longrightarrow> isInterestingFn F \<Longrightarrow> map_find (ReturnInstMap st) (fun_name F) = Some (return_insts F)"
    "F \<in> set Fs \<Longrightarrow> isInterestingFn F \<Longrightarrow> I \<in> set (insts F) \<Longrightarrow> traced flags F I \<Longrightarrow>
       inst_id I \<in> set (AllAllocaSet st) \<and> fn_of st (inst_id I) = Some (fun_name F)"
    "\<forall>F\<in>set Fs. \<forall>I\<in>set (insts F). \<not> lifetime_call I \<Longrightarrow> LifeTimeStartMap st = [] \<and> LifeTimeEndMap st = []"
  using assms unfolding collected_def by blast+

lemma collectedI:
  assumes "\<And>k. fn_of st k \<noteq> None \<Longrightarrow> \<exists>F\<in>set Fs. k \<in> inst_ids F"
    "\<And>f. map_find (ReturnInstMap st) f \<noteq> None \<Longrightarrow> f \<in> fun_name ` set Fs"
    "\<And>F. F \<in> set Fs \<Longrightarrow> isInterestingFn F \<Longrightarrow> map_find (ReturnInstMap st) (fun_name F) = Some (return_insts F)"
    "\<And>F I. F \<in> set Fs \<Longrightarrow> isInterestingFn F \<Longrightarrow> I \<in> set (insts F) \<Longrightarrow> traced flags F I \<Longrightarrow>
       inst_id I \<in> set (AllAllocaSet st) \<and> fn_of st (inst_id I) = Some (fun_name F)"
    "\<forall>F\<in>set Fs. \<forall>I\<in>set (insts F). \<not> lifetime_call I \<Longrightarrow> LifeTimeStartMap st = [] \<and> LifeTimeEndMap st = []"
  shows "collected flags Fs st"
  using assms unfolding collected_def by blast

lemma collected_skip:
  assumes "collected flags Fs st" "\<not> isInterestingFn F"
  shows "collected flags (Fs @ [F]) st"
  using assms unfolding collected_def by simp

lemma collected_add:
  assumes "collected flags Fs st" "foldO (collect_inst flags F) (insts F) st = Some st'"
    "\<forall>G\<in>set Fs. inst_ids G \<inter> inst_ids F = {} \<and> fun_name G \<noteq> fun_name F"
  shows "collected flags (Fs @ [F]) (findReturnInst F st')"
proof -
  note c = collect_insts_spec[OF assms(2)]
  have fresh: "fn_of st (inst_id I) = None" if "I \<in> set (insts F)" for I
  proof (rule ccontr)
    assume "fn_of st (inst_id I) \<noteq> None"
    with collectedD(1)[OF assms(1)] obtain G where "G \<in> set Fs" "inst_id I \<in> inst_ids G" by blast
    with assms(3) that show False by blast
  qed
  have ret: "map_find (ReturnInstMap st) (fun_name F) = None"
  proof (rule ccontr)
    assume "map_find (ReturnInstMap st) (fun_name F) \<noteq> None"
    from collectedD(2)[OF assms(1) this] obtain G where "G \<in> set Fs" "fun_name F = fun_name G" by blast
    with assms(3) show False by metis
  qed
  have own: "inst_id I \<in> set (AllAllocaSet st') \<and> fn_of st' (inst_id I) = Some (fun_name F)"
    if "I \<in> set (insts F)" "traced flags F I" for I
    using c fresh[OF that(1)] that by auto
  have keep: "inst_id I \<in> set (AllAllocaSet st') \<and> fn_of st' (inst_id I) = Some (fun_name G)"
    if "G \<in> set Fs" "isInterestingFn G" "I \<in> set (insts G)" "traced flags G I" for G I
    using collectedD(4)[OF assms(1) that] c by auto
  have rets: "map_find (ReturnInstMap (findReturnInst F st')) (fun_name G) = Some (return_insts G)"
    if "G \<in> set (Fs @ [F])" "isInterestingFn G" for G
  proof (cases "G = F")
    case True
    then show ?thesis using ret c by (simp add: findReturnInst_def map_of_map_insert)
  next
    case False
    then have G: "G \<in> set Fs" using that(1) by simp
    with assms(3) have "fun_name G \<noteq> fun_name F" by blast
    then show ?thesis using collectedD(3)[OF assms(1) G that(2)] c by (simp add: findReturnInst_def map_of_map_insert)
  qed
  show ?thesis
  proof (rule collectedI)
    fix k assume "fn_of (findReturnInst F st') k \<noteq> None"
    then have "fn_of st k \<noteq> None \<or> (\<exists>I\<in>set (insts F). k = inst_id I)"
      using c by (auto simp: findReturnInst_def split: if_splits)
    then show "\<exists>G\<in>set (Fs @ [F]). k \<in> inst_ids G" using collectedD(1)[OF assms(1), of k] by auto
  next
    fix f assume "map_find (ReturnInstMap (findReturnInst F st')) f \<noteq> None"
    then have "f = fun_name F \<or> map_find (ReturnInstMap st) f \<noteq> None"
      using c by (auto simp: findReturnInst_def map_of_map_insert split: if_splits)
    then show "f \<in> fun_name ` set (Fs @ [F])" using collectedD(2)[OF assms(1), of f] by auto
  next
    fix G assume "G \<in> set (Fs @ [F])" "isInterestingFn G"
    then show "map_find (ReturnInstMap (findReturnInst F st')) (fun_name G) = Some (return_insts G)" by (rule rets)
  next
    fix G I assume "G \<in> set (Fs @ [F])" "isInterestingFn G" "I \<in> set (insts G)" "traced flags G I"
    then have "inst_id I \<in> set (AllAllocaSet st') \<and> fn_of st' (inst_id I) = Some (fun_name G)"
      using own[of I] keep[of G I] by (cases "G = F") simp_all
    then show "inst_id I \<in> set (AllAllocaSet (findReturnInst F st')) \<and> fn_of (findReturnInst F st') (inst_id I) = Some (fun_name G)"
      by (simp add: findReturnInst_def)
  next
    assume "\<forall>G\<in>set (Fs @ [F]). \<forall>I\<in>set (insts G). \<not> lifetime_call I"
    then show "LifeTimeStartMap (findReturnInst F st') = [] \<and> LifeTimeEndMap (findReturnInst F st') = []"
      using collectedD(5)[OF assms(1)] c by (simp add: findReturnInst_def)
  qed
qed

definition apart :: "ir_function list \<Rightarrow> bool" where
  "apart Fs \<longleftrightarrow> sorted_wrt (\<lambda>G F. inst_ids G \<inter> inst_ids F = {} \<and> fun_name G \<noteq> fun_name F) Fs"

lemma collect_fn_grows:
  assumes "collect_fn dl flags CG F (Gs, n, st) = Some (Hs, k, st')"
  shows "\<exists>F'. Hs = Gs @ [F']"
  using assms by (auto simp: collect_fn_def Let_def split: if_splits prod.splits)

lemma collect_fns_grow:
  assumes "foldO (collect_fn dl flags CG) Fs (Gs, n, st) = Some (Hs, k, st')"
  shows "\<exists>Is. Hs = Gs @ Is"
  using assms
proof (induction Fs arbitrary: Gs n st)
  case (Cons F Fs)
  from Cons.prems obtain Gs' n' t where "collect_fn dl flags CG F (Gs, n, st) = Some (Gs', n', t)"
    "foldO (collect_fn dl flags CG) Fs (Gs', n', t) = Some (Hs, k, st')"
    by (auto simp: bind_eq_Some_conv)
  with Cons.IH collect_fn_grows show ?case by fastforce
qed simp

lemma collect_fn_collected:
  assumes "collect_fn dl flags CG F (Gs, n, st) = Some (Hs, k, st')" "\<not> ClStackOpt flags" "apart Hs" "collected flags Gs st"
  shows "collected flags Hs st'"
proof (cases "isInterestingFn F")
  case False
  with assms(1,4) show ?thesis by (auto simp: collect_fn_def intro: collected_skip)
next
  case True
  obtain F' n' where h: "handleFnParameter dl F n = (F', n')" by force
  with assms(1,2) True obtain t where t: "foldO (collect_inst flags F') (insts F') st = Some t"
    "Hs = Gs @ [F']" "st' = findReturnInst F' t"
    by (auto simp: collect_fn_def Let_def simp del: set_concat)
  have "\<forall>G\<in>set Gs. inst_ids G \<inter> inst_ids F' = {} \<and> fun_name G \<noteq> fun_name F'"
    using assms(3) unfolding apart_def t(2) sorted_wrt_append by simp
  from collected_add[OF assms(4) t(1) this] show ?thesis unfolding t(2,3) .
qed

lemma collect_fns_collected:
  assumes "foldO (collect_fn dl flags CG) Fs (Gs, n, st) = Some (Hs, k, st')" "\<not> ClStackOpt flags" "apart Hs"
    "collected flags Gs st"
  shows "collected flags Hs st'"
  using assms(1,4)
proof (induction Fs arbitrary: Gs n st)
  case (Cons F Fs)
  from Cons.prems(1) obtain Gs' n' t where t: "collect_fn dl flags CG F (Gs, n, st) = Some (Gs', n', t)"
    "foldO (collect_fn dl flags CG) Fs (Gs', n', t) = Some (Hs, k, st')"
    by (auto simp: bind_eq_Some_conv)
  from collect_fns_grow[OF t(2)] assms(3) have "apart Gs'" by (auto simp: apart_def sorted_wrt_append)
  from Cons.IH[OF t(2) collect_fn_collected[OF t(1) assms(2) this Cons.prems(2)]] show ?case .
qed simp

lemma no_stack_state_collected: "collected flags [] no_stack_state"
  by (simp add: collected_def no_stack_state_def)

lemma find_in_apart:
  assumes "apart Fs" "F \<in> set Fs" "i \<in> inst_ids F"
  shows "find (\<lambda>F. \<exists>I\<in>set (insts F). inst_id I = i) Fs = Some F"
  using assms
proof (induction Fs)
  case (Cons G Fs)
  show ?case
  proof (cases "F = G")
    case True
    with Cons.prems(3) show ?thesis by auto
  next
    case False
    with Cons.prems have F: "apart Fs" "F \<in> set Fs" "inst_ids G \<inter> inst_ids F = {}" by (auto simp: apart_def)
    with Cons.prems(3) have "\<not> (\<exists>I\<in>set (insts G). inst_id I = i)" by blast
    with Cons.IH[OF F(1,2) Cons.prems(3)] show ?thesis by simp
  qed
qed simp

lemma find_alloca_own:
  assumes "apart Fs" "F \<in> set Fs" "distinct (map inst_id (insts F))" "I \<in> set (insts F)" "inst_op I = Alloca Ty n al"
  shows "find_alloca Fs (inst_id I) = Some (F, Ty, n, al)"
proof -
  have "find_inst F (val_of I) = Some I" using find_distinct[OF assms(3,4)] by (simp add: find_inst_def)
  moreover have "inst_id I \<in> inst_ids F" using assms(4) by blast
  ultimately show ?thesis using find_in_apart[OF assms(1,2)] assms(5) by (simp add: find_alloca_def)
qed

lemma add_alloca_mono: "add_alloca M Fs st AI S = Some T \<Longrightarrow> set (fst S) \<subseteq> set (fst T)"
  by (erule add_allocaE) auto

lemma remove_at_mono: "remove_at M AI Ty n p S = Some T \<Longrightarrow> set (fst S) \<subseteq> set (fst T)"
  by (cases S; cases T) (auto simp: remove_at_def)

lemma remove_at_forgets:
  "remove_at M AI Ty n p S = Some T \<Longrightarrow> \<exists>code. ForgetBefore p AI code \<in> set (fst T)"
  by (cases S; cases T) (auto simp: remove_at_def)

lemma removes_mono: "foldO (remove_at M AI Ty n) ps S = Some T \<Longrightarrow> set (fst S) \<subseteq> set (fst T)"
  by (rule foldO_inv[where P = "\<lambda>u. set (fst S) \<subseteq> set (fst u)"]) (use remove_at_mono in blast)+

lemma delete_alloca_mono:
  assumes "delete_alloca M dominates Fs st x S = Some T"
  shows "set (fst S) \<subseteq> set (fst T)"
proof -
  obtain AI Fn where x: "x = (AI, Fn)" by force
  from assms[unfolded x] show ?thesis
    by (rule delete_allocaE) (elim disjE conjE exE, simp_all add: removes_mono remove_at_mono)
qed

lemma delete_alloca_forgets:
  assumes "delete_alloca M dominates Fs st (AI, Fn) S = Some T" "find_alloca Fs AI = Some (F, Ty, n, al)"
    "map_find (ReturnInstMap st) Fn = Some rets" "LifeTimeEndMap st = []" "r \<in> set rets" "dominates Fn AI r"
    "\<forall>r\<in>set rets. dominates Fn AI r \<longrightarrow> \<not> returns_alloca F AI r"
  shows "\<exists>code. ForgetBefore r AI code \<in> set (fst T)"
  using assms(1)
proof (rule delete_allocaE)
  fix F' Ty' n' al' rets'
  assume a: "find_alloca Fs AI = Some (F', Ty', n', al')" "map_find (ReturnInstMap st) Fn = Some rets'"
    "(\<exists>r\<in>set rets'. dominates Fn AI r \<and> returns_alloca F' AI r) \<and> T = S \<or>
     (\<exists>e. map_find (LifeTimeEndMap st) AI = Some e \<and> remove_at M AI Ty' n' e S = Some T) \<or>
     map_find (LifeTimeEndMap st) AI = None \<and> foldO (remove_at M AI Ty' n') (filter (dominates Fn AI) rets') S = Some T"
  with assms have f: "foldO (remove_at M AI Ty n) (filter (dominates Fn AI) rets) S = Some T" by auto
  have "r \<in> set (filter (dominates Fn AI) rets)" using assms(5,6) by simp
  then have "\<exists>t u. remove_at M AI Ty n r t = Some u \<and> set (fst u) \<subseteq> set (fst T)"
    by (rule foldO_member[OF f]) (rule remove_at_mono)
  with remove_at_forgets show ?thesis by blast
qed

text \<open>
  C35: Without \<open>-stack-opt\<close> and without marks of lifetimes the pass records and forgets every variable of a tracked
  type it has not shown to stay in its function: the code of \<open>insertUpdate\<close> for the slots of its type and its length
  stands right after it, and the code of \<open>emitRemoveInst\<close> for the same type and length before every return the
  variable dominates, unless one of these returns the variable itself; then nothing is claimed about forgetting.
\<close>

theorem traced_variables_handled:
  assumes "stackObjTracing M flags CG dominates Fs n ([], U) = Some (Fs', effs, V)" "\<not> ClStackOpt flags"
    "apart Fs'" "F \<in> set Fs'" "isInterestingFn F" "distinct (map inst_id (insts F))"
    "\<forall>G\<in>set Fs'. \<forall>J\<in>set (insts G). \<not> lifetime_call J"
    "I \<in> set (insts F)" "inst_op I = Alloca Ty len al" "traced flags F I" "slots_of M Ty \<noteq> []"
  shows "(\<exists>p code X Y. findNextInstruction F (inst_id I) = Some p \<and> RecordBefore p (inst_id I) code \<in> set effs \<and>
      insertUpdate M ''bitype'' STACKALLOC (slots_of M Ty) (type_size M Ty) (array_length len) X = Some (code, Y)) \<and>
    ((\<forall>r\<in>set (return_insts F). dominates (fun_name F) (inst_id I) r \<longrightarrow> \<not> returns_alloca F (inst_id I) r) \<longrightarrow>
     (\<forall>r\<in>set (return_insts F). dominates (fun_name F) (inst_id I) r \<longrightarrow> (\<exists>code X Y.
        ForgetBefore r (inst_id I) code \<in> set effs \<and> emitRemoveInst M ''bitype'' Ty len X = Some (code, Y))))"
proof -
  from assms(1) obtain k st T where c: "foldO (collect_fn (target_layout M) flags CG) Fs ([], n, no_stack_state) = Some (Fs', k, st)"
    and a: "foldO (add_alloca M Fs' st) (AllAllocaSet st) ([], U) = Some T"
    and d: "foldO (delete_alloca M dominates Fs' st) (AllAllocaWithFnMap st) T = Some (effs, V)"
    by (auto simp: stackObjTracing_def handleAllocaAdd_def handleAllocaDelete_def bind_eq_Some_conv)
  have col: "collected flags Fs' st" by (rule collect_fns_collected[OF c assms(2,3) no_stack_state_collected])
  note in_set = collectedD(4)[OF col assms(4,5,8,10)] and life = collectedD(5)[OF col assms(7)]
  note own = find_alloca_own[OF assms(3,4,6,8,9)]
  have T: "set (fst T) \<subseteq> set effs"
    using foldO_inv[where P = "\<lambda>u. set (fst T) \<subseteq> set (fst u)", OF d] delete_alloca_mono by (metis fst_conv order.trans order.refl)
  have "\<exists>p code. findNextInstruction F (inst_id I) = Some p \<and> RecordBefore p (inst_id I) code \<in> set (fst T)"
  proof -
    have "\<exists>t u. add_alloca M Fs' st (inst_id I) t = Some u \<and> set (fst u) \<subseteq> set (fst T)"
      by (rule foldO_member[OF a conjunct1[OF in_set]]) (rule add_alloca_mono)
    then obtain t u where t: "add_alloca M Fs' st (inst_id I) t = Some u" "set (fst u) \<subseteq> set (fst T)" by blast
    from t(1) show ?thesis
    proof (cases rule: add_allocaE)
      case (2 G Ty' n' al' p align code W)
      then have "G = F" using own by simp
      with 2(2,6) t(2) life show ?thesis by auto
    qed (use own assms(11) in simp)
  qed
  moreover have "\<exists>code. ForgetBefore r (inst_id I) code \<in> set effs"
    if n: "\<forall>r\<in>set (return_insts F). dominates (fun_name F) (inst_id I) r \<longrightarrow> \<not> returns_alloca F (inst_id I) r"
      and "r \<in> set (return_insts F)" "dominates (fun_name F) (inst_id I) r" for r
  proof -
    have "(inst_id I, fun_name F) \<in> set (AllAllocaWithFnMap st)" using map_of_SomeD in_set by fast
    then have "\<exists>t u. delete_alloca M dominates Fs' st (inst_id I, fun_name F) t = Some u \<and> set (fst u) \<subseteq> set (fst (effs, V))"
      by (rule foldO_member[OF d]) (rule delete_alloca_mono)
    then obtain t u where t: "delete_alloca M dominates Fs' st (inst_id I, fun_name F) t = Some u" "set (fst u) \<subseteq> set effs"
      by auto
    from delete_alloca_forgets[OF t(1) own collectedD(3)[OF col assms(4,5)] conjunct2[OF life] that(2,3) n] t(2)
    show ?thesis by blast
  qed
  moreover have "\<exists>X Y. insertUpdate M ''bitype'' STACKALLOC (slots_of M Ty) (type_size M Ty) (array_length len) X = Some (code, Y)"
    if "RecordBefore p (inst_id I) code \<in> set effs" for p code
    using stackObjTracing_ok[OF assms(1)] that own by (fastforce simp: effect_ok_def)
  moreover have "\<exists>X Y. emitRemoveInst M ''bitype'' Ty len X = Some (code, Y)"
    if "ForgetBefore r (inst_id I) code \<in> set effs" for r code
    using stackObjTracing_ok[OF assms(1)] that own by (fastforce simp: effect_ok_def)
  ultimately show ?thesis using T by (meson subsetD)
qed

section \<open>Addresses as numbers\<close>

text \<open>
  C36: A call is not seen to take an address that it gets as a number, which is how the checks of casts get theirs:
  under \<open>-safestack-opt\<close> a variable whose address is only converted to a number and handed to calls is
  not traced, whichever functions are called, so a check of a cast of it never finds its object.
\<close>

theorem checked_variable_untraced:
  assumes "distinct (map inst_id (insts F))" "I \<in> set (insts F)" "inst_op I = Alloca Ty n al" "ClSafeStackOpt flags"
    "\<forall>P\<in>set (users F I). inst_op P = PtrToInt (val_of I) \<and> \<not> is_pointer P \<and>
       (\<forall>C\<in>set (users F P). \<exists>f args. inst_op C = Call f args)"
  shows "isSafeStackAlloca F I \<and> collectAllocaInstInfo flags F I st = st"
proof -
  have from_I: "V = I \<or> V \<in> set (users F I)" if "comes_from F I V" for V
    using that
  proof induction
    case (passed V J)
    have False if "V \<in> set (users F I)"
    proof -
      from assms(5) that passed(2) obtain f args where "inst_op J = Call f args" by blast
      with passed(3) show False by simp
    qed
    with passed show ?case by blast
  qed simp
  have "\<not> lets_out I V J" if "comes_from F I V" "J \<in> set (users F V)" for V J
  proof (cases "V = I")
    case True
    with that(2) assms(5) show ?thesis by (auto simp: lets_out_def)
  next
    case False
    with from_I[OF that(1)] have V: "V \<in> set (users F I)" by simp
    with assms(5) that(2) obtain f args where "inst_op J = Call f args" by blast
    moreover have "\<not> is_pointer V" using assms(5) V by blast
    ultimately show ?thesis by (simp add: lets_out_def)
  qed
  then have "safe_stack_loop F I [] [I]"
    by (subst safe_stack_loop_spec[OF assms(1,2)]) (auto intro: variable)
  then have s: "isSafeStackAlloca F I" by (simp only: isSafeStackAlloca_def)
  then show ?thesis using assms(3,4) by (simp add: collectAllocaInstInfo_def)
qed

section \<open>Examples\<close>

abbreviation demo_flags :: "bool \<Rightarrow> stack_opts" where
  "demo_flags safe \<equiv> \<lparr>ClStackOpt = False, ClSafeStackOpt = safe\<rparr>"

abbreviation demo_variable :: ir_inst where
  "demo_variable \<equiv> \<lparr>inst_id = 2, inst_op = Alloca demo_B (ConstInt 1) 8, is_pointer = True\<rparr>"

lemma checked_variable_untraced_witness:
  "isSafeStackAlloca demo_check_fn demo_variable \<and>
     collectAllocaInstInfo (demo_flags True) demo_check_fn demo_variable no_stack_state = no_stack_state"
  by (rule checked_variable_untraced) (simp_all add: demo_check_fn_def users_def)

abbreviation demo_effects :: "pass_effect list" where
  "demo_effects \<equiv> [RecordBefore 3 2 [CallDirectUpdate 0 0 0], ForgetBefore 5 2 [CallDirectErase 0]]"

abbreviation demo_dominates :: "string \<Rightarrow> nat \<Rightarrow> nat \<Rightarrow> bool" where
  "demo_dominates f a b \<equiv> a \<le> b"

lemma demo_slots_of: "slots_of (inlining False demo_env) demo_B = demo_slots"
  by code_simp

lemma demo_type_size: "type_size (inlining False demo_env) demo_B = 8"
  by code_simp

definition demo_state :: stack_state where
  "demo_state = \<lparr>AllAllocaSet = [2], LifeTimeEndMap = [], LifeTimeStartMap = [], ReturnInstMap = [(''f'', [5])],
     AllAllocaWithFnMap = [(2, ''f'')], mayCastMap = []\<rparr>"

lemma demo_collect:
  "foldO (collect_fn demo_layout (demo_flags False) (\<lambda>_. [])) [demo_check_fn] ([], 6, no_stack_state) =
     Some ([demo_check_fn], 6, demo_state)"
  by code_simp

lemma demo_found:
  "find_alloca [demo_check_fn] 2 = Some (demo_check_fn, demo_B, ConstInt 1, 8)"
  "findNextInstruction demo_check_fn 2 = Some 3" "returns_alloca demo_check_fn 2 5 = False"
  "isInterestingType demo_B"
  "return_insts demo_check_fn = [5]"
  by code_simp+

lemma demo_stack:
  "stackObjTracing (inlining False demo_env) (demo_flags False) (\<lambda>_. []) demo_dominates [demo_check_fn] 6 ([], demo_util) =
     Some ([demo_check_fn], demo_effects, demo_util)"
proof -
  have layout: "target_layout (inlining False demo_env) = demo_layout" by (simp add: inlining_def demo_env_def)
  have "add_alloca (inlining False demo_env) [demo_check_fn] demo_state 2 ([], demo_util) =
      Some ([RecordBefore 3 2 [CallDirectUpdate 0 0 0]], demo_util)"
    using demo_update[of False]
    by (simp add: add_alloca_def demo_found demo_slots_of demo_type_size array_length_def demo_state_def demo_slots_def)
  moreover have "delete_alloca (inlining False demo_env) demo_dominates [demo_check_fn] demo_state (2, ''f'')
      ([RecordBefore 3 2 [CallDirectUpdate 0 0 0]], demo_util) = Some (demo_effects, demo_util)"
    using demo_remove[of False]
    by (simp add: delete_alloca_def remove_at_def emitRemoveInst_def demo_found demo_slots_of demo_type_size
        array_length_def demo_state_def demo_slots_def)
  ultimately show ?thesis
    unfolding stackObjTracing_def layout demo_collect
    by (simp add: handleAllocaAdd_def handleAllocaDelete_def demo_state_def)
qed

lemma inserted_code_balanced_witness:
  "\<exists>s t. exec_code linux_os (\<lambda>_. 4096) 8 1 [CallDirectUpdate 0 0 0] boot_state = Some (Inr s) \<and>
     exec_code linux_os (\<lambda>_. 4096) 8 1 [CallDirectErase 0] s = Some (Inr t)"
proof -
  obtain s where s: "exec_code linux_os (\<lambda>_. 4096) 8 1 [CallDirectUpdate 0 0 0] boot_state = Some (Inr s)"
    using demo_run by blast
  from inserted_code_balanced[OF linux_os_ok boot_reachable demo_stack _ _ demo_found(1) s, of 3 5 "[CallDirectErase 0]"]
  show ?thesis using s by auto
qed

lemma traced_variables_handled_witness:
  "\<exists>code X Y. ForgetBefore 5 2 code \<in> set demo_effects \<and>
     emitRemoveInst (inlining False demo_env) ''bitype'' demo_B (ConstInt 1) X = Some (code, Y)"
proof -
  let ?M = "inlining False demo_env"
  have v: "inst_op demo_variable = Alloca demo_B (ConstInt 1) 8" by simp
  have "(\<exists>p code X Y. findNextInstruction demo_check_fn (inst_id demo_variable) = Some p \<and>
      RecordBefore p (inst_id demo_variable) code \<in> set demo_effects \<and>
      insertUpdate ?M ''bitype'' STACKALLOC (slots_of ?M demo_B) (type_size ?M demo_B) (array_length (ConstInt 1)) X = Some (code, Y)) \<and>
    ((\<forall>r\<in>set (return_insts demo_check_fn). demo_dominates (fun_name demo_check_fn) (inst_id demo_variable) r \<longrightarrow>
        \<not> returns_alloca demo_check_fn (inst_id demo_variable) r) \<longrightarrow>
     (\<forall>r\<in>set (return_insts demo_check_fn). demo_dominates (fun_name demo_check_fn) (inst_id demo_variable) r \<longrightarrow>
      (\<exists>code X Y. ForgetBefore r (inst_id demo_variable) code \<in> set demo_effects \<and>
         emitRemoveInst ?M ''bitype'' demo_B (ConstInt 1) X = Some (code, Y))))"
  proof (rule traced_variables_handled[OF demo_stack _ _ _ _ _ _ _ v])
    show "slots_of (inlining False demo_env) demo_B \<noteq> []" unfolding demo_slots_of by (simp add: demo_slots_def)
    show "traced (demo_flags False) demo_check_fn demo_variable" by (simp add: traced_def demo_found(4))
  qed (simp_all add: apart_def demo_check_fn_def lifetime_call_def isInterestingFn_def startswith_def)
  moreover have "\<not> returns_alloca demo_check_fn 2 5" using demo_found(3) by simp
  ultimately show ?thesis unfolding demo_found(5) by (auto simp: demo_check_fn_def)
qed

end
