(* ===== verification/ClangCast.thy ===== *)
theory ClangCast
  imports ClassGraph CodeFiles Runtime
begin

text \<open>
  What Clang's code generator emits for the sanitizer: the check of a down-cast (\<open>CGExpr.cpp\<close> for references,
  \<open>CGExprScalar.cpp\<close> for pointers), the substitute of \<open>dynamic_cast\<close> (\<open>ItaniumCXXABI.cpp\<close>), the marks of a placement
  \<open>new\<close> (\<open>CGExprCXX.cpp\<close>) and of a \<open>reinterpret_cast\<close> (\<open>CGExprScalar.cpp\<close>, \<open>CGClass.cpp\<close>), the tables it reads
  (\<open>CodeGenModule.cpp\<close>) and the names it gives to the types of classes (\<open>CodeGenTypes.cpp\<close>). The syntax tree is
  an input: a class is an \<open>rd_info\<close>, \<open>None\<close> where a type is no record type, and a location is the file and line
  of a valid presumed location.
\<close>

unbundle bit_operations_syntax

section \<open>The tables and options\<close>

record sanitizer_maps =
  SanitizerRS :: "(string, u32) smap"
  SanitizerIndex :: "(string, nat) smap"
  SanitizerDebug :: "(string, u32) smap"

text \<open>The constructor of the module state; an exception of \<open>stoi\<close> is the left of the sum.\<close>

definition read_sanitizer_maps :: "string \<Rightarrow> string \<Rightarrow> string \<Rightarrow> stoi_error + sanitizer_maps" where
  "read_sanitizer_maps CodeMapPath CastRelatedPath DebugPath =
     bindR (createCodeMap CodeMapPath) (\<lambda>rs.
       bindR (getDebugInfo DebugPath) (\<lambda>debug.
         Inr \<lparr>SanitizerRS = rs, SanitizerIndex = getClassIndex CastRelatedPath, SanitizerDebug = debug\<rparr>))"

record clang_options =
  SanOptsBitype :: bool
  CPlusPlus :: bool
  ClBitypeDynamicCast :: bool
  ClHandlePlacementNew :: bool
  ClHandleReinterpretCast :: bool

section \<open>Checks of casts\<close>

text \<open>The two addresses of a cast: of the operand and of the result.\<close>

datatype cast_addr = SourceAddr | DerivedAddr

record check_call =
  FunName :: string
  Address1 :: cast_addr
  Address :: cast_addr
  byteIndex :: u32
  safeCode :: u8
  debugIndex :: int

definition BitypeEmitCheck ::
  "bool \<Rightarrow> string \<Rightarrow> cast_addr \<Rightarrow> cast_addr \<Rightarrow> u32 \<Rightarrow> u8 \<Rightarrow> int \<Rightarrow> check_call list" where
  "BitypeEmitCheck blacklisted Name A1 A index code debug =
     (if blacklisted then []
      else [\<lparr>FunName = Name, Address1 = A1, Address = A, byteIndex = index, safeCode = code, debugIndex = debug\<rparr>])"

text \<open>The byte of a code number in an array and its bit in the byte; \<open>1 << byteOffset\<close> fits its byte.\<close>

definition class_bit :: "u32 \<Rightarrow> u32 \<times> u8" where
  "class_bit code =
     (let codeN = code - 1; byteOffset = codeN mod 8 in (codeN div 8, push_bit (unat byteOffset) 1))"

definition location_index :: "sanitizer_maps \<Rightarrow> (string \<times> nat) option \<Rightarrow> int" where
  "location_index m PLoc =
     (case PLoc of
        None \<Rightarrow> -1
      | Some (filename, line) \<Rightarrow>
          (case map_find (SanitizerDebug m) (filename @ '':'' @ digits_of line) of
             None \<Rightarrow> -1 | Some d \<Rightarrow> sint d))"

abbreviation complete_class :: "rd_info \<Rightarrow> bool" where
  "complete_class d \<equiv> rd_complete d \<and> rd_has_definition d \<and> \<not> rd_anonymous d"

text \<open>A cast to a derived class: its class, whether the classes have different addresses, where it stands.\<close>

record downcast =
  dest_class :: "rd_info option"
  has_offset :: bool
  cast_loc :: "(string \<times> nat) option"

definition emit_class_check :: "bool \<Rightarrow> sanitizer_maps \<Rightarrow> downcast \<Rightarrow> u32 \<Rightarrow> check_call list" where
  "emit_class_check blacklisted m E code =
     (let (byteIndex, safeCode) = class_bit code
      in BitypeEmitCheck blacklisted ''__bitype_cast_verification'' SourceAddr
           (if has_offset E then DerivedAddr else SourceAddr) byteIndex safeCode (location_index m (cast_loc E)))"

definition emit_reference_cast :: "clang_options \<Rightarrow> bool \<Rightarrow> sanitizer_maps \<Rightarrow> downcast \<Rightarrow> check_call list" where
  "emit_reference_cast opts blacklisted m E =
     (if \<not> SanOptsBitype opts then []
      else case dest_class E of
          None \<Rightarrow> []
        | Some DeClassDecl \<Rightarrow>
            if complete_class DeClassDecl
            then (case map_find (SanitizerRS m) (rd_name DeClassDecl) of
                    None \<Rightarrow> [] | Some code \<Rightarrow> emit_class_check blacklisted m E code)
            else [])"

text \<open>
  The emission for pointers asserts that the class has a code; without assertions it emits nothing then.
\<close>

datatype clang_error = AssertionFailed | EndDereferenced

definition emit_pointer_cast ::
  "bool \<Rightarrow> clang_options \<Rightarrow> bool \<Rightarrow> sanitizer_maps \<Rightarrow> downcast \<Rightarrow> clang_error + check_call list" where
  "emit_pointer_cast asserts opts blacklisted m E =
     (if \<not> SanOptsBitype opts then Inr []
      else case dest_class E of
          None \<Rightarrow> Inr []
        | Some DeClassDecl \<Rightarrow>
            if complete_class DeClassDecl
            then (case map_find (SanitizerRS m) (rd_name DeClassDecl) of
                    None \<Rightarrow> if asserts then Inl AssertionFailed else Inr []
                  | Some code \<Rightarrow> Inr (emit_class_check blacklisted m E code))
            else Inr [])"

text \<open>
  \<open>dynamic_cast\<close>: kept, replaced by nothing (the operand is the result), or replaced by a call, which for a
  reference is followed by a branch to \<open>bad_cast\<close> when the result is null.
\<close>

datatype dynamic_code = KeepDynamicCast | UseOperand | CallDynamicVerification u32 u8 bool

definition emit_dynamic_cast ::
  "bool \<Rightarrow> clang_options \<Rightarrow> sanitizer_maps \<Rightarrow> bool \<Rightarrow> rd_info option \<Rightarrow> clang_error + dynamic_code" where
  "emit_dynamic_cast asserts opts m is_reference dest =
     (if ClBitypeDynamicCast opts \<and> SanOptsBitype opts
      then case dest of
          None \<Rightarrow> Inr UseOperand
        | Some ClassDecl \<Rightarrow>
            if \<not> complete_class ClassDecl then Inr UseOperand
            else (case map_find (SanitizerRS m) (rd_name ClassDecl) of
                    None \<Rightarrow> Inl (if asserts then AssertionFailed else EndDereferenced)
                  | Some code \<Rightarrow> let (IndexValue, OffsetValue) = class_bit code
                      in Inr (CallDynamicVerification IndexValue OffsetValue is_reference))
      else Inr KeepDynamicCast)"

section \<open>Marks of objects\<close>

text \<open>A call the passes replace: its name, the index of the class and the offset.\<close>

record mark_call =
  InstName :: string
  classIndex :: nat
  Offset :: nat

definition BitypeEmitObjTraceInst :: "sanitizer_maps \<Rightarrow> rd_info option \<Rightarrow> nat \<Rightarrow> string \<Rightarrow> mark_call list" where
  "BitypeEmitObjTraceInst m ClassDecl offsetInt Name =
     (case ClassDecl of
        None \<Rightarrow> []
      | Some D \<Rightarrow>
          if \<not> complete_class D then []
          else case map_find (SanitizerIndex m) (rd_name D) of
              None \<Rightarrow> [] | Some i \<Rightarrow> [\<lparr>InstName = Name, classIndex = i, Offset = offsetInt\<rparr>])"

definition EmitBitypeReinterpretCast :: "clang_options \<Rightarrow> sanitizer_maps \<Rightarrow> rd_info option \<Rightarrow> mark_call list" where
  "EmitBitypeReinterpretCast opts m T =
     (if \<not> CPlusPlus opts then [] else BitypeEmitObjTraceInst m T 0 ''__reinterpret_casting_handle'')"

text \<open>The hook of a bit cast: \<open>pointee\<close> is \<open>None\<close> where the destination is no pointer.\<close>

definition emit_bit_cast :: "clang_options \<Rightarrow> sanitizer_maps \<Rightarrow> bool \<Rightarrow> rd_info option option \<Rightarrow> mark_call list" where
  "emit_bit_cast opts m is_reinterpret pointee =
     (if ClHandleReinterpretCast opts \<and> SanOptsBitype opts \<and> is_reinterpret
      then case pointee of None \<Rightarrow> [] | Some T \<Rightarrow> EmitBitypeReinterpretCast opts m T
      else [])"

definition emit_new :: "clang_options \<Rightarrow> sanitizer_maps \<Rightarrow> nat \<Rightarrow> rd_info option \<Rightarrow> mark_call list" where
  "emit_new opts m NumPlacementArgs allocType =
     (if ClHandlePlacementNew opts \<and> SanOptsBitype opts \<and> NumPlacementArgs \<ge> 1
      then BitypeEmitObjTraceInst m allocType 0 ''__placement_new_handle'' else [])"

section \<open>Names of types\<close>

text \<open>
  The name of the structure type of a record. Printing of names and the blacklist belong to Clang and are
  inputs: the kind (\<open>class\<close>, \<open>struct\<close>, \<open>union\<close>), the plain and the qualified name.
\<close>

record record_decl =
  has_identifier :: bool
  has_context :: bool
  is_cxx :: bool
  is_blacklisted :: bool
  getKindName :: string
  plain_name :: string
  QualifiedName :: string
  typedef_for_anon :: "(bool \<times> string \<times> string) option"

definition addRecordTypeName :: "record_decl \<Rightarrow> string \<Rightarrow> string" where
  "addRecordTypeName RD sfx =
     (if has_identifier RD
      then if has_context RD
           then if is_cxx RD
                then (if is_blacklisted RD then ''blacklistedtype'' else ''trackedtype'') @ ''.'' @ QualifiedName RD
                else getKindName RD @ ''.'' @ QualifiedName RD
           else getKindName RD @ ''.'' @ plain_name RD
      else case typedef_for_anon RD of
          Some (ctx, plain, qual) \<Rightarrow> getKindName RD @ ''.'' @ (if ctx then qual else plain)
        | None \<Rightarrow> getKindName RD @ ''.'' @ ''anon'') @ sfx"

end
