(* ===== verification/SafeProps.thy ===== *)
theory SafeProps
  imports SafeCode
begin

text \<open>
  What the safe-cast arrays hold: the members of the set of a class, and where the array of a class ends up
  among the global variables of the module.
\<close>

section \<open>Members of a safe set\<close>

definition code_of :: "code_maps \<Rightarrow> string \<Rightarrow> int set" where
  "code_of u n = {c. map_find (bitypeCodeMap u) n = Some c}"

definition related_codes :: "code_maps \<Rightarrow> string \<Rightarrow> int set" where
  "related_codes u n = {c. \<exists>f. related_code u n = Some (c, f)}"

definition inherited_codes :: "code_maps \<Rightarrow> string \<Rightarrow> int set" where
  "inherited_codes u n =
     (case map_find (BitypeInheritanceSet u) n of None \<Rightarrow> {} | Some ps \<Rightarrow> \<Union> (related_codes u ` set ps))"

lemma set_add_inherited: "set (add_inherited u n S) = set S \<union> inherited_codes u n"
proof -
  let ?f = "\<lambda>m S. case related_code u m of None \<Rightarrow> S | Some (c, _) \<Rightarrow> set_insert c S"
  have f: "set (?f m S) = set S \<union> related_codes u m" for m S
    by (auto simp: related_codes_def split: option.split)
  have "set (fold ?f ps S) = set S \<union> \<Union> (related_codes u ` set ps)" for ps
  proof (induction ps arbitrary: S)
    case (Cons m ps)
    show ?case unfolding fold_simps Cons.IH f by auto
  qed simp
  then show ?thesis by (auto simp: add_inherited_def inherited_codes_def split: option.split)
qed

lemma set_add_zero:
  "set (fst (add_zero u s safe)) = set (fst safe) \<union> related_codes u (class_name s) \<union> inherited_codes u (class_name s)"
  by (cases safe) (auto simp: add_zero_def set_add_inherited related_codes_def Let_def split: option.split)

lemma set_add_parent: "set (fst (add_parent u d safe)) = set (fst safe) \<union> code_of u (TypeName d)"
  by (cases safe) (auto simp: add_parent_def code_of_def split: option.split)

lemma fold_codes:
  assumes "\<And>x safe. set (fst (f x safe)) = set (fst safe) \<union> C x"
  shows "set (fst (fold f xs safe)) = set (fst safe) \<union> \<Union> (C ` set xs)"
proof (induction xs arbitrary: safe)
  case (Cons x xs)
  show ?case unfolding fold_simps Cons.IH assms by auto
qed simp

text \<open>The names of the types that extend the set of a class: its entry in the table of types.\<close>

definition relatives :: "TypeInfo list \<Rightarrow> string \<Rightarrow> TypeDetailInfo list" where
  "relatives infos n =
     (case find (\<lambda>I. TypeName (DetailInfo I) = n) infos of None \<Rightarrow> [] | Some I \<Rightarrow> AllParents I @ AllPhantomTypes I)"

lemma extendSafeNum_relatives: "extendSafeNum u infos n safe = fold (add_parent u) (relatives infos n) safe"
  by (simp add: extendSafeNum_def relatives_def split: option.split)

definition safe_codes :: "data_layout \<Rightarrow> code_maps \<Rightarrow> TypeInfo list \<Rightarrow> ir_struct \<Rightarrow> int set" where
  "safe_codes dl u infos ST = code_of u (class_name ST) \<union>
     (\<Union>(_, s)\<in>set (getOffetZeroStruct dl (fst ST) (snd ST) []).
        related_codes u (class_name s) \<union> inherited_codes u (class_name s)) \<union>
     (\<Union>d\<in>set (relatives infos (class_name ST)). code_of u (TypeName d))"

lemma set_class_safe_set: "set (fst (class_safe_set dl u infos ST family)) = safe_codes dl u infos ST"
proof -
  have z: "set (fst (fold (\<lambda>(i, s). add_zero u s) zs safe)) = set (fst safe) \<union>
      (\<Union>(i, s)\<in>set zs. related_codes u (class_name s) \<union> inherited_codes u (class_name s))" for zs safe
    using fold_codes[of "\<lambda>(i, s). add_zero u s" "\<lambda>(i, s). related_codes u (class_name s) \<union> inherited_codes u (class_name s)"]
    by (simp add: set_add_zero Un_assoc case_prod_beta)
  have o: "set (case map_find (bitypeCodeMap u) n of None \<Rightarrow> [] | Some code \<Rightarrow> set_insert code []) = code_of u n" for n
    by (auto simp: code_of_def split: option.split)
  show ?thesis
    unfolding class_safe_set_def Let_def extendSafeNum_relatives fold_codes[OF set_add_parent] z fst_conv o safe_codes_def
    by (rule refl)
qed

lemma fold_ok:
  assumes "\<And>x safe. sset_ok (fst safe) \<Longrightarrow> sset_ok (fst (f x safe))" "sset_ok (fst safe)"
  shows "sset_ok (fst (fold f xs safe))"
  using assms(2) by (induction xs arbitrary: safe) (simp_all add: assms(1))

lemma add_inherited_ok: "sset_ok S \<Longrightarrow> sset_ok (add_inherited u n S)"
proof -
  let ?f = "\<lambda>m S. case related_code u m of None \<Rightarrow> S | Some (c, _) \<Rightarrow> set_insert c S"
  have "sset_ok (fold ?f ps S)" if "sset_ok S" for ps S
    using that by (induction ps arbitrary: S) (simp_all split: option.split)
  then show "sset_ok S \<Longrightarrow> sset_ok (add_inherited u n S)" by (simp add: add_inherited_def split: option.split)
qed

lemma class_safe_set_ok: "sset_ok (fst (class_safe_set dl u infos ST family))"
  unfolding class_safe_set_def Let_def extendSafeNum_relatives
  by (intro fold_ok)
    (auto simp: add_parent_def add_zero_def Let_def intro!: add_inherited_ok split: option.split)

section \<open>The arrays of the classes\<close>

definition class_entry :: "code_maps \<Rightarrow> ir_struct \<Rightarrow> (int \<times> nat) option" where
  "class_entry u ST =
     (if own_type ST
      then case (map_find (bitypeCastRelatedClass u) (class_name ST), map_find (bitypeClassIndexSet2 u) (class_name ST)) of
        (Some f, Some i) \<Rightarrow> Some (f, i) | _ \<Rightarrow> None
      else None)"

lemma class_round_entry:
  "class_round dl u P m ST U =
     (case class_entry u ST of
        None \<Rightarrow> U\<lparr>classStructSet := classStructSet (class_round dl u P m ST U)\<rparr>
      | Some (f, i) \<Rightarrow>
          U\<lparr>classStructSet := classStructSet (class_round dl u P m ST U),
            moduleGlobals := moduleGlobals U @
              [(getGlobalName P m (class_name ST), class_array i (class_safe_set dl u (AllTypeInfo U) ST f))],
            GlobalVariableMap := map_insert (class_name ST) (length (moduleGlobals U)) (GlobalVariableMap U)\<rparr>)"
  by (auto simp: class_round_def class_entry_def new_global_def Let_def split: option.split)

lemma class_round_infos [simp]: "AllTypeInfo (class_round dl u P m ST U) = AllTypeInfo U"
  by (auto simp: class_round_def new_global_def Let_def split: option.split)

text \<open>The variable of a name is one of the module's, and keeps its array.\<close>

definition array_of :: "bitype_util \<Rightarrow> string \<Rightarrow> 8 word list option" where
  "array_of U n = (case map_find (GlobalVariableMap U) n of
     None \<Rightarrow> None | Some g \<Rightarrow> if g < length (moduleGlobals U) then Some (snd (moduleGlobals U ! g)) else None)"

definition vars_ok :: "bitype_util \<Rightarrow> bool" where
  "vars_ok U \<longleftrightarrow> (\<forall>n g. map_find (GlobalVariableMap U) n = Some g \<longrightarrow> g < length (moduleGlobals U))"

lemma class_round_array:
  assumes "vars_ok U"
  shows "vars_ok (class_round dl u P m ST U) \<and>
    array_of (class_round dl u P m ST U) n = (case array_of U n of
       Some a \<Rightarrow> Some a
     | None \<Rightarrow> (case class_entry u ST of
          Some (f, i) \<Rightarrow> if class_name ST = n then Some (class_array i (class_safe_set dl u (AllTypeInfo U) ST f)) else None
        | None \<Rightarrow> None))"
proof (cases "class_entry u ST")
  case None
  have "GlobalVariableMap (class_round dl u P m ST U) = GlobalVariableMap U"
    "moduleGlobals (class_round dl u P m ST U) = moduleGlobals U"
    by (subst class_round_entry, simp add: None)+
  then show ?thesis using assms None by (simp add: vars_ok_def array_of_def split: option.split)
next
  case (Some r)
  obtain f i where r: "r = (f, i)" by force
  have e: "GlobalVariableMap (class_round dl u P m ST U) =
      map_insert (class_name ST) (length (moduleGlobals U)) (GlobalVariableMap U)"
    "moduleGlobals (class_round dl u P m ST U) = moduleGlobals U @
       [(getGlobalName P m (class_name ST), class_array i (class_safe_set dl u (AllTypeInfo U) ST f))]"
    by (subst class_round_entry, simp add: Some r)+
  have lt: "g < length (moduleGlobals U)" if "map_find (GlobalVariableMap U) x = Some g" for x g
    using assms that by (simp add: vars_ok_def)
  show ?thesis
  proof (cases "map_find (GlobalVariableMap U) (class_name ST)")
    case None
    then have m: "map_of (map_insert (class_name ST) (length (moduleGlobals U)) (GlobalVariableMap U)) =
        (map_of (GlobalVariableMap U))(class_name ST \<mapsto> length (moduleGlobals U))"
      by (simp add: map_of_map_insert)
    show ?thesis
      unfolding vars_ok_def array_of_def e m Some r using None lt
      by (auto simp: nth_append less_Suc_eq split: option.split)
  next
    case 2: (Some g)
    show ?thesis
      unfolding vars_ok_def array_of_def e map_insert_Some[OF 2] Some r using 2 lt
      by (auto simp: nth_append less_Suc_eq split: option.split)
  qed
qed

text \<open>The first type of a name that has a family and an index gives the array of the name.\<close>

definition array_type :: "code_maps \<Rightarrow> string \<Rightarrow> ir_struct list \<Rightarrow> ir_struct option" where
  "array_type u n Types = find (\<lambda>ST. class_name ST = n \<and> class_entry u ST \<noteq> None) Types"

lemma rounds_array:
  assumes "vars_ok U"
  shows "vars_ok (fold (class_round dl u P m) Types U) \<and>
    array_of (fold (class_round dl u P m) Types U) n = (case array_of U n of
       Some a \<Rightarrow> Some a
     | None \<Rightarrow> map_option (\<lambda>ST. case the (class_entry u ST) of (f, i) \<Rightarrow>
         class_array i (class_safe_set dl u (AllTypeInfo U) ST f)) (array_type u n Types))"
  using assms
proof (induction Types arbitrary: U)
  case Nil
  then show ?case by (simp add: array_type_def split: option.split)
next
  case (Cons ST Types)
  note r = class_round_array[OF Cons.prems, where dl = dl and u = u and P = P and m = m and ST = ST]
  have IH: "vars_ok (fold (class_round dl u P m) Types (class_round dl u P m ST U))" "array_of (fold (class_round dl u P m) Types (class_round dl u P m ST U)) n =
      (case array_of (class_round dl u P m ST U) n of
       Some a \<Rightarrow> Some a
     | None \<Rightarrow> map_option (\<lambda>ST. case the (class_entry u ST) of (f, i) \<Rightarrow>
         class_array i (class_safe_set dl u (AllTypeInfo U) ST f)) (array_type u n Types))"
    using Cons.IH[of "class_round dl u P m ST U"] r unfolding class_round_infos by simp_all
  show ?case
    using IH r[of n] by (auto simp: array_type_def split: option.splits)
qed

definition module_infos :: "data_layout \<Rightarrow> ir_struct list \<Rightarrow> TypeInfo list" where
  "module_infos dl Types = (let infos = getDirectTypeInfo Types [] in
     if length infos > 0 then extendTypeRelationInfo dl infos else infos)"

definition fresh_util :: bitype_util where
  "fresh_util = \<lparr>AllTypeInfo = [], classStructSet = [], GlobalVariableMap = [], moduleGlobals = []\<rparr>"

lemma module_array:
  assumes "array_type u n Types = Some ST" "class_entry u ST = Some (f, i)"
  shows "array_of (getAllClassSafeCast dl u P m Types fresh_util) n =
    Some (class_array i (class_safe_set dl u (module_infos dl Types) ST f))"
proof -
  let ?U = "fresh_util\<lparr>AllTypeInfo := module_infos dl Types\<rparr>"
  have "vars_ok ?U" "array_of ?U n = None" by (simp_all add: vars_ok_def array_of_def fresh_util_def)
  moreover have "getAllClassSafeCast dl u P m Types fresh_util = fold (class_round dl u P m) Types ?U"
    by (simp add: getAllClassSafeCast_def module_infos_def Let_def) (simp add: fresh_util_def)
  ultimately show ?thesis
    using rounds_array[of ?U dl u P m Types n] assms by simp
qed

lemma class_array_holds:
  assumes "array_type u n Types = Some ST" "class_entry u ST = Some (f, i)"
    "\<forall>c\<in>safe_codes dl u (module_infos dl Types) ST. 1 \<le> c"
  shows "\<exists>bytes fam. array_of (getAllClassSafeCast dl u P m Types fresh_util) n =
      Some (of_nat (i mod 256) # of_nat (i div 256 mod 256) # bytes) \<and> f \<le> fam \<and> length bytes = array_size fam \<and>
      (\<forall>k<length bytes. \<forall>b<8. bit (bytes ! k) b \<longleftrightarrow> int (8 * k + b) + 1 \<in> safe_codes dl u (module_infos dl Types) ST)"
proof -
  let ?safe = "class_safe_set dl u (module_infos dl Types) ST f"
  obtain N F where s: "?safe = (N, F)" by force
  have N: "sset_ok N" "set N = safe_codes dl u (module_infos dl Types) ST"
    using class_safe_set_ok[of dl u "module_infos dl Types" ST f] set_class_safe_set[of dl u "module_infos dl Types" ST f]
    by (simp_all add: s)
  have b: "length (coding_result N (array_size F)) = array_size F \<and>
      (\<forall>k<array_size F. \<forall>b<8. bit (coding_result N (array_size F) ! k) b \<longleftrightarrow> int (8 * k + b) + 1 \<in> set N)"
  proof (cases "N = []")
    case True
    then show ?thesis by (simp add: coding_result_def)
  next
    case False
    then show ?thesis
      using computeCode_bit[OF sset_ok_distinct[OF N(1)]] assms(3) N(2)
      by (simp add: coding_result_def computeCode_step)
  qed
  have grow: "f \<le> F"
  proof -
    have mono: "snd safe \<le> snd (fold g xs safe)" if "\<And>x safe. snd safe \<le> snd (g x safe)" for g :: "'z \<Rightarrow> safe_set \<Rightarrow> safe_set" and xs safe
    proof (induction xs arbitrary: safe)
      case (Cons x xs)
      from that[of safe x] Cons.IH[of "g x safe"] show ?case by (simp add: order_trans)
    qed simp
    have p: "snd safe \<le> snd (add_parent u d safe)" "snd safe \<le> snd (add_zero u z safe)" for d z safe
      by (cases safe; auto simp: add_parent_def add_zero_def Let_def split: option.split)+
    have z: "snd safe \<le> snd (fold (\<lambda>(_, z). add_zero u z) zs safe)" for zs and safe :: safe_set
      by (rule mono) (use p(2) in \<open>auto split: prod.split\<close>)
    have "f \<le> snd ?safe"
      unfolding class_safe_set_def Let_def extendSafeNum_relatives
      by (rule order_trans[OF _ order_trans[OF z mono[OF p(1)]]]) simp
    then show ?thesis by (simp add: s)
  qed
  show ?thesis
    using module_array[OF assms(1,2), of dl P m] b grow
    by (intro exI[of _ "coding_result N (array_size F)"] exI[of _ F]) (simp add: class_array_def s N(2))
qed

text \<open>
  C26: In a module whose tables give a class a family and an index, the array of the class starts with the index in
  two bytes, has a bit for every code number up to the family size the passes computed, and bit \<open>c - 1\<close> is set
  exactly if \<open>c\<close> is the code of the class, of a tracked and cast-related class that lies at offset 0 in it, of a class one
  of these inherits from, or of a class among its parents and phantom types.
\<close>

theorem class_array_bits:
  assumes "array_type u n Types = Some ST" "class_entry u ST = Some (f, i)"
    "\<forall>c\<in>safe_codes dl u (module_infos dl Types) ST. 1 \<le> c"
  shows "\<exists>bytes fam. array_of (getAllClassSafeCast dl u P m Types fresh_util) n =
      Some (of_nat (i mod 256) # of_nat (i div 256 mod 256) # bytes) \<and> f \<le> fam \<and> length bytes = array_size fam \<and>
      (\<forall>k<length bytes. \<forall>b<8. bit (bytes ! k) b \<longleftrightarrow> int (8 * k + b) + 1 \<in> safe_codes dl u (module_infos dl Types) ST)"
  by (rule class_array_holds[OF assms])

lemma related_code_code: "related_code u n = Some (c, f) \<Longrightarrow> map_find (bitypeCodeMap u) n = Some c"
  by (auto simp: related_code_def split: option.splits)

lemma safe_codes_codes: "c \<in> safe_codes dl u infos ST \<Longrightarrow> \<exists>n. map_find (bitypeCodeMap u) n = Some c"
  using related_code_code by (fastforce simp: safe_codes_def code_of_def related_codes_def inherited_codes_def
      split: option.splits)

definition demo_index_maps :: code_maps where
  "demo_index_maps = demo_maps\<lparr>bitypeClassIndexSet2 := [(''A'', 0), (''B'', 1)]\<rparr>"

lemma demo_array_type:
  "array_type demo_index_maps ''B'' demo_types = Some (tracked 3 ''B'', [IntegerTy 64])"
  "class_entry demo_index_maps (tracked 3 ''B'', [IntegerTy 64]) = Some (2, 1)"
  "class_name (tracked 3 ''B'', [IntegerTy 64]) = ''B''"
  by code_simp+

lemma class_array_bits_witness:
  "\<exists>bytes. array_of (getAllClassSafeCast demo_layout demo_index_maps ''bitype'' ''m'' demo_types fresh_util) ''B'' =
     Some (1 # 0 # bytes) \<and> bit (bytes ! 0) 1"
proof -
  have "1 \<le> c" if "c \<in> safe_codes demo_layout demo_index_maps (module_infos demo_layout demo_types) (tracked 3 ''B'', [IntegerTy 64])" for c
    using safe_codes_codes[OF that] by (auto simp: demo_index_maps_def demo_maps_def split: if_splits)
  then obtain bytes fam where b: "array_of (getAllClassSafeCast demo_layout demo_index_maps ''bitype'' ''m'' demo_types fresh_util) ''B'' =
      Some (of_nat (1 mod 256) # of_nat (1 div 256 mod 256) # bytes)"
    "2 \<le> fam" "length bytes = array_size fam"
    "\<forall>k<length bytes. \<forall>b<8. bit (bytes ! k) b \<longleftrightarrow> int (8 * k + b) + 1 \<in>
       safe_codes demo_layout demo_index_maps (module_infos demo_layout demo_types) (tracked 3 ''B'', [IntegerTy 64])"
    using class_array_bits[OF demo_array_type(1,2), of demo_layout "''bitype''" "''m''"] by blast
  have "0 < length bytes"
  proof (cases "fam smod 8 = 0")
    case True
    then have "8 \<le> fam" using b(2) by (auto simp: signed_modulo_int_def sgn_if split: if_splits)
    then show ?thesis using True by (auto simp: b(3) array_size_def signed_divide_int_def sgn_if)
  next
    case False
    then show ?thesis using b(2) by (auto simp: b(3) array_size_def signed_divide_int_def sgn_if)
  qed
  moreover have "2 \<in> safe_codes demo_layout demo_index_maps (module_infos demo_layout demo_types) (tracked 3 ''B'', [IntegerTy 64])"
    by (simp add: safe_codes_def demo_array_type(3) code_of_def) (simp add: demo_index_maps_def demo_maps_def)
  ultimately have "bit (bytes ! 0) 1" using b(4) by fastforce
  with b(1) show ?thesis by simp
qed

end
