(* ===== verification/HeapRecord.thy ===== *)
theory HeapRecord
  imports HeapPass TraceRecord
begin

text \<open>
  A heap block from its allocation to its release: the code inserted after the allocation, run on the block, and the
  code inserted after the release of it.
\<close>

unbundle bit_operations_syntax

section \<open>The slots of a block\<close>

definition heap_slots :: "addr \<Rightarrow> struct_slots \<Rightarrow> u32 \<Rightarrow> u32 \<Rightarrow> addr set" where
  "heap_slots p E ts N =
     {a. \<exists>k S. (k, S) \<in> set E \<and> S \<noteq> [] \<and> a \<in> set (elem_addrs (p + ucast (entry_offset ts 0 k)) ts (unat N))}"

lemma heap_slots_Cons:
  "heap_slots p ((k, S) # E) ts N =
     (if S = [] then {} else set (elem_addrs (p + ucast (entry_offset ts 0 k)) ts (unat N))) \<union> heap_slots p E ts N"
  by (auto simp: heap_slots_def)

lemma exec_code_append:
  "exec_code os at p n (xs @ ys) s =
     (case exec_code os at p n xs s of Some (Inr t) \<Rightarrow> exec_code os at p n ys t | r \<Rightarrow> r)"
  by (induction xs arbitrary: s) (auto split: option.split sum.split)

lemma exec_count:
  assumes "exec_code os at p n (count_code flags ty l) s = Some (Inr s')"
  shows "(rt_inv os s \<longrightarrow> rt_inv os s') \<and> ref_of s' b = ref_of s b \<and> meta_of s' b = meta_of s b"
  using assms by (cases ty) (auto simp: count_code_def IncVal_def split: if_splits)

section \<open>Recording\<close>

lemma record_entry:
  assumes "os_ok os" "rt_inv os s" "p \<noteq> 0" "N = ucast (len_value n l)"
    "exec_code os at p n (add_var_code flags l ts 0 ty k g) s = Some (Inr s')"
  shows "rt_inv os s'" "so_size (meta_of s' p) = N"
    "ref_of s' b = (if \<exists>a\<in>set (elem_addrs (p + ucast (entry_offset ts 0 k)) ts (unat N)). same_slot a b
       then at g else ref_of s b)"
proof -
  let ?a = "p + ucast (entry_offset ts 0 k)"
  from assms(5) obtain t where t: "bitype_updateObjTrace os ?a (at g) ts N (of_nat k * 8) s = Inr t"
    and "exec_code os at p n (CallUpdateArraySize l # count_code flags ty l) t = Some (Inr s')"
    by (auto simp: assms(4) split: sum.splits)
  then obtain u where u: "bitype_update_arraySize os p N t = Inr u"
    and c: "exec_code os at p n (count_code flags ty l) u = Some (Inr s')"
    by (auto simp: assms(4) split: sum.splits)
  note T = updateObjTrace_spec[OF assms(1,2) t] and S = update_arraySize_spec[OF assms(1) updateObjTrace_spec(1)[OF assms(1,2) t] u]
  show "rt_inv os s'" using exec_count[OF c] S(1) by blast
  show "so_size (meta_of s' p) = N" using exec_count[OF c, of p] S(3)[of p] assms(3) by simp
  show "ref_of s' b = (if \<exists>a\<in>set (elem_addrs ?a ts (unat N)). same_slot a b then at g else ref_of s b)"
    using exec_count[OF c, of b] S(2)[of b] T(2)[of b] by simp
qed

lemma record_block:
  assumes "os_ok os" "p \<noteq> 0" "N = ucast (len_value n l)"
    "emitInstForObjTrace M Prefix E VLAOBJADD l ts 0 ty U = Some (code, V)" "rt_inv os s"
    "exec_code os at p n code s = Some (Inr s')"
  shows "rt_inv os s' \<and> ((\<exists>(k, S)\<in>set E. S \<noteq> []) \<or> so_size (meta_of s p) = N \<longrightarrow> so_size (meta_of s' p) = N) \<and>
    (\<forall>b. \<not> (\<exists>a\<in>heap_slots p E ts N. same_slot a b) \<longrightarrow> ref_of s' b = ref_of s b)"
  using assms(4-6)
proof (induction E arbitrary: code U s)
  case (Cons y E)
  obtain k S where y: "y = (k, S)" by force
  show ?case
  proof (cases "S = []")
    case True
    with Cons.prems(1) have "emitInstForObjTrace M Prefix E VLAOBJADD l ts 0 ty U = Some (code, V)" by (simp add: y)
    from Cons.IH[OF this Cons.prems(2,3)] True show ?thesis by (auto simp: y heap_slots_Cons)
  next
    case False
    with Cons.prems(1) obtain r W where g: "global_for M Prefix S U = Some (r, W)"
      by (auto simp: y Let_def split: option.splits)
    from global_for_var(1)[OF g False] obtain x where x: "r = Some x" by blast
    from Cons.prems(1) False g x obtain c where c: "emitInstForObjTrace M Prefix E VLAOBJADD l ts 0 ty W = Some (c, V)"
      and code: "code = add_var_code (opts M) l ts 0 ty k x @ c"
      by (auto simp: y Let_def)
    from Cons.prems(3) obtain t where t: "exec_code os at p n (add_var_code (opts M) l ts 0 ty k x) s = Some (Inr t)"
      "exec_code os at p n c t = Some (Inr s')"
      unfolding code exec_code_append by (auto split: option.splits sum.splits)
    note e = record_entry[OF assms(1) Cons.prems(2) assms(2,3) t(1)]
    from Cons.IH[OF c e(1) t(2)] e(2,3) False show ?thesis by (auto simp: y heap_slots_Cons)
  qed
qed (simp add: heap_slots_def)

text \<open>An object of the block keeps its slot when no other entry has it.\<close>

lemma record_entries:
  fixes N :: u32
  assumes "os_ok os" "p \<noteq> 0" "N = ucast (len_value n l)"
    "emitInstForObjTrace M Prefix E VLAOBJADD l ts 0 ty U = Some (code, V)" "rt_inv os s"
    "exec_code os at p n code s = Some (Inr s')" "(k, S) \<in> set E" "S \<noteq> []"
    "a \<in> set (elem_addrs (p + ucast (entry_offset ts 0 k)) ts (unat N))" "distinct (map fst E)"
    "\<And>m b. m \<in> fst ` set E \<Longrightarrow> m \<noteq> k \<Longrightarrow> b \<in> set (elem_addrs (p + ucast (entry_offset ts 0 m)) ts (unat N)) \<Longrightarrow> \<not> same_slot b a"
  shows "\<exists>g. var_of V S = Some g \<and> ref_of s' a = at g"
  using assms(4-8,10,11)
proof (induction E arbitrary: code U s)
  case (Cons y E)
  obtain m T where y: "y = (m, T)" by force
  note d = Cons.prems(6) and apart = Cons.prems(7)
  show ?case
  proof (cases "T = []")
    case True
    with Cons.prems(1,4,5) have "emitInstForObjTrace M Prefix E VLAOBJADD l ts 0 ty U = Some (code, V)" "(k, S) \<in> set E"
      by (auto simp: y)
    note IH = Cons.IH[OF this(1) Cons.prems(2,3) this(2) Cons.prems(5)]
    show ?thesis
    proof (rule IH)
      show "distinct (map fst E)" using d by (simp add: y)
    qed (rule apart; simp add: y)
  next
    case False
    with Cons.prems(1) obtain r W where g: "global_for M Prefix T U = Some (r, W)"
      by (auto simp: y Let_def split: option.splits)
    from global_for_var(1)[OF g False] obtain x where x: "r = Some x" "var_of W T = Some x" by blast
    from Cons.prems(1) False g x obtain c where c: "emitInstForObjTrace M Prefix E VLAOBJADD l ts 0 ty W = Some (c, V)"
      and code: "code = add_var_code (opts M) l ts 0 ty m x @ c"
      by (auto simp: y Let_def)
    from Cons.prems(3) obtain t where t: "exec_code os at p n (add_var_code (opts M) l ts 0 ty m x) s = Some (Inr t)"
      "exec_code os at p n c t = Some (Inr s')"
      unfolding code exec_code_append by (auto split: option.splits sum.splits)
    note e = record_entry[OF assms(1) Cons.prems(2) assms(2,3) t(1)]
    show ?thesis
    proof (cases "m = k")
      case True
      with d Cons.prems(4) have S: "T = S" by (force simp: y)
      have rest: "\<not> (\<exists>b\<in>heap_slots p E ts N. same_slot b a)"
      proof
        assume "\<exists>b\<in>heap_slots p E ts N. same_slot b a"
        then obtain b q R where b: "same_slot b a" "(q, R) \<in> set E" "b \<in> set (elem_addrs (p + ucast (entry_offset ts 0 q)) ts (unat N))"
          by (auto simp: heap_slots_def)
        have "q \<in> fst ` set E" using b(2) by force
        moreover from this have "q \<noteq> k" using d True by (auto simp: y)
        ultimately show False using apart[OF _ _ b(3)] b(1) by (simp add: y)
      qed
      have "ref_of t a = at x" using e(3)[of a] assms(9) True same_slot_refl by auto
      moreover have "ref_of s' a = ref_of t a"
        using record_block[OF assms(1-3) c e(1) t(2)] rest by blast
      moreover have "vars_le W V" using emit_vars[OF c] by blast
      then have "var_of V S = Some x" using x(2) S by (auto simp: map_le_def dom_def)
      ultimately show ?thesis by simp
    next
      case False
      with Cons.prems(4) have "(k, S) \<in> set E" by (simp add: y)
      note IH = Cons.IH[OF c e(1) t(2) this Cons.prems(5)]
      show ?thesis
      proof (rule IH)
        show "distinct (map fst E)" using d by (simp add: y)
      qed (rule apart; simp add: y)
    qed
  qed
qed simp

text \<open>The addresses the library computes for the elements of a block are those of the block.\<close>

lemma block_address:
  fixes ts :: u32 and p :: addr
  assumes "8 * k < unat ts" "i < N" "unat ts * N < 2 ^ 32"
  shows "p + ucast (entry_offset ts 0 k) + ucast (ts * of_nat i :: u32) = p + of_nat (unat ts * i + 8 * k)"
proof -
  have "unat ts * i + unat ts \<le> unat ts * N" using assms(2) mult_le_mono2[of "Suc i" N "unat ts"] by simp
  then have lt: "unat ts * i < 2 ^ 32" "8 * k < 2 ^ 32" using assms(1,3) by linarith+
  have u: "(ucast (of_nat x :: u32) :: u64) = of_nat x" if "x < 2 ^ 32" for x :: nat
    using that by (simp add: word_unat_eq_iff unsigned_ucast_eq unsigned_of_nat take_bit_nat_eq_self)
  have "ts * of_nat i = of_nat (unat ts * i)" by simp
  moreover have "entry_offset ts 0 k = of_nat (8 * k)" by (simp add: entry_offset_def)
  ultimately have "ucast (entry_offset ts 0 k) + ucast (ts * of_nat i :: u32) = (of_nat (8 * k) + of_nat (unat ts * i) :: u64)"
    by (simp only: u[OF lt(1)] u[OF lt(2)])
  then show ?thesis by (simp add: algebra_simps)
qed

lemma block_recorded:
  fixes N :: u32
  assumes "os_ok os" "rt_reachable os rodata s" "ty = HEAPALLOC \<or> ty = REALLOC" "N = ucast (len_value n l)"
    "insertUpdate M Prefix ty E ts l U = Some (code, V)" "exec_code os at p n code s = Some (Inr s')"
    "smap_ok E" "\<forall>k\<in>fst ` set E. 8 * k < unat ts" "8 dvd unat ts" "8 dvd unat p" "p \<noteq> 0"
    "unat ts * unat N < 2 ^ 32" "unat p + unat ts * unat N \<le> 2 ^ 48"
    "(k, S) \<in> set E" "S \<noteq> []" "i < unat N"
  shows "\<exists>g. var_of V S = Some g \<and> ref_of s' (p + of_nat (unat ts * i + 8 * k)) = at g"
proof -
  have inv: "rt_inv os s" using rt_reachable_inv[OF assms(1,2)] by blast
  have add: "emitInstForObjTrace M Prefix E VLAOBJADD l ts 0 ty U = Some (code, V)"
    using assms(3,5) by (auto simp: insertUpdate_def split: array_len.splits)
  have k: "8 * k < unat ts" using assms(8,14) by force
  have elems: "set (elem_addrs (p + ucast (entry_offset ts 0 m)) ts (unat N)) = (\<lambda>j. p + of_nat (unat ts * j + 8 * m)) ` {..<unat N}"
    if "8 * m < unat ts" for m
    using block_address[OF that _ assms(12), of _ p] by (force simp: elem_addrs_def)
  show ?thesis
  proof (rule record_entries[OF assms(1,11,4) add inv assms(6,14,15) _ smap_ok_distinct[OF assms(7)]])
    show "p + of_nat (unat ts * i + 8 * k) \<in> set (elem_addrs (p + ucast (entry_offset ts 0 k)) ts (unat N))"
      unfolding elems[OF k] using assms(16) by blast
  next
    fix m b assume m: "m \<in> fst ` set E" "m \<noteq> k" and b: "b \<in> set (elem_addrs (p + ucast (entry_offset ts 0 m)) ts (unat N))"
    from m(1) assms(8) have m8: "8 * m < unat ts" by blast
    from b[unfolded elems[OF m8]] obtain j where j: "j < unat N" "b = p + of_nat (unat ts * j + 8 * m)" by blast
    then show "\<not> same_slot b (p + of_nat (unat ts * i + 8 * k))"
      using slots_apart[OF k m8 assms(16) j(1) assms(9,10,12,13)] m(2) by blast
  qed
qed

section \<open>Forgetting\<close>

lemma erase_recorded:
  assumes "os_ok os" "rt_inv os s" "so_size (meta_of s p) = N" "N \<noteq> 0"
  shows "\<exists>t. bitype_eraseObj q p ts m HEAPALLOC s = Some t \<and> rt_inv os t \<and> meta_of t = meta_of s \<and>
    (\<forall>b. ref_of t b = (if \<exists>a\<in>set (elem_addrs q ts (unat N)). same_slot a b then 0 else ref_of s b))"
proof -
  let ?as = "elem_addrs q ts (unat N)"
  have tab: "has_table s p" by (rule ccontr) (use assms(3,4) in \<open>simp add: meta_of_no_table\<close>)
  have c: "erase_count p m HEAPALLOC s = unat N" using assms(3,4) tab by (simp add: erase_count_def Let_def unat_eq_zero)
  have u: "unat (of_nat (unat N) :: u64) = unat N" by (rule unat_of_nat64) (use unat32[of N] in simp)
  have "bitype_eraseObj q p ts m HEAPALLOC s = Some (fold clear_slot ?as s)"
    using eraseObj_loop_elems[of "of_nat (unat N)" q ts s] unat32[of N] tab
    unfolding eraseObj_unfold c u by simp
  moreover note shadow_table.clear_all[OF two_level_shadow[OF assms(1)] assms(2), of ?as]
  ultimately show ?thesis by (auto simp: fun_eq_iff)
qed

lemma forget_block:
  assumes "os_ok os" "N \<noteq> 0"
    "emitInstForObjTrace M Prefix E VLAOBJDEL l ts 0 HEAPALLOC U = Some (code, V)" "rt_inv os s" "so_size (meta_of s p) = N"
  shows "\<exists>s'. exec_code os at p n code s = Some (Inr s') \<and>
    (\<forall>b. ref_of s' b = (if \<exists>a\<in>heap_slots p E ts N. same_slot a b then 0 else ref_of s b))"
  using assms(3-5)
proof (induction E arbitrary: code U s)
  case (Cons y E)
  obtain k S where y: "y = (k, S)" by force
  show ?case
  proof (cases "S = []")
    case True
    with Cons.prems(1) have "emitInstForObjTrace M Prefix E VLAOBJDEL l ts 0 HEAPALLOC U = Some (code, V)" by (simp add: y)
    from Cons.IH[OF this Cons.prems(2,3)] True show ?thesis by (simp add: y heap_slots_Cons)
  next
    case False
    let ?q = "p + ucast (entry_offset ts 0 k)"
    from False Cons.prems(1) obtain r W where g: "global_for M Prefix S U = Some (r, W)"
      by (auto simp: y Let_def split: option.splits)
    from global_for_var(1)[OF g False] obtain x where x: "r = Some x" by blast
    from Cons.prems(1) False g x obtain c where c: "emitInstForObjTrace M Prefix E VLAOBJDEL l ts 0 HEAPALLOC W = Some (c, V)"
      and code: "code = del_var_code l ts 0 HEAPALLOC (E = []) k @ c"
      by (auto simp: y Let_def)
    obtain t where t: "bitype_eraseObj ?q p ts (len_value n l) HEAPALLOC s = Some t" "rt_inv os t" "meta_of t = meta_of s"
      "\<And>b. ref_of t b = (if \<exists>a\<in>set (elem_addrs ?q ts (unat N)). same_slot a b then 0 else ref_of s b)"
      using erase_recorded[OF assms(1) Cons.prems(2,3) assms(2)] by blast
    show ?thesis
    proof (cases "E = []")
      case True
      with c have "c = []" by simp
      then have "exec_code os at p n code s = Some (Inr (bitype_direct_eraseArraySize p t))"
        using t(1) True by (simp add: code)
      with t(4) direct_eraseArraySize_spec(2)[OF assms(1) t(2), of p] False True show ?thesis
        by (auto simp: y heap_slots_Cons heap_slots_def)
    next
      case E: False
      have "so_size (meta_of t p) = N" using t(3) Cons.prems(3) by simp
      from Cons.IH[OF c t(2) this] obtain s' where s': "exec_code os at p n c t = Some (Inr s')"
        "\<And>b. ref_of s' b = (if \<exists>a\<in>heap_slots p E ts N. same_slot a b then 0 else ref_of t b)" by blast
      have "exec_code os at p n code s = Some (Inr s')" using t(1) s'(1) E by (simp add: code)
      moreover have "ref_of s' b = (if \<exists>a\<in>heap_slots p (y # E) ts N. same_slot a b then 0 else ref_of s b)" for b
        using s'(2)[of b] t(4)[of b] False by (auto simp: y heap_slots_Cons)
      ultimately show ?thesis by blast
    qed
  qed
qed (simp add: heap_slots_def)

text \<open>
  C30: A heap block is forgotten when it is freed: when the code inserted after its allocation has run to its end
  for a length whose low 32 bits are not zero, the code inserted after its release runs to its end, empties the
  slots of all objects in the block, of every element, and leaves every other slot as it was before the
  allocation. The release does not know the length; the code finds the one recorded.
\<close>

theorem heap_block_forgotten:
  assumes "os_ok os" "rt_reachable os rodata s" "p \<noteq> 0" "ty = HEAPALLOC \<or> ty = REALLOC"
    "insertUpdate M Prefix ty E ts l U = Some (code, V)" "insertRemove M Prefix HEAPALLOC E None ts U' = Some (del, W)"
    "exec_code os at p n code s = Some (Inr s')" "ucast (len_value n l) \<noteq> (0 :: u32)" "\<exists>(k, S)\<in>set E. S \<noteq> []"
  shows "\<exists>s''. exec_code os at p m del s' = Some (Inr s'') \<and>
    (\<forall>b. ref_of s'' b = (if \<exists>a\<in>heap_slots p E ts (ucast (len_value n l)). same_slot a b then 0 else ref_of s b))"
proof -
  let ?N = "ucast (len_value n l) :: u32"
  have inv: "rt_inv os s" using rt_reachable_inv[OF assms(1,2)] by blast
  have add: "emitInstForObjTrace M Prefix E VLAOBJADD l ts 0 ty U = Some (code, V)"
    using assms(4,5) by (auto simp: insertUpdate_def split: array_len.splits)
  from assms(9) have E: "E \<noteq> []" by auto
  then have del: "emitInstForObjTrace M Prefix E VLAOBJDEL (ConstLen 1) ts 0 HEAPALLOC U' = Some (del, W)"
    using assms(6) by (simp add: insertRemove_def)
  note r = record_block[OF assms(1,3) refl add inv assms(7)]
  with assms(9) have size: "so_size (meta_of s' p) = ?N" "rt_inv os s'" by blast+
  from forget_block[OF assms(1,8) del size(2,1)] obtain s'' where s'': "exec_code os at p m del s' = Some (Inr s'')"
    "\<And>b. ref_of s'' b = (if \<exists>a\<in>heap_slots p E ts ?N. same_slot a b then 0 else ref_of s' b)" by blast
  have "ref_of s'' b = (if \<exists>a\<in>heap_slots p E ts ?N. same_slot a b then 0 else ref_of s b)" for b
    using s''(2)[of b] r by (cases "\<exists>a\<in>heap_slots p E ts ?N. same_slot a b") simp_all
  with s''(1) show ?thesis by blast
qed

lemma demo_block_update:
  "insertUpdate (inlining False demo_env) ''bitype'' HEAPALLOC demo_slots 8 (ConstLen 2) demo_util =
     Some ([CallUpdateObjTrace 0 0 8 (ConstLen 2) 0, CallUpdateArraySize (ConstLen 2)], demo_util)"
  by (simp add: insertUpdate_def demo_slots_def demo_global entry_offset_def count_code_def)
    (simp add: demo_env_def)

lemma demo_block_remove:
  "insertRemove (inlining False demo_env) ''bitype'' HEAPALLOC demo_slots None 8 demo_util =
     Some ([CallEraseObj 0 8 (ConstLen 1) HEAPALLOC, CallEraseArraySize], demo_util)"
  by (simp add: insertRemove_def demo_slots_def demo_global entry_offset_def Let_def)

lemma demo_block_run:
  assumes "len_value 2 l = 2"
  shows "\<exists>s. exec_code linux_os (\<lambda>_. 4096) 8 2 [CallUpdateObjTrace 0 0 8 l 0, CallUpdateArraySize l] boot_state = Some (Inr s)"
proof -
  obtain s1 where s1: "bitype_updateObjTrace linux_os 8 4096 8 2 0 boot_state = Inr s1" "mmaps s1 < 200"
    using record_boot[of 2 8 4096 8 0] by auto
  obtain s where "bitype_update_arraySize linux_os 8 2 s1 = Inr s"
    using size_total[OF linux_first] s1(2) by fastforce
  with s1(1) show ?thesis by (simp add: assms)
qed

lemma heap_block_forgotten_witness:
  "\<exists>s t. exec_code linux_os (\<lambda>_. 4096) 8 2 [CallUpdateObjTrace 0 0 8 (ConstLen 2) 0, CallUpdateArraySize (ConstLen 2)]
       boot_state = Some (Inr s) \<and>
     exec_code linux_os (\<lambda>_. 4096) 8 2 [CallEraseObj 0 8 (ConstLen 1) HEAPALLOC, CallEraseArraySize] s = Some (Inr t) \<and>
     ref_of t 16 = 0"
proof -
  obtain s where s: "exec_code linux_os (\<lambda>_. 4096) 8 2
      [CallUpdateObjTrace 0 0 8 (ConstLen 2) 0, CallUpdateArraySize (ConstLen 2)] boot_state = Some (Inr s)"
    using demo_block_run[of "ConstLen 2"] by (auto simp: len_value_def)
  obtain t where t: "exec_code linux_os (\<lambda>_. 4096) 8 2 [CallEraseObj 0 8 (ConstLen 1) HEAPALLOC, CallEraseArraySize] s = Some (Inr t)"
    and r: "\<forall>b. ref_of t b =
      (if \<exists>a\<in>heap_slots 8 demo_slots 8 (ucast (len_value 2 (ConstLen 2))). same_slot a b then 0 else ref_of boot_state b)"
    using heap_block_forgotten[OF linux_os_ok boot_reachable _ _ demo_block_update demo_block_remove s, of 2]
    by (auto simp: len_value_def demo_slots_def)
  have "ref_of t 16 = 0" using r by (simp only: boot_empty if_cancel)
  with s t show ?thesis by blast
qed

end
