(* ===== verification/CastVerdict.thy ===== *)
theory CastVerdict
  imports ClangCast SafeProps HeapRecord
begin

text \<open>
  The whole chain: an object recorded by the code of the passes with the array of its class, a cast checked by the
  code of Clang, and the verdict of the run-time library. The three parts agree on what a code number means: the
  check passes exactly if the code number of the destination is in the safe set of the class.
\<close>

unbundle bit_operations_syntax

section \<open>Arrays stay when code is emitted\<close>

lemma emit_rel:
  assumes "emitInstForObjTrace M Prefix E e l ts i ty U = Some (code, V)"
    "\<And>U. R U U" "\<And>U V W. R U V \<Longrightarrow> R V W \<Longrightarrow> R U W"
    "\<And>S U r V. global_for M Prefix S U = Some (r, V) \<Longrightarrow> R U V"
  shows "R U V"
  using assms(1)
proof (induction E arbitrary: code U)
  case (Cons y E)
  obtain k S where y: "y = (k, S)" by force
  from Cons.prems Cons.IH assms(3,4) show ?case
    by (auto simp: y Let_def split: if_splits option.splits) blast+
qed (simp add: assms(2))

lemma emit_elements_rel:
  assumes "emit_elements M Prefix E e n ts i ty U = Some r"
    "\<And>U. R U U" "\<And>U V W. R U V \<Longrightarrow> R V W \<Longrightarrow> R U W"
    "\<And>S U r V. global_for M Prefix S U = Some (r, V) \<Longrightarrow> R U V"
  shows "R U (snd r)"
proof -
  have "(M, Prefix) = (M, Prefix) \<longrightarrow> R U (snd r)"
  proof (rule emit_elements.raw_induct[where P = "\<lambda>N Q E e n ts i ty U r. (N, Q) = (M, Prefix) \<longrightarrow> R U (snd r)",
        OF _ assms(1)], intro impI, goal_cases)
    case (1 f N Q E e n ts i ty U r)
    show ?case
    proof (cases "ucast i < n")
      case True
      with 1(2) obtain c V m W where c: "emitInstForObjTrace N Q E e (ConstLen n) ts i ty U = Some (c, V)"
        and m: "f N Q E e n ts (i + 1) ty V = Some (m, W)" and r: "r = (c @ m, W)"
        by (auto simp: bind_eq_Some_conv)
      have "R V W" using 1(1)[OF m] 1(3) by simp
      moreover have "R U V" by (rule emit_rel[where R = R, OF c]) (use assms(2-4) 1(3) in blast)+
      ultimately show ?thesis using assms(3) r by auto
    next
      case False
      with 1(2) assms(2) show ?thesis by auto
    qed
  qed
  then show ?thesis by simp
qed

lemma global_for_arrays:
  "global_for M Prefix S U = Some (r, V) \<Longrightarrow> array_of U x = Some b \<Longrightarrow> array_of V x = Some b"
  by (auto simp: global_for_def CreateGlobalVariable_def new_global_def array_of_def Let_def map_of_map_insert
      nth_append split: option.splits if_splits)

lemma object_nonzero:
  fixes ts :: u32 and p :: addr
  assumes "8 * k < unat ts" "i < N" "unat ts * N < 2 ^ 32" "0 < unat p" "unat p + unat ts * N \<le> 2 ^ 48"
  shows "p + of_nat (unat ts * i + 8 * k) \<noteq> 0"
proof -
  have "unat (p + of_nat (unat ts * i + 8 * k)) \<noteq> 0"
    using object_address(1,3)[OF assms(1,2,3,5)] assms(4) by simp
  then show ?thesis by auto
qed

lemma array_of_keeps:
  assumes "emit_elements M Prefix E e n ts i ty U = Some (code, V)" "array_of U x = Some bytes"
  shows "array_of V x = Some bytes"
proof -
  have "\<forall>b. array_of U x = Some b \<longrightarrow> array_of (snd (code, V)) x = Some b"
    by (rule emit_elements_rel[where R = "\<lambda>U V. \<forall>b. array_of U x = Some b \<longrightarrow> array_of V x = Some b", OF assms(1)])
      (use global_for_arrays in blast)+
  with assms(2) show ?thesis by simp
qed

section \<open>The check of a recorded object\<close>

lemma bind_pair: "bindR (bindR r (\<lambda>s. Inr (x, s))) (\<lambda>(_, s). Inr s) = r"
  by (cases r) simp_all

lemma verify_same:
  assumes "a \<noteq> 0" "ref_of s a \<noteq> 0"
  shows "bitype_cast_verification rodata a a index code d s =
    (let t = rodata (ref_of s a + ucast (index + 2)) in
     if (t XOR code) > t then print_confusion_inline d s else Inr s)"
proof -
  have t: "read_l1 s (l1_index a) \<noteq> 0" using assms(2) ref_of_no_table has_table_def by blast
  then have r: "read_cell (read_l1 s (l1_index a)) (push_bit 1 (l2_index a)) s = ref_of s a" by (simp add: ref_of_def)
  show ?thesis
    unfolding bitype_cast_verification_def bitype_verify_cast_def Let_def ucast_idx2 r
    using assms t by (simp add: check_code_def confusion_def bind_pair Let_def)
qed

lemma class_bit_of:
  assumes "1 \<le> c" "c < 2 ^ 31"
  shows "class_bit (word_of_int c) = (of_nat ((nat c - 1) div 8), push_bit ((nat c - 1) mod 8) 1)"
proof -
  define m where "m = nat c - 1"
  have m: "c = int m + 1" "m < 2 ^ 31" using assms by (simp_all add: m_def)
  have w: "(word_of_int c - 1 :: u32) = of_nat m" by (simp add: m(1))
  have u: "unat (of_nat m :: u32) = m" using m(2) by (simp add: unsigned_of_nat take_bit_nat_eq_self)
  have "unat (of_nat m div 8 :: u32) = m div 8" by (simp add: unat_div u)
  moreover have "unat (of_nat (m div 8) :: u32) = m div 8" using m(2) by (simp add: unsigned_of_nat take_bit_nat_eq_self)
  ultimately have "of_nat m div 8 = (of_nat (m div 8) :: u32)" by (simp only: word_unat_eq_iff)
  moreover have "unat (of_nat m mod 8 :: u32) = m mod 8" by (simp add: unat_mod u)
  ultimately show ?thesis unfolding class_bit_def w Let_def m_def[symmetric] by simp
qed

text \<open>The program is loaded: the bytes of every array lie at the address of its variable.\<close>

definition loaded :: "(addr \<Rightarrow> u8) \<Rightarrow> (nat \<Rightarrow> addr) \<Rightarrow> bitype_util \<Rightarrow> bool" where
  "loaded rodata at U \<longleftrightarrow> (\<forall>g<length (moduleGlobals U). at g \<noteq> 0 \<and>
     (\<forall>i<length (snd (moduleGlobals U ! g)). rodata (at g + of_nat i) = snd (moduleGlobals U ! g) ! i))"

lemma check_bit:
  assumes "a \<noteq> 0" "ref_of s a = at g" "at g \<noteq> 0" "1 \<le> c" "c \<le> int (8 * length bytes)" "c < 2 ^ 31"
    "\<forall>i<length bytes. rodata (at g + of_nat (i + 2)) = bytes ! i"
    "\<forall>k<length bytes. \<forall>b<8. bit (bytes ! k) b \<longleftrightarrow> int (8 * k + b) + 1 \<in> C"
  shows "bitype_cast_verification rodata a a (fst (class_bit (word_of_int c))) (snd (class_bit (word_of_int c))) d s =
    (if c \<in> C then Inr s else print_confusion_inline d s)"
proof -
  define m where "m = nat c - 1"
  have m: "c = int m + 1" "m < 8 * length bytes" "m < 2 ^ 31" using assms(4-6) by (simp_all add: m_def)
  then have k: "m div 8 < length bytes" by (simp add: less_mult_imp_div_less mult.commute)
  have idx: "(ucast (of_nat (m div 8) + 2 :: u32) :: addr) = of_nat (m div 8 + 2)"
  proof -
    have lt: "m div 8 + 2 < 2 ^ 32" using m(3) by simp
    have "unat (of_nat (m div 8) + 2 :: u32) = unat (of_nat (m div 8 + 2) :: u32)" by (simp add: add.commute)
    also have "\<dots> = m div 8 + 2" using lt by (simp only: unsigned_of_nat take_bit_nat_eq_self) (simp add: take_bit_nat_eq_self)
    finally have u: "unat (of_nat (m div 8) + 2 :: u32) = m div 8 + 2" .
    have "unat (ucast (of_nat (m div 8) + 2 :: u32) :: addr) = unat (of_nat (m div 8) + 2 :: u32)"
      by (simp add: unsigned_ucast_eq take_bit_nat_eq_self order_less_le_trans[OF unsigned_less])
    with u have "unat (ucast (of_nat (m div 8) + 2 :: u32) :: addr) = m div 8 + 2" by simp
    moreover have "unat (of_nat (m div 8 + 2) :: addr) = m div 8 + 2" by (rule unat_of_nat64, rule order.strict_trans[OF lt]) simp
    ultimately show ?thesis by (simp only: word_unat_eq_iff)
  qed
  have b: "rodata (at g + of_nat (m div 8 + 2)) = bytes ! (m div 8)" using assms(7) k by blast
  have "bit (bytes ! (m div 8)) (m mod 8) \<longleftrightarrow> int (8 * (m div 8) + m mod 8) + 1 \<in> C" 
    by (rule assms(8)[rule_format, OF k]) simp
  then have "bit (bytes ! (m div 8)) (m mod 8) \<longleftrightarrow> c \<in> C" unfolding mult_div_mod_eq m(1) .
  moreover have "m mod 8 < 8" by simp
  ultimately have f: "(bytes ! (m div 8) XOR push_bit (m mod 8) 1) > bytes ! (m div 8) \<longleftrightarrow> c \<notin> C"
    by (simp only: flip_increases)
  have r: "ref_of s a \<noteq> 0" using assms(2,3) by simp
  show ?thesis
    unfolding class_bit_of[OF assms(4,6)] m_def[symmetric] fst_conv snd_conv verify_same[OF assms(1) r] Let_def assms(2)
      idx b f by simp
qed

section \<open>From the declaration of a variable to the verdict on a cast\<close>

lemma array_size_bound: "0 \<le> fam \<Longrightarrow> fam \<le> int (8 * array_size fam)"
proof -
  assume "0 \<le> fam"
  then have "fam sdiv 8 = fam div 8" "fam smod 8 = fam mod 8"
    by (cases "fam = 0"; simp add: signed_divide_int_def signed_modulo_int_def)+
  with \<open>0 \<le> fam\<close> show ?thesis by (auto simp: array_size_def)
qed

lemma array_position:
  assumes "array_of U n = Some bytes" "loaded rodata at U"
  shows "\<exists>g. map_find (GlobalVariableMap U) n = Some g \<and> at g \<noteq> 0 \<and>
    (\<forall>i<length bytes. rodata (at g + of_nat i) = bytes ! i)"
proof -
  from assms(1) obtain g where "map_find (GlobalVariableMap U) n = Some g" "g < length (moduleGlobals U)"
    "bytes = snd (moduleGlobals U ! g)"
    by (auto simp: array_of_def split: option.splits if_splits)
  with assms(2) show ?thesis by (auto simp: loaded_def)
qed

text \<open>The call of a check at run time: the operand \<open>a\<close>, the result \<open>d\<close>.\<close>

definition run_check :: "(addr \<Rightarrow> u8) \<Rightarrow> addr \<Rightarrow> addr \<Rightarrow> check_call \<Rightarrow> runtime \<Rightarrow> rt_error + runtime" where
  "run_check rodata a d call s =
     (let value = \<lambda>x. case x of SourceAddr \<Rightarrow> a | DerivedAddr \<Rightarrow> d
      in bitype_cast_verification rodata (value (Address1 call)) (value (Address call)) (byteIndex call) (safeCode call)
           (debugIndex call) s)"

lemma emitted_check:
  assumes "emit_reference_cast clang b tables X = [call]" "dest_class X = Some D" "\<not> has_offset X"
    "map_find (SanitizerRS tables) (rd_name D) = Some code"
  shows "run_check rodata a d call s =
    bitype_cast_verification rodata a a (fst (class_bit code)) (snd (class_bit code)) (debugIndex call) s"
  using assms
  by (auto simp: emit_reference_cast_def emit_class_check_def BitypeEmitCheck_def run_check_def split: if_splits prod.splits)

lemma object_verdict:
  assumes "array_type u n Types = Some ST" "class_entry u ST = Some (f, i)"
    "\<forall>m c. map_find (bitypeCodeMap u) m = Some c \<longrightarrow> 1 \<le> c"
    "\<And>bytes. array_of (getAllClassSafeCast dl u P m Types fresh_util) n = Some bytes \<Longrightarrow> array_of V n = Some bytes"
    "loaded rodata at V" "a \<noteq> 0" "map_find (GlobalVariableMap V) n = Some g" "ref_of s a = at g"
    "emit_reference_cast clang False tables X = [call]" "dest_class X = Some D" "\<not> has_offset X"
    "map_find (SanitizerRS tables) (rd_name D) = Some (word_of_int c)" "1 \<le> c" "c \<le> f" "f < 2 ^ 31"
  shows "run_check rodata a d call s =
    (if c \<in> safe_codes dl u (module_infos dl Types) ST then Inr s else print_confusion_inline (debugIndex call) s)"
proof -
  let ?C = "safe_codes dl u (module_infos dl Types) ST"
  have "\<forall>c\<in>?C. 1 \<le> c" using assms(3) safe_codes_codes by blast
  from class_array_holds[OF assms(1,2) this, of P m] obtain x y bytes fam where
    h: "array_of (getAllClassSafeCast dl u P m Types fresh_util) n = Some (x # y # bytes)"
    "f \<le> fam" "length bytes = array_size fam" "\<forall>k<length bytes. \<forall>b<8. bit (bytes ! k) b \<longleftrightarrow> int (8 * k + b) + 1 \<in> ?C"
    by blast
  from array_position[OF assms(4)[OF h(1)] assms(5)] assms(7) have
    g: "at g \<noteq> 0" "\<forall>i<length (x # y # bytes). rodata (at g + of_nat i) = (x # y # bytes) ! i" by auto
  have "c \<le> int (8 * length bytes)" using array_size_bound[of fam] h(2,3) assms(13,14) by simp
  moreover have "\<forall>i<length bytes. rodata (at g + of_nat (i + 2)) = bytes ! i"
  proof (intro allI impI)
    fix i assume "i < length bytes"
    with g(2)[rule_format, of "i + 2"] show "rodata (at g + of_nat (i + 2)) = bytes ! i" by simp
  qed
  ultimately show ?thesis
    unfolding emitted_check[OF assms(9-12)]
    using check_bit[where at = at and g = g, OF assms(6,8) g(1) assms(13) _ _ _ h(4)] assms(14,15) by simp
qed

text \<open>What the code of a variable and of a heap block leaves: the arrays of the classes and the record of an object.\<close>

lemma variable_recorded:
  assumes "insertUpdate M Prefix ty E ts (ConstLen N) U = Some (code, V)" "os_ok os" "rt_reachable os rodata s"
    "exec_code os at p l code s = Some (Inr s')" "variable_alloc ty" "smap_ok E" "\<forall>k\<in>fst ` set E. 8 * k < unat ts"
    "8 dvd unat ts" "8 dvd unat p" "unat ts * unat N < 2 ^ 32" "0 < unat p" "unat p + unat ts * unat N \<le> 2 ^ 48"
    "(k, S) \<in> set E" "S \<noteq> []" "j < unat N"
  shows "array_of U n = Some bytes \<Longrightarrow> array_of V n = Some bytes" "p + of_nat (unat ts * j + 8 * k) \<noteq> 0"
    "\<exists>g. var_of V S = Some g \<and> ref_of s' (p + of_nat (unat ts * j + 8 * k)) = at g"
proof -
  have e: "emit_elements M Prefix E CONOBJADD N ts 0 ty U = Some (code, V)"
    using assms(1) unfolding insertUpdate_const[OF assms(5)] .
  show "array_of U n = Some bytes \<Longrightarrow> array_of V n = Some bytes" by (rule array_of_keeps[OF e])
  show "\<exists>g. var_of V S = Some g \<and> ref_of s' (p + of_nat (unat ts * j + 8 * k)) = at g"
    using object_recorded[OF assms(2,3,5,1,4,6-10,12-15)] by blast
  have "8 * k < unat ts" using assms(7,13) by force
  from object_nonzero[OF this assms(15,10-12)] show "p + of_nat (unat ts * j + 8 * k) \<noteq> 0" .
qed

lemma block_object_recorded:
  assumes "insertUpdate M Prefix ty E ts l U = Some (code, V)" "os_ok os" "rt_reachable os rodata s"
    "exec_code os at p n code s = Some (Inr s')" "ty = HEAPALLOC \<or> ty = REALLOC" "N = ucast (len_value n l)"
    "smap_ok E" "\<forall>k\<in>fst ` set E. 8 * k < unat ts" "8 dvd unat ts" "8 dvd unat p" "unat ts * unat N < 2 ^ 32"
    "0 < unat p" "unat p + unat ts * unat N \<le> 2 ^ 48" "(k, S) \<in> set E" "S \<noteq> []" "j < unat (N :: u32)"
  shows "array_of U c = Some bytes \<Longrightarrow> array_of V c = Some bytes" "p + of_nat (unat ts * j + 8 * k) \<noteq> 0"
    "\<exists>g. var_of V S = Some g \<and> ref_of s' (p + of_nat (unat ts * j + 8 * k)) = at g"
proof -
  have p: "p \<noteq> 0" using assms(12) by auto
  have e: "emitInstForObjTrace M Prefix E VLAOBJADD l ts 0 ty U = Some (code, V)"
    using assms(1,5) by (auto simp: insertUpdate_def split: array_len.splits)
  show "array_of U c = Some bytes \<Longrightarrow> array_of V c = Some bytes"
    by (rule emit_rel[where R = "\<lambda>U V. \<forall>b. array_of U c = Some b \<longrightarrow> array_of V c = Some b", OF e, rule_format])
      (use global_for_arrays in blast)+
  show "\<exists>g. var_of V S = Some g \<and> ref_of s' (p + of_nat (unat ts * j + 8 * k)) = at g"
    by (rule block_recorded[OF assms(2,3,5,6,1,4,7-10) p assms(11,13-16)])
  have "8 * k < unat ts" using assms(8,14) by force
  from object_nonzero[OF this assms(16,11-13)] show "p + of_nat (unat ts * j + 8 * k) \<noteq> 0" .
qed

text \<open>The bytes of one array in a loaded program, for the examples.\<close>

definition demo_rodata :: "addr \<Rightarrow> u8" where
  "demo_rodata x = (if x < 4099 then [1, 0, 2] ! unat (x - 4096) else 0)"

end
