(* ===== verification/HeapProps.thy ===== *)
theory HeapProps
  imports HeapPass StackTrace CastVerdict
begin

text \<open>
  The inlined check of a cast against the run-time library's, and what the compile-time verification drops. What a
  value stems from (\<open>stems_from\<close>) is a relation on the instructions, defined apart from the test of the pass.
\<close>

unbundle bit_operations_syntax

section \<open>Inlined checks\<close>

lemma inline_check_lookup:
  "inline_cast_check rodata a b i c d s =
     (if a = 0 \<or> ref_of s b = 0 then Inr s
      else let t = rodata (ref_of s b + scast (i + 2))
           in if (t XOR c) > t then bitype_print_type_confusion d s else Inr s)"
proof -
  have "read_cell (LookupStart s) (drop_bit 26 b AND (push_bit 22 1 - 1)) s = read_l1 s (l1_index b)"
    by (simp add: read_cell_def read_l1_def l1_index_def L2_NUM_def L1_MASK_def)
  moreover have "push_bit 1 (drop_bit 3 b AND (push_bit 23 1 - 1)) = push_bit 1 (l2_index b)"
    by (simp add: l2_index_def L2_MASK_def)
  ultimately show ?thesis
    unfolding inline_cast_check_def Let_def by (simp only: ref_of_def Let_def) simp
qed

lemma ucast_scast_index:
  fixes i :: u32
  assumes "unat i + 2 < 2 ^ 31"
  shows "(scast (i + 2) :: addr) = ucast (i + 2)"
proof -
  have "unat (i + 2) = unat i + 2" using assms by (simp add: unat_word_ariths)
  with assms have "unat (i + 2) < 2 ^ 31" by simp
  then have "drop_bit 31 (unat (i + 2)) = 0" by (simp add: drop_bit_eq_div)
  then have "\<not> bit (i + 2) n" if "31 \<le> n" for n
  proof -
    have "bit (unat (i + 2)) n = bit (drop_bit 31 (unat (i + 2))) (n - 31)" using that by (simp add: bit_drop_bit_eq)
    then show ?thesis using \<open>drop_bit 31 (unat (i + 2)) = 0\<close> by (simp add: bit_unsigned_iff bit_imp_le_length)
  qed
  then show ?thesis by (auto simp: bit_eq_iff bit_simps min_def)
qed

text \<open>
  C37: For a cast that keeps the address the inlined check does the same as the call it replaces, in every state:
  it ends the same way and reports the same.
\<close>

theorem inline_check_equivalent:
  assumes "unat i + 2 < 2 ^ 31"
  shows "inline_cast_check rodata a a i c d s = bitype_cast_verification rodata a a i c d s"
proof (cases "a = 0 \<or> ref_of s a = 0")
  case True
  then show ?thesis
    unfolding bitype_cast_verification_def bitype_verify_cast_def Let_def ucast_idx2 inline_check_lookup
    by (auto simp: ref_of_def Let_def split: if_splits)
next
  case False
  then show ?thesis
    by (simp add: inline_check_lookup verify_same ucast_scast_index[OF assms] Let_def print_confusion_inline_def
        bitype_print_type_confusion_def)
qed

lemma inline_check_equivalent_witness:
  "inline_cast_check demo_rodata 8 8 0 1 5 boot_state = bitype_cast_verification demo_rodata 8 8 0 1 5 boot_state"
  by (rule inline_check_equivalent) simp

text \<open>
  C38: For a cast that moves the address it does not: where the source is an object and nothing is recorded at the
  destination, the call reports a confusion and the inlined check passes.
\<close>

theorem inline_check_misses:
  assumes "a \<noteq> 0" "a \<noteq> b" "ref_of s a \<noteq> 0" "ref_of s b = 0"
  shows "bitype_cast_verification rodata a b i c d s = print_confusion_inline d s \<and>
    inline_cast_check rodata a b i c d s = Inr s"
proof -
  have t: "read_l1 s (l1_index a) \<noteq> 0" using assms(3) ref_of_no_table has_table_def by blast
  then have r: "read_cell (read_l1 s (l1_index a)) (push_bit 1 (l2_index a)) s \<noteq> 0" using assms(3) by (simp add: ref_of_def)
  have b: "read_l1 s (l1_index b) \<noteq> 0 \<Longrightarrow> read_cell (read_l1 s (l1_index b)) (push_bit 1 (l2_index b)) s = 0"
    using assms(4) by (simp add: ref_of_def)
  have "bitype_verify_cast rodata a b i c d s = confusion d s"
    unfolding bitype_verify_cast_def Let_def ucast_idx2
    using assms(1,2) t r b by (simp add: Let_def)
  then show ?thesis using assms(4) by (simp add: inline_check_lookup bitype_cast_verification_def confusion_def bind_pair)
qed

lemma inline_check_misses_witness:
  "\<exists>s. inline_cast_check demo_rodata 8 16 0 1 (- 1) s = Inr s \<and>
     bitype_cast_verification demo_rodata 8 16 0 1 (- 1) s = Inr (printTypeConfusion (- 1) s)"
proof -
  obtain s where s: "bitype_direct_updateObjTrace linux_os 8 4096 0 boot_state = Inr s"
    using demo_run by (auto split: sum.splits)
  note d = direct_update_spec(2)[OF linux_os_ok boot_inv s]
  have "\<not> same_slot 8 16" by (subst same_slot_aligned) (simp_all add: take_bit_eq_mask mask_eq_exp_minus_1)
  then have "ref_of s 8 \<noteq> 0" "ref_of s 16 = 0" using d[of 8] d[of 16] by (simp_all add: boot_empty)
  from inline_check_misses[OF _ _ this, of demo_rodata 0 1 "- 1"] show ?thesis
    by (auto simp: print_confusion_inline_def)
qed

section \<open>Sources the compile-time verification accepts\<close>

text \<open>
  Where a value comes from, in terms of the instructions: the operand of a cast of a pointer, the value a store writes,
  for a value read from a variable of the function what is stored to the variable, and for a variable that holds a
  pointer the same. A value read through anything else, or any other value, is where it ends.
\<close>

definition is_variable :: "ir_function \<Rightarrow> ir_value \<Rightarrow> bool" where
  "is_variable F p \<longleftrightarrow> (\<exists>A Ty n a. find_inst F p = Some A \<and> inst_op A = Alloca Ty n a)"

definition stored_to :: "ir_function \<Rightarrow> ir_value \<Rightarrow> ir_value \<Rightarrow> bool" where
  "stored_to F p W \<longleftrightarrow> (\<exists>S\<in>set (insts F). inst_op S = Store W p)"

inductive comes_via :: "ir_function \<Rightarrow> ir_value \<Rightarrow> ir_value \<Rightarrow> bool" for F where
  cast: "find_inst F V = Some I \<Longrightarrow> inst_op I = BitCast Ty W \<Longrightarrow> comes_via F V W"
| store: "find_inst F V = Some I \<Longrightarrow> inst_op I = Store W p \<Longrightarrow> comes_via F V W"
| load: "find_inst F V = Some I \<Longrightarrow> inst_op I = Load p \<Longrightarrow> is_variable F p \<Longrightarrow> stored_to F p W \<Longrightarrow> comes_via F V W"
| pointer: "find_inst F V = Some I \<Longrightarrow> inst_op I = Alloca (PointerTy AS) n a \<Longrightarrow> stored_to F V W \<Longrightarrow> comes_via F V W"

inductive_simps comes_via_simps: "comes_via F V W"

definition followed_value :: "ir_function \<Rightarrow> ir_value \<Rightarrow> bool" where
  "followed_value F V \<longleftrightarrow> (\<exists>I. find_inst F V = Some I \<and> (case inst_op I of
     BitCast Ty v \<Rightarrow> True | Store v p \<Rightarrow> True | Load p \<Rightarrow> is_variable F p
   | Alloca Ty n a \<Rightarrow> is_pointer_type Ty | _ \<Rightarrow> False))"

definition stems_from :: "ir_function \<Rightarrow> ir_value \<Rightarrow> ir_value \<Rightarrow> bool" where
  "stems_from F V R \<longleftrightarrow> (comes_via F)\<^sup>*\<^sup>* V R \<and> \<not> followed_value F R"

definition known_object :: "heap_lib \<Rightarrow> ir_function \<Rightarrow> ir_value \<Rightarrow> bool" where
  "known_object lib F R \<longleftrightarrow> R \<in> Global ` set (module_globals lib) \<or>
     (\<exists>I. find_inst F R = Some I \<and> (case inst_op I of
        Alloca Ty n a \<Rightarrow> isInterestingType Ty \<and> is_struct Ty
      | Call f args \<Rightarrow> isHeapObj lib I
      | GetElementPtr Ty p idx \<Rightarrow> is_struct Ty
      | _ \<Rightarrow> False))"

lemma safe_step_known: "safe_step lib F V = Inl b \<Longrightarrow> b \<longleftrightarrow> known_object lib F V"
  by (auto simp: safe_step_def known_object_def split: if_splits option.splits inst_op.splits)

lemma isLocalPointer_variable: "isLocalPointer F p \<longleftrightarrow> is_variable F p"
  by (auto simp: isLocalPointer_def is_variable_def split: option.splits inst_op.splits)

lemma stored_values_set: "W \<in> set (stored_values F p) \<longleftrightarrow> stored_to F p W"
proof -
  have "W \<in> set (case inst_op I of Store v q \<Rightarrow> if q = p then [v] else [] | _ \<Rightarrow> []) \<longleftrightarrow> inst_op I = Store W p" for I
    by (auto split: inst_op.split)
  then show ?thesis by (simp only: stored_values_def set_concat set_map UN_iff stored_to_def image_iff bex_simps Bex_def) blast
qed

lemma step_Inl: "safe_step lib F V = Inl b \<Longrightarrow> \<not> followed_value F V"
  by (auto simp: safe_step_def followed_value_def isLocalPointer_variable is_struct_def is_pointer_type_def find_inst_def[of F "Global g" for g]
      split: if_splits option.splits inst_op.splits ir_type.splits)

lemma step_Inr: "safe_step lib F V = Inr Ws \<Longrightarrow> followed_value F V \<and> (comes_via F V W \<longleftrightarrow> W \<in> set Ws)"
  by (auto simp: safe_step_def followed_value_def comes_via_simps isLocalPointer_variable stored_values_set is_pointer_type_def
      split: if_splits option.splits inst_op.splits ir_type.splits)

lemma via_followed: "comes_via F V W \<Longrightarrow> followed_value F V"
  by (auto simp: comes_via_simps followed_value_def is_pointer_type_def)

lemma stems_from_Inl: "safe_step lib F V = Inl b \<Longrightarrow> stems_from F V R \<longleftrightarrow> R = V"
  using step_Inl via_followed unfolding stems_from_def by (metis converse_rtranclpE rtranclp.rtrancl_refl)

lemma stems_from_Inr:
  assumes "safe_step lib F V = Inr Ws"
  shows "stems_from F V R \<longleftrightarrow> (\<exists>W\<in>set Ws. stems_from F W R)"
  using step_Inr[OF assms] unfolding stems_from_def by (metis converse_rtranclpE converse_rtranclp_into_rtranclp)

lemma safe_values_iff:
  assumes "safe_values lib F Vs = Some b"
  shows "b \<longleftrightarrow> (\<forall>V\<in>set Vs. \<forall>R. stems_from F V R \<longrightarrow> known_object lib F R)"
proof (rule safe_values.raw_induct[where P = "\<lambda>lib F Vs b. b \<longleftrightarrow> (\<forall>V\<in>set Vs. \<forall>R. stems_from F V R \<longrightarrow> known_object lib F R)",
      OF _ assms], goal_cases)
  case (1 f lib F Vs b)
  note IH = 1(1)
  show ?case
  proof (cases Vs)
    case Nil
    with 1(2) show ?thesis by simp
  next
    case (Cons V Ws)
    show ?thesis
    proof (cases "safe_step lib F V")
      case (Inl safe)
      with 1(2) have r: "(if safe then f lib F Ws else Some False) = Some b" by (simp add: Cons)
      show ?thesis
        using r IH[of lib F Ws b] safe_step_known[OF Inl] stems_from_Inl[OF Inl]
        by (cases safe) (auto simp: Cons)
    next
      case (Inr needed)
      with 1(2) obtain safe where n: "f lib F needed = Some safe" and r: "(if safe then f lib F Ws else Some False) = Some b"
        by (auto simp: Cons bind_eq_Some_conv)
      have s: "safe \<longleftrightarrow> (\<forall>R. stems_from F V R \<longrightarrow> known_object lib F R)"
        using IH[OF n] stems_from_Inr[OF Inr] by blast
      show ?thesis
      proof (cases safe)
        case True
        with r have "f lib F Ws = Some b" by simp
        from IH[OF this] s True show ?thesis unfolding Cons by simp
      next
        case False
        with r have "\<not> b" by simp
        with s False show ?thesis unfolding Cons by auto
      qed
    qed
  qed
qed

text \<open>
  C39: Where the test for the source of a cast returns, it accepts the source exactly if everything the source
  stems from, through casts, stores and the variables of the function, is a global variable, a variable of structure
  type, a heap object or the address of a structure inside an object; a value read through anything but a variable of
  the function is none of these. The class the cast goes to has no part in it.
\<close>

theorem isSafeSrcValue_iff:
  assumes "isSafeSrcValue lib F V = Some b"
  shows "b \<longleftrightarrow> (\<forall>R. stems_from F V R \<longrightarrow> known_object lib F R)"
  using safe_values_iff[OF assms[unfolded isSafeSrcValue_def]] by simp

section \<open>Checks that remain\<close>

lemma erase_find:
  assumes "V \<noteq> Inst i"
  shows "find_inst (erase_inst i F) V = find_inst F V"
proof -
  have "find (\<lambda>I. inst_id I = k) (concat (map (filter (\<lambda>I. inst_id I \<noteq> i)) Bs)) = find (\<lambda>I. inst_id I = k) (concat Bs)"
    if "k \<noteq> i" for k Bs
  proof -
    have f: "find (\<lambda>I. inst_id I = k) (filter (\<lambda>I. inst_id I \<noteq> i) B @ xs) = find (\<lambda>I. inst_id I = k) (B @ xs)" for B xs
      using that by (induction B) auto
    show ?thesis
    proof (induction Bs)
      case (Cons B Bs)
      have g: "find (\<lambda>I. inst_id I = k) (B @ xs) = find (\<lambda>I. inst_id I = k) (B @ ys)"
        if "find (\<lambda>I. inst_id I = k) xs = find (\<lambda>I. inst_id I = k) ys" for xs ys
        using that by (induction B) auto
      show ?case using f[of B] g[OF Cons] by (simp only: list.map concat.simps)
    qed simp
  qed
  with assms show ?thesis by (cases V) (simp_all add: find_inst_def erase_inst_def)
qed

lemma erase_find_none: "find_inst (erase_inst i F) (Inst i) = None"
  by (auto simp: find_inst_def erase_inst_def find_None_iff)

text \<open>Erasing a call takes no store away.\<close>

definition only_calls :: "nat \<Rightarrow> ir_function \<Rightarrow> bool" where
  "only_calls i F \<longleftrightarrow> (\<forall>I\<in>set (insts F). inst_id I = i \<longrightarrow> is_call I)"

lemma erase_stored:
  assumes "only_calls i F"
  shows "stored_values (erase_inst i F) V = stored_values F V"
proof -
  let ?g = "\<lambda>I. case inst_op I of Store v p \<Rightarrow> if p = V then [v] else [] | _ \<Rightarrow> []"
  have "concat (map ?g (concat (map (filter (\<lambda>I. inst_id I \<noteq> i)) Bs))) = concat (map ?g (concat Bs))"
    if "\<forall>B\<in>set Bs. \<forall>I\<in>set B. inst_id I = i \<longrightarrow> is_call I" for Bs
    using that
  proof (induction Bs)
    case (Cons B Bs)
    have "concat (map ?g (filter (\<lambda>I. inst_id I \<noteq> i) C)) = concat (map ?g C)"
      if "\<forall>I\<in>set C. inst_id I = i \<longrightarrow> is_call I" for C
      using that by (induction C) (auto split: inst_op.splits)
    with Cons show ?case by simp
  qed simp
  with assms show ?thesis by (simp add: stored_values_def erase_inst_def only_calls_def)
qed

lemma erase_step:
  assumes "only_calls i F" "safe_step lib (erase_inst i F) V = r" "r \<noteq> Inl False"
  shows "safe_step lib F V = r"
proof (cases "V = Inst i")
  case True
  with assms(2,3) erase_find_none[of i F] show ?thesis by (auto simp: safe_step_def split: if_splits)
next
  case False
  have l: "isLocalPointer (erase_inst i F) p \<Longrightarrow> isLocalPointer F p" for p
    using erase_find[of p i F] erase_find_none[of i F] by (cases "p = Inst i") (auto simp: isLocalPointer_def)
  show ?thesis
    using assms(2,3) l erase_find[OF False, of F] erase_stored[OF assms(1)]
    by (auto simp: safe_step_def split: if_splits option.splits inst_op.splits)
qed

lemma erase_safe_values:
  assumes "safe_values lib (erase_inst i F) Vs = Some True" "only_calls i F"
  shows "safe_values lib F Vs = Some True"
proof -
  have "(lib, erase_inst i F) = (lib, erase_inst i F) \<and> True \<longrightarrow> safe_values lib F Vs = Some True"
  proof (rule safe_values.raw_induct[where P = "\<lambda>l G Vs b. (l, G) = (lib, erase_inst i F) \<and> b \<longrightarrow> safe_values lib F Vs = Some True",
        OF _ assms(1)], intro impI, goal_cases)
    case (1 f l G Vs b)
    then have l: "l = lib" "G = erase_inst i F" b by simp_all
    have IH: "safe_values lib F Ws = Some True" if "f l G Ws = Some True" for Ws
      using 1(1)[OF that] l by simp
    show ?case
    proof (cases Vs)
      case Nil
      then show ?thesis by (subst safe_values.simps) simp
    next
      case (Cons V Ws)
      show ?thesis
      proof (cases "safe_step l G V")
        case (Inl safe)
        with 1(2) l(3) have s: safe "f l G Ws = Some True" by (simp_all add: Cons split: if_splits)
        with erase_step[OF assms(2), of lib V "Inl True"] Inl l have "safe_step lib F V = Inl True" by simp
        with IH[OF s(2)] show ?thesis unfolding Cons by (subst safe_values.simps) simp
      next
        case (Inr needed)
        with 1(2) l(3) have s: "f l G needed = Some True" "f l G Ws = Some True"
          by (auto simp: Cons bind_eq_Some_conv split: if_splits)
        with erase_step[OF assms(2), of lib V "Inr needed"] Inr l have "safe_step lib F V = Inr needed" by simp
        with IH[OF s(1)] IH[OF s(2)] show ?thesis unfolding Cons by (subst safe_values.simps) simp
      qed
    qed
  qed
  then show ?thesis by simp
qed

text \<open>The checks among some instructions none of which has a source taken for safe.\<close>

definition all_needed :: "heap_lib \<Rightarrow> ir_function \<Rightarrow> ir_inst list \<Rightarrow> bool" where
  "all_needed lib F Is \<longleftrightarrow> (\<forall>C\<in>set Is. \<forall>v. check_source F C = Some v \<longrightarrow> isSafeSrcValue lib F v \<noteq> Some True)"

lemma first_safe_none: "first_safe lib F Is = Some None \<Longrightarrow> all_needed lib F Is"
  by (induction Is) (auto simp: all_needed_def compiletime_verification_def bind_eq_Some_conv split: option.splits if_splits)

lemma first_safe_call:
  "first_safe lib F Is = Some (Some i) \<Longrightarrow> \<exists>C\<in>set Is. inst_id C = i \<and> is_call C"
proof (induction Is)
  case (Cons C Is)
  have "check_source F C \<noteq> None \<Longrightarrow> is_call C"
    by (auto simp: check_source_def called_name_def split: inst_op.splits if_splits)
  with Cons show ?case by (auto simp: bind_eq_Some_conv split: option.splits if_splits)
qed simp

lemma erase_check: "check_source (erase_inst i F) C = Some v \<Longrightarrow> check_source F C = Some v"
  using erase_find[of "call_args C ! 0" i F] erase_find_none[of i F]
  by (cases "call_args C ! 0 = Inst i") (auto simp: check_source_def split: if_splits option.splits)

lemma all_needed_erase:
  assumes "all_needed lib F Is" "only_calls i F"
  shows "all_needed lib (erase_inst i F) (filter (\<lambda>I. inst_id I \<noteq> i) Is)"
  unfolding all_needed_def
proof (intro ballI allI impI)
  fix C v
  assume C: "C \<in> set (filter (\<lambda>I. inst_id I \<noteq> i) Is)" "check_source (erase_inst i F) C = Some v"
  have "C \<in> set Is" using C(1) by simp
  with assms(1) erase_check[OF C(2)] have n: "isSafeSrcValue lib F v \<noteq> Some True"
    unfolding all_needed_def by blast
  show "isSafeSrcValue lib (erase_inst i F) v \<noteq> Some True"
    using n erase_safe_values[OF _ assms(2), of lib "[v]"] unfolding isSafeSrcValue_def by blast
qed

abbreviation distinct_ids :: "ir_function \<Rightarrow> bool" where
  "distinct_ids F \<equiv> distinct (map inst_id (insts F))"

lemma erase_blocks: "fun_blocks (erase_inst i F) = map (filter (\<lambda>I. inst_id I \<noteq> i)) (fun_blocks F)"
  by (simp add: erase_inst_def)

lemma erase_distinct: "distinct_ids F \<Longrightarrow> distinct_ids (erase_inst i F)"
proof -
  have "concat (map (filter (\<lambda>I. inst_id I \<noteq> i)) Bs) = filter (\<lambda>I. inst_id I \<noteq> i) (concat Bs)" for Bs
    by (induction Bs) simp_all
  then have e: "insts (erase_inst i F) = filter (\<lambda>I. inst_id I \<noteq> i) (insts F)" by (simp only: erase_blocks)
  show "distinct_ids F \<Longrightarrow> distinct_ids (erase_inst i F)" unfolding e by (rule distinct_map_filter)
qed

abbreviation block_done :: "heap_lib \<Rightarrow> nat \<Rightarrow> ir_function \<Rightarrow> bool" where
  "block_done lib k F \<equiv> k < length (fun_blocks F) \<longrightarrow> all_needed lib F (fun_blocks F ! k)"

lemma block_done_erase:
  assumes "block_done lib k F" "only_calls i F"
  shows "block_done lib k (erase_inst i F)"
  using all_needed_erase[OF _ assms(2)] assms(1) unfolding erase_blocks by simp

lemma verify_block_spec:
  assumes "verify_block lib k S = Some T" "distinct_ids (fst S)" "k < length (fun_blocks (fst S))"
  shows "distinct_ids (fst T) \<and> length (fun_blocks (fst T)) = length (fun_blocks (fst S)) \<and> block_done lib k (fst T) \<and>
    (\<forall>j. block_done lib j (fst S) \<longrightarrow> block_done lib j (fst T))"
proof -
  let ?Q = "\<lambda>S T. distinct_ids (fst T) \<and> length (fun_blocks (fst T)) = length (fun_blocks (fst S)) \<and> block_done lib k (fst T) \<and>
      (\<forall>j. block_done lib j (fst S) \<longrightarrow> block_done lib j (fst T))"
  have "lib = lib \<and> k = k \<longrightarrow> distinct_ids (fst S) \<longrightarrow> k < length (fun_blocks (fst S)) \<longrightarrow> ?Q S T"
  proof (rule verify_block.raw_induct[where P = "\<lambda>l m S T. l = lib \<and> m = k \<longrightarrow> distinct_ids (fst S) \<longrightarrow>
      k < length (fun_blocks (fst S)) \<longrightarrow> ?Q S T", OF _ assms(1)], goal_cases)
  case (1 f l m S T)
  show ?case
  proof (intro impI)
    assume lm: "l = lib \<and> m = k" and d: "distinct_ids (fst S)" and k: "k < length (fun_blocks (fst S))"
    obtain F effs where S: "S = (F, effs)" by force
    from 1(2) lm obtain r where r: "first_safe lib F (fun_blocks F ! k) = Some r"
      and c: "(case r of None \<Rightarrow> Some (F, effs) | Some i \<Rightarrow> f lib k (erase_inst i F, effs @ [EraseCall i])) = Some T"
      by (auto simp: S bind_eq_Some_conv)
    show "distinct_ids (fst T) \<and> length (fun_blocks (fst T)) = length (fun_blocks (fst S)) \<and> block_done lib k (fst T) \<and>
      (\<forall>j. block_done lib j (fst S) \<longrightarrow> block_done lib j (fst T))"
    proof (cases r)
      case None
      with c r first_safe_none[of lib F "fun_blocks F ! k"] d show ?thesis by (auto simp: S)
    next
      case (Some i)
      with r obtain C where C: "C \<in> set (fun_blocks F ! k)" "inst_id C = i" "is_call C" using first_safe_call by blast
      have "C \<in> set (insts F)" using C(1) k by (auto simp: S intro: nth_mem)
      with d C(2,3) have o: "only_calls i F" unfolding only_calls_def S fst_conv distinct_map inj_on_def by blast
      from 1(1)[of lib k "(erase_inst i F, effs @ [EraseCall i])" T] c Some lm erase_distinct[of F i] d k
      have "distinct_ids (fst T) \<and> length (fun_blocks (fst T)) = length (fun_blocks (erase_inst i F)) \<and> block_done lib k (fst T) \<and>
          (\<forall>j. block_done lib j (erase_inst i F) \<longrightarrow> block_done lib j (fst T))"
        by (simp add: S erase_blocks)
      with block_done_erase[OF _ o] show ?thesis by (simp add: S erase_blocks)
    qed
  qed
  qed
  with assms(2,3) show ?thesis by blast
qed

lemma verify_fn_spec:
  assumes "verify_fn lib F (Fs, effs) = Some (Fs', effs')" "distinct_ids F"
  shows "\<exists>G. Fs' = Fs @ [G] \<and> distinct_ids G \<and> all_needed lib G (insts G)"
proof -
  let ?n = "length (fun_blocks F)"
  from assms(1) obtain G where G: "foldO (verify_block lib) [0..<?n] (F, effs) = Some (G, effs')" "Fs' = Fs @ [G]"
    by (auto simp: verify_fn_def)
  have "(distinct_ids (fst (G, effs')) \<and> length (fun_blocks (fst (G, effs'))) = ?n) \<and>
      (\<forall>k\<in>set [0..<?n]. block_done lib k (fst (G, effs'))) \<and>
      (\<forall>k. block_done lib k (fst (F, effs)) \<longrightarrow> block_done lib k (fst (G, effs')))"
  proof (rule foldO_all[where P = "\<lambda>S. distinct_ids (fst S) \<and> length (fun_blocks (fst S)) = ?n" and
        Q = "\<lambda>k S. block_done lib k (fst S)", OF G(1)])
    show "distinct_ids (fst (F, effs)) \<and> length (fun_blocks (fst (F, effs))) = ?n" using assms(2) by simp
  next
    fix k S T
    assume "k \<in> set [0..<?n]" "verify_block lib k S = Some T" "distinct_ids (fst S) \<and> length (fun_blocks (fst S)) = ?n"
    with verify_block_spec[of lib k S T] show "(distinct_ids (fst T) \<and> length (fun_blocks (fst T)) = ?n) \<and>
        block_done lib k (fst T) \<and> (\<forall>k. block_done lib k (fst S) \<longrightarrow> block_done lib k (fst T))" by simp
  qed
  then have d: "distinct_ids G" "\<forall>k<length (fun_blocks G). all_needed lib G (fun_blocks G ! k)" by simp_all
  have "\<forall>B\<in>set (fun_blocks G). all_needed lib G B" using d(2) by (auto simp: in_set_conv_nth)
  then have "all_needed lib G (insts G)" by (simp add: all_needed_def)
  with d(1) G(2) show ?thesis by blast
qed

lemma compile_time_spec:
  assumes "compileTimeVerification lib Fs effs = Some (Fs', effs')" "\<forall>F\<in>set Fs. distinct_ids F"
  shows "\<forall>F\<in>set Fs'. distinct_ids F \<and> all_needed lib F (insts F)"
proof -
  have "\<forall>F\<in>set (fst (Fs', effs')). distinct_ids F \<and> all_needed lib F (insts F)"
  proof (rule foldO_inv[where P = "\<lambda>S. \<forall>F\<in>set (fst S). distinct_ids F \<and> all_needed lib F (insts F)",
        OF assms(1)[unfolded compileTimeVerification_def]])
    fix F S T
    assume a: "F \<in> set Fs" "verify_fn lib F S = Some T" "\<forall>F\<in>set (fst S). distinct_ids F \<and> all_needed lib F (insts F)"
    obtain Gs e where S: "S = (Gs, e)" by force
    obtain Hs e' where T: "T = (Hs, e')" by force
    from verify_fn_spec[of lib F Gs e Hs e'] a assms(2) show "\<forall>F\<in>set (fst T). distinct_ids F \<and> all_needed lib F (insts F)"
      unfolding S T fst_conv by auto
  qed simp
  then show ?thesis by simp
qed

text \<open>
  C40: The compile-time verification leaves no check whose source the test accepts, and so no check of a cast of a
  local variable of structure type, whatever class the variable is cast to: a cast of a local object to a class it
  does not have is not checked any more.
\<close>

theorem local_casts_unchecked:
  assumes "compileTimeVerification lib Fs effs = Some (Fs', effs')" "\<forall>F\<in>set Fs. distinct_ids F"
    "F \<in> set Fs'" "C \<in> set (insts F)" "check_source F C = Some v"
  shows "isSafeSrcValue lib F v \<noteq> Some True \<and>
    (\<forall>I\<in>set (insts F). \<forall>Ty n al. inst_op I = Alloca Ty n al \<and> isInterestingType Ty \<and> is_struct Ty \<longrightarrow> v \<noteq> val_of I)"
proof -
  have d: "distinct_ids F" and n: "isSafeSrcValue lib F v \<noteq> Some True"
    using compile_time_spec[OF assms(1,2)] assms(3-5) by (auto simp: all_needed_def)
  have "v \<noteq> val_of I" if "I \<in> set (insts F)" "inst_op I = Alloca Ty n al" "isInterestingType Ty \<and> is_struct Ty" for I Ty n al
  proof
    assume v: "v = val_of I"
    have "find_inst F v = Some I" using find_distinct[OF d that(1)] by (simp add: find_inst_def v)
    with that(2,3) have "safe_step lib F v = Inl True" by (auto simp: safe_step_def)
    then have "isSafeSrcValue lib F v = Some True"
      unfolding isSafeSrcValue_def by (subst safe_values.simps, simp, subst safe_values.simps, simp)
    with n show False by simp
  qed
  with n show ?thesis by blast
qed

text \<open>A pointer variable that is assigned its own value keeps the test from returning.\<close>

lemma self_assignment_diverges:
  assumes "find_inst F (Inst p) = Some P" "inst_op P = Alloca (PointerTy s) n al" "stored_values F (Inst p) = Inst l # Vs"
    "find_inst F (Inst l) = Some L" "inst_op L = Load (Inst p)"
  shows "isSafeSrcValue lib F (Inst l) = None"
proof -
  have loc: "isLocalPointer F (Inst p)" using assms(1,2) by (simp add: isLocalPointer_def)
  have step: "safe_step lib F (Inst l) = Inr (Inst l # Vs)" using assms(3-5) loc by (auto simp: safe_step_def)
  have never: "\<not> (l' = lib \<and> G = F \<and> Vs' \<noteq> [] \<and> hd Vs' = Inst l)" if "safe_values l' G Vs' = Some b" for l' G Vs' b
  proof (rule safe_values.raw_induct[where P = "\<lambda>l' G Vs' b. \<not> (l' = lib \<and> G = F \<and> Vs' \<noteq> [] \<and> hd Vs' = Inst l)", OF _ that],
      goal_cases)
    case (1 f l' G Vs' b)
    show ?case
    proof
      assume a: "l' = lib \<and> G = F \<and> Vs' \<noteq> [] \<and> hd Vs' = Inst l"
      then obtain Ws where "Vs' = Inst l # Ws" by (cases Vs') auto
      with 1(2) a step obtain c where "f lib F (Inst l # Vs) = Some c" by (auto simp: bind_eq_Some_conv)
      with 1(1) show False by fastforce
    qed
  qed
  show ?thesis
    unfolding isSafeSrcValue_def using never[of lib F "[Inst l]"] by (cases "safe_values lib F [Inst l]") auto
qed

section \<open>Examples\<close>

definition no_heap :: heap_lib where
  "no_heap = \<lparr>isAllocationFn = \<lambda>I. False, isMallocLikeFn = \<lambda>I. False, isCallocLikeFn = \<lambda>I. False,
     isAllocLikeFn = \<lambda>I. False, isFreeCall = \<lambda>I. False, getMallocAllocatedType = \<lambda>I. None,
     cxa_demangle = \<lambda>s. None, module_globals = []\<rparr>"

lemma demo_safe: "isSafeSrcValue no_heap demo_check_fn (Inst 2) = Some True"
proof -
  have "safe_step no_heap demo_check_fn (Inst 2) = Inl True" by code_simp
  then show ?thesis
    unfolding isSafeSrcValue_def by (subst safe_values.simps, simp, subst safe_values.simps, simp)
qed

text \<open>A function that keeps the address of a global variable in a variable, and one that reads through its argument.\<close>

definition demo_pointer_fn :: ir_function where
  "demo_pointer_fn = \<lparr>fun_name = ''p'', fun_args = [], fun_blocks =
     [[\<lparr>inst_id = 2, inst_op = Alloca (PointerTy 0) (ConstInt 1) 8, is_pointer = True\<rparr>,
       \<lparr>inst_id = 3, inst_op = Store (Global 7) (Inst 2), is_pointer = False\<rparr>,
       \<lparr>inst_id = 4, inst_op = Load (Inst 2), is_pointer = True\<rparr>,
       \<lparr>inst_id = 5, inst_op = Load (Arg 0), is_pointer = True\<rparr>]]\<rparr>"

abbreviation demo_globals :: heap_lib where
  "demo_globals \<equiv> no_heap\<lparr>module_globals := [7]\<rparr>"

lemma demo_sources:
  "isSafeSrcValue demo_globals demo_pointer_fn (Inst 4) = Some True"
  "isSafeSrcValue demo_globals demo_pointer_fn (Inst 5) = Some False"
proof -
  have step: "safe_step demo_globals demo_pointer_fn (Inst 4) = Inr [Global 7]"
    "safe_step demo_globals demo_pointer_fn (Global 7) = Inl True" "safe_step demo_globals demo_pointer_fn (Inst 5) = Inl False"
    by code_simp+
  have nil: "safe_values demo_globals demo_pointer_fn [] = Some True" by (subst safe_values.simps) simp
  have "safe_values demo_globals demo_pointer_fn [Global 7] = Some True" by (subst safe_values.simps) (simp add: step nil)
  then show "isSafeSrcValue demo_globals demo_pointer_fn (Inst 4) = Some True"
    unfolding isSafeSrcValue_def by (subst safe_values.simps) (simp add: step nil)
  show "isSafeSrcValue demo_globals demo_pointer_fn (Inst 5) = Some False"
    unfolding isSafeSrcValue_def by (subst safe_values.simps) (simp add: step)
qed

lemma isSafeSrcValue_iff_witness:
  "(\<nexists>R. stems_from demo_pointer_fn (Inst 4) R \<and> \<not> known_object demo_globals demo_pointer_fn R) \<and>
   (\<exists>R. stems_from demo_pointer_fn (Inst 5) R \<and> \<not> known_object demo_globals demo_pointer_fn R)"
  using isSafeSrcValue_iff[OF demo_sources(1)] isSafeSrcValue_iff[OF demo_sources(2)] by blast

abbreviation demo_check :: ir_inst where
  "demo_check \<equiv> \<lparr>inst_id = 3,
     inst_op = Call (Direct ''__bitype_cast_verification'') [Inst 2, Inst 2, ConstInt 0, ConstInt 2, ConstInt 0],
     is_pointer = False\<rparr>"

definition demo_param_fn :: ir_function where
  "demo_param_fn = \<lparr>fun_name = ''g'', fun_args = [\<lparr>hasByValAttr = False, pointee = demo_B\<rparr>], fun_blocks =
     [[\<lparr>inst_id = 2, inst_op = PtrToInt (Arg 0), is_pointer = False\<rparr>, demo_check]]\<rparr>"

lemma demo_param_unsafe: "isSafeSrcValue no_heap demo_param_fn (Arg 0) = Some False"
proof -
  have "safe_step no_heap demo_param_fn (Arg 0) = Inl False" by code_simp
  then show ?thesis unfolding isSafeSrcValue_def by (subst safe_values.simps) simp
qed

lemma demo_param_source:
  "check_source demo_param_fn demo_check = Some (Arg 0)"
  "check_source demo_param_fn \<lparr>inst_id = 2, inst_op = PtrToInt (Arg 0), is_pointer = False\<rparr> = None"
  by code_simp+

lemma local_casts_unchecked_witness:
  "compileTimeVerification no_heap [demo_param_fn] [] = Some ([demo_param_fn], []) \<and>
     isSafeSrcValue no_heap demo_param_fn (Arg 0) \<noteq> Some True"
proof -
  have b: "fun_blocks demo_param_fn = [[\<lparr>inst_id = 2, inst_op = PtrToInt (Arg 0), is_pointer = False\<rparr>, demo_check]]"
    by (simp add: demo_param_fn_def)
  have "first_safe no_heap demo_param_fn (fun_blocks demo_param_fn ! 0) = Some None"
    unfolding b by (simp add: demo_param_source compiletime_verification_def demo_param_unsafe)
  then have "verify_block no_heap 0 (demo_param_fn, []) = Some (demo_param_fn, [])"
    by (subst verify_block.simps) simp
  moreover have "length (fun_blocks demo_param_fn) = 1" unfolding b by simp
  ultimately have c: "compileTimeVerification no_heap [demo_param_fn] [] = Some ([demo_param_fn], [])"
    by (simp add: compileTimeVerification_def verify_fn_def)
  have "\<forall>F\<in>set [demo_param_fn]. distinct_ids F" by (simp add: b)
  with local_casts_unchecked[OF c this _ _ demo_param_source(1)] c show ?thesis by (simp add: b)
qed

end
