(* ===== verification/ToolFiles.thy ===== *)
theory ToolFiles
  imports FilesRoundtrip ClassCodes ClangCast
begin

text \<open>
  The tables of the class finder as the readers of its files see them: the look-up of a name in each table of the
  passes and of Clang, in terms of the tables the tool had at the end of its run.
\<close>

section \<open>Numbers by name\<close>

definition number_of :: "class_db \<Rightarrow> (nat, nat) smap \<Rightarrow> string \<Rightarrow> nat option" where
  "number_of db result n = Option.bind (map_find (classCode db) n) (map_find result)"

lemma map_of_functional:
  assumes "\<And>k k'. (n, k) \<in> set xs \<Longrightarrow> (n, k') \<in> set xs \<Longrightarrow> k = k'"
  shows "map_of xs n = Some k \<longleftrightarrow> (n, k) \<in> set xs"
proof
  assume k: "(n, k) \<in> set xs"
  then obtain k' where k': "map_of xs n = Some k'" using weak_map_of_SomeI by fast
  with assms[OF k map_of_SomeD[OF k']] show "map_of xs n = Some k" by simp
qed (rule map_of_SomeD)

text \<open>Rows of a file: every numbered class whose name and number the writer lets through.\<close>

lemma map_of_rows:
  assumes "names_ok db" "smap_ok result"
    and rows: "set rs = {(c, n, k). (c, k) \<in> set result \<and> map_find (numberName db) c = Some n \<and> Q n k}"
  shows "map_of (map snd rs) n = (case number_of db result n of Some k \<Rightarrow> if Q n k then Some k else None | None \<Rightarrow> None)"
proof -
  have names: "map_find (numberName db) c = Some m \<longleftrightarrow> map_find (classCode db) m = Some c" for c m
    using assms(1) by (simp add: names_ok_def)
  have row: "(c, n, k) \<in> set rs \<longleftrightarrow> map_find (classCode db) n = Some c \<and> map_find result c = Some k \<and> Q n k" for c k
    using smap_ok_map_of_iff[OF assms(2), of c k] by (auto simp: rows names)
  have in_rows: "(n, k) \<in> set (map snd rs) \<longleftrightarrow> number_of db result n = Some k \<and> Q n k" for k
  proof -
    have "(n, k) \<in> set (map snd rs) \<longleftrightarrow> (\<exists>c. (c, n, k) \<in> set rs)" by force
    also have "\<dots> \<longleftrightarrow> (\<exists>c. map_find (classCode db) n = Some c \<and> map_find result c = Some k) \<and> Q n k"
      unfolding row by blast
    finally show ?thesis by (auto simp: number_of_def bind_eq_Some_conv)
  qed
  have eq: "map_of (map snd rs) n = Some k \<longleftrightarrow> number_of db result n = Some k \<and> Q n k" for k
    using map_of_functional[of n "map snd rs" k] unfolding in_rows by simp
  show ?thesis
  proof (cases "map_of (map snd rs) n")
    case None
    with eq have "\<not> (number_of db result n = Some k \<and> Q n k)" for k by simp
    with None show ?thesis by (simp split: option.split)
  next
    case (Some k)
    with eq[of k] show ?thesis by simp
  qed
qed

section \<open>The file of codes\<close>

definition short_numbers :: "(nat, nat) smap \<Rightarrow> bool" where
  "short_numbers result \<longleftrightarrow> smap_ok result \<and> (\<forall>(c, k)\<in>set result. k < 2 ^ 31)"

definition clean_names :: "class_db \<Rightarrow> bool" where
  "clean_names db \<longleftrightarrow> (\<forall>(c, n)\<in>set (numberName db). clean_name n)"

lemma clean_rows:
  assumes "short_numbers result" "clean_names db"
    "\<forall>(c, n, k)\<in>set rs. (c, k) \<in> set result \<and> map_find (numberName db) c = Some n"
  shows "\<forall>(n, k)\<in>set (map snd rs). clean_name n \<and> k < 2 ^ 31"
  using assms by (fastforce simp: short_numbers_def clean_names_def dest!: map_of_SomeD)

lemma code_file_tables:
  assumes "names_ok db" "short_numbers result" "clean_names db" "opens f"
    "outputCodeResult opens db result f fs = Inr fs'"
  shows "\<exists>file m. fs' = fs(f \<mapsto> file) \<and> createCodeMap file = Inr m \<and>
    (\<forall>n. map_find (bitypeCodeMap (readCodeMap file empty_maps)) n = map_option int (number_of db result n) \<and>
         map_find m n = map_option of_nat (number_of db result n))"
proof -
  obtain rs where r: "result = map (\<lambda>(c, p). (c, snd p)) rs"
    "\<forall>(c, p)\<in>set rs. map_find (numberName db) c = Some (fst p)" "fs' f = Some (code_file (map snd rs))"
    using outputCodeResult_file[OF assms(5,4)] .
  have fs: "fs' = fs(f \<mapsto> code_file (map snd rs))"
    using assms(4,5) r(3) by (auto simp: outputCodeResult_def bindR_Inr_iff)
  have rows: "set rs = {(c, n, k). (c, k) \<in> set result \<and> map_find (numberName db) c = Some n \<and> True}"
    using r(2) by (force simp: r(1))
  have look: "map_of (map snd rs) n = number_of db result n" for n
    using map_of_rows[OF assms(1) _ rows, of n] assms(2) by (simp add: short_numbers_def split: option.split)
  have clean: "\<forall>(n, k)\<in>set (map snd rs). clean_name n \<and> k < 2 ^ 31"
    by (rule clean_rows[OF assms(2,3)]) (use rows in auto)
  from createCodeMap_roundtrip[OF clean] obtain m where
    "createCodeMap (code_file (map snd rs)) = Inr m" "map_find m = map_of (map (\<lambda>(n, k). (n, of_nat k)) (map snd rs))"
    by blast
  with fs readCodeMap_back[OF clean] show ?thesis
    by (intro exI[of _ "code_file (map snd rs)"] exI[of _ m]) (simp only: map_of_map_vals look simp_thms)
qed

section \<open>The file of related classes\<close>

text \<open>The classes that get a line: related to a cast and in a family with a code.\<close>

definition related_number :: "class_db \<Rightarrow> (nat, nat) smap \<Rightarrow> string \<Rightarrow> nat option" where
  "related_number db related n =
     (case number_of db related n of
        Some k \<Rightarrow> if n \<in> set (castrelatedClass db) \<and> 0 < k then Some k else None | None \<Rightarrow> None)"

abbreviation related_line :: "class_db \<Rightarrow> nat \<times> nat \<Rightarrow> string \<times> string \<Rightarrow> tool_error + string \<times> string" where
  "related_line db \<equiv> \<lambda>(currentClass, size) (out, out2).
      case map_find (numberName db) currentClass of
        None \<Rightarrow> Inl (ToolExit (-1))
      | Some className \<Rightarrow>
          if className \<notin> set (castrelatedClass db) then Inr (out, out2)
          else if size > 0
          then Inr (out @ className @ '','' @ digits_of size @ newline,
                    (case map_find (classSize db) className of
                       None \<Rightarrow> out2
                     | Some a \<Rightarrow> out2 @ className @ '' : '' @ print_int a @ newline))
          else Inr (out, out2)"

definition related_row :: "class_db \<Rightarrow> nat \<Rightarrow> string \<Rightarrow> nat \<Rightarrow> bool" where
  "related_row db c n k \<longleftrightarrow> map_find (numberName db) c = Some n \<and> n \<in> set (castrelatedClass db) \<and> 0 < k"

lemma related_line_step:
  assumes "related_line db (c, k) r = Inr r'"
  shows "\<exists>n. map_find (numberName db) c = Some n \<and>
    fst r' = (if related_row db c n k then fst r @ code_line (n, k) @ newline else fst r)"
proof -
  obtain out out2 where r: "r = (out, out2)" by force
  show ?thesis
  proof (cases "map_find (numberName db) c")
    case (Some n)
    have "fst r' = (if n \<in> set (castrelatedClass db) \<and> 0 < k then fst r @ code_line (n, k) @ newline else fst r)"
      using assms unfolding r prod.case Some option.case
      by (cases "n \<in> set (castrelatedClass db)"; cases "0 < k") (auto simp: code_line_def)
    with Some show ?thesis by (simp add: related_row_def)
  qed (use assms in \<open>simp add: r\<close>)
qed

lemma related_lines_written:
  assumes "foldR (related_line db) result r = Inr r'" "distinct (map fst result)"
  shows "\<exists>rs. set rs = {(c, n, k). (c, k) \<in> set result \<and> related_row db c n k} \<and> distinct (map fst rs) \<and>
    fst r' = fst r @ code_file (map snd rs)"
  using assms
proof (induction result arbitrary: r)
  case Nil
  then show ?case by (intro exI[of _ "[]"]) (simp add: code_file_def)
next
  case (Cons p result)
  obtain c k where p: "p = (c, k)" by force
  from Cons.prems obtain t where t: "related_line db (c, k) r = Inr t" "foldR (related_line db) result t = Inr r'"
    by (auto simp: p split: sum.splits)
  from related_line_step[OF t(1)] obtain n where n: "map_find (numberName db) c = Some n"
    "fst t = (if related_row db c n k then fst r @ code_line (n, k) @ newline else fst r)" by blast
  from Cons.prems(2) p have fresh: "c \<notin> fst ` set result" and d: "distinct (map fst result)" by simp_all
  from Cons.IH[OF t(2) d] obtain rs where rs: "set rs = {(c, n, k). (c, k) \<in> set result \<and> related_row db c n k}"
    "fst r' = fst t @ code_file (map snd rs)" "distinct (map fst rs)" by blast
  have own: "related_row db c n' k \<longleftrightarrow> n' = n \<and> related_row db c n k" for n'
    using n(1) by (auto simp: related_row_def)
  let ?rs = "(if related_row db c n k then [(c, n, k)] else []) @ rs"
  have "set ?rs = {(c, n, k). (c, k) \<in> set (p # result) \<and> related_row db c n k}"
    unfolding p list.set insert_iff set_append rs(1) using own
    by (cases "related_row db c n k") (auto simp del: not_gr_zero)
  moreover have "distinct (map fst ?rs)" using rs(1,3) fresh by force
  moreover have "fst r' = fst r @ code_file (map snd ?rs)" by (simp add: rs(2) n(2) code_file_def)
  ultimately show ?case by blast
qed

lemma related_file:
  assumes "outputCastedRelatedSet opens db result f f2 fs = Inr (r, fs')" "opens f" "opens f2" "f2 \<noteq> f"
    "distinct (map fst result)"
  obtains rs where "distinct (map fst rs)" "set rs = {(c, n, k). (c, k) \<in> set result \<and> related_row db c n k}" "fs' f = Some (code_file (map snd rs))"
    "\<And>g. g \<noteq> f \<Longrightarrow> g \<noteq> f2 \<Longrightarrow> fs' g = fs g"
proof -
  from assms(1-3) obtain out where out: "foldR (related_line db) result ([], []) = Inr out"
    "fs' = fs(f \<mapsto> fst out, f2 \<mapsto> snd out)"
    unfolding outputCastedRelatedSet_def by (auto simp: bindR_Inr_iff)
  from related_lines_written[OF out(1) assms(5)] that out(2) assms(4) show ?thesis by fastforce
qed

section \<open>The class indices\<close>

text \<open>The readers count the lines of the file of related classes; the first line of a name gives its index.\<close>

abbreviation read_related_line :: "string \<Rightarrow> code_maps \<times> nat \<Rightarrow> code_maps \<times> nat" where
  "read_related_line \<equiv> \<lambda>I (u, currentIndex).
       if I = [] then (u, currentIndex)
       else let SplitLine = split CHR '','' I in
         case getAsInteger 10 (snd SplitLine) of
           None \<Rightarrow> (u, currentIndex)
         | Some code \<Rightarrow>
             (u\<lparr>bitypeCastRelatedClass := map_insert (fst SplitLine) code (bitypeCastRelatedClass u),
                bitypeClassIndexSet := map_insert currentIndex (fst SplitLine) (bitypeClassIndexSet u),
                bitypeClassIndexSet2 := map_insert (fst SplitLine) currentIndex (bitypeClassIndexSet2 u)\<rparr>,
              (currentIndex + 1) mod 2 ^ 32)"

lemma readRelatedClass_lines:
  assumes "\<forall>(n, k)\<in>set rs. clean_name n \<and> k < 2 ^ 31" "i + length rs < 2 ^ 32"
  shows "fst (fold read_related_line (map code_line rs) (u, i)) =
    u\<lparr>bitypeCastRelatedClass := fold (\<lambda>(n, k). map_insert n k) (map (\<lambda>(n, k). (n, int k)) rs) (bitypeCastRelatedClass u),
      bitypeClassIndexSet := fold (\<lambda>(i, n). map_insert i n) (map (\<lambda>(i, n, _). (i, n)) (enumerate i rs)) (bitypeClassIndexSet u),
      bitypeClassIndexSet2 := fold (\<lambda>(n, i). map_insert n i) (map (\<lambda>(i, n, _). (n, i)) (enumerate i rs)) (bitypeClassIndexSet2 u)\<rparr>"
  using assms
proof (induction rs arbitrary: u i)
  case (Cons r rs)
  obtain n k where r: "r = (n, k)" by force
  with Cons.prems have n: "clean_name n" "getAsInteger 10 (digits_of k) = Some (int k)" by (simp_all add: getAsInteger_digits)
  moreover have "(i + 1) mod 2 ^ 32 = Suc i" using Cons.prems(2) by simp
  ultimately show ?case using Cons by (simp add: r split_code_line[OF n(1)] code_line_ne Let_def)
qed simp

lemma getClassIndex_lines:
  assumes "\<forall>(n, k)\<in>set rs. clean_name n" "i + length rs < 2 ^ 32"
  shows "fst (fold (\<lambda>I (result, currentIndex).
       if I = [] then (result, currentIndex)
       else (map_insert (fst (split CHR '','' I)) currentIndex result, (currentIndex + 1) mod 2 ^ 32)) (map code_line rs) (m, i)) =
    fold (\<lambda>(n, i). map_insert n i) (map (\<lambda>(i, n, _). (n, i)) (enumerate i rs)) m"
  using assms
proof (induction rs arbitrary: m i)
  case (Cons r rs)
  obtain n k where r: "r = (n, k)" by force
  moreover have "(i + 1) mod 2 ^ 32 = Suc i" using Cons.prems(2) by simp
  ultimately show ?case using Cons by (simp add: split_code_line code_line_ne)
qed simp

text \<open>Rows with different names: the index of a name is the number of its row, and the two maps are inverse.\<close>

lemma enumerate_lookup:
  assumes "distinct (map fst ps)"
  shows "map_of (map (\<lambda>(i, n, _). (n, i)) (enumerate 0 ps)) n = Some i \<longleftrightarrow> i < length ps \<and> fst (ps ! i) = n"
    "map_of (map (\<lambda>(i, n, _). (i, n)) (enumerate 0 ps)) i = Some n \<longleftrightarrow> i < length ps \<and> fst (ps ! i) = n"
proof -
  have one: "j = i" if "i < length ps" "j < length ps" "fst (ps ! j) = fst (ps ! i)" for i j
    using nth_eq_iff_index_eq[OF assms, of j i] that by simp
  have el: "(n, i) \<in> set (map (\<lambda>(i, n, _). (n, i)) (enumerate 0 ps)) \<longleftrightarrow> i < length ps \<and> fst (ps ! i) = n" for n i
    by (auto simp: in_set_enumerate_eq image_iff split_beta Bex_def prod_eq_iff)
  have el2: "(i, n) \<in> set (map (\<lambda>(i, n, _). (i, n)) (enumerate 0 ps)) \<longleftrightarrow> i < length ps \<and> fst (ps ! i) = n" for n i
    by (auto simp: in_set_enumerate_eq image_iff split_beta Bex_def prod_eq_iff)
  show "map_of (map (\<lambda>(i, n, _). (n, i)) (enumerate 0 ps)) n = Some i \<longleftrightarrow> i < length ps \<and> fst (ps ! i) = n"
    unfolding el[symmetric] by (rule map_of_functional) (use el one in auto)
  show "map_of (map (\<lambda>(i, n, _). (i, n)) (enumerate 0 ps)) i = Some n \<longleftrightarrow> i < length ps \<and> fst (ps ! i) = n"
    unfolding el2[symmetric] by (rule map_of_functional) (use el2 in auto)
qed

lemma related_file_tables:
  assumes "names_ok db" "short_numbers result" "clean_names db" "opens f" "opens f2" "f2 \<noteq> f"
    "currentIndex db < 2 ^ 32" "outputCastedRelatedSet opens db result f f2 fs = Inr (r, fs')"
  shows "\<exists>file. fs' f = Some file \<and> (\<forall>g. g \<noteq> f \<longrightarrow> g \<noteq> f2 \<longrightarrow> fs' g = fs g) \<and>
    (\<forall>n. map_find (bitypeCastRelatedClass (readRelatedClass file empty_maps)) n = map_option int (related_number db result n)) \<and>
    bitypeClassIndexSet2 (readRelatedClass file empty_maps) = getClassIndex file \<and>
    (\<forall>n. map_has (getClassIndex file) n \<longleftrightarrow> related_number db result n \<noteq> None) \<and>
    (\<forall>i n. map_find (bitypeClassIndexSet (readRelatedClass file empty_maps)) i = Some n \<longleftrightarrow>
       map_find (getClassIndex file) n = Some i)"
proof -
  from assms(2) have ok: "smap_ok result" by (simp add: short_numbers_def)
  obtain rs where rs: "distinct (map fst rs)" "set rs = {(c, n, k). (c, k) \<in> set result \<and> related_row db c n k}"
    "fs' f = Some (code_file (map snd rs))" "\<And>g. g \<noteq> f \<Longrightarrow> g \<noteq> f2 \<Longrightarrow> fs' g = fs g"
    by (rule related_file[OF assms(8,4-6) smap_ok_distinct[OF ok]]) (rule that; blast)
  have rows: "set rs = {(c, n, k). (c, k) \<in> set result \<and> map_find (numberName db) c = Some n \<and>
      (n \<in> set (castrelatedClass db) \<and> 0 < k)}"
    by (simp only: rs(2) related_row_def)
  have look: "map_of (map snd rs) n = related_number db result n" for n
    using map_of_rows[OF assms(1) _ rows, of n] assms(2) by (simp add: short_numbers_def related_number_def)
  have clean: "\<forall>(n, k)\<in>set (map snd rs). clean_name n \<and> k < 2 ^ 31"
    by (rule clean_rows[OF assms(2,3)]) (use rows in auto)
  then have names: "\<forall>(n, k)\<in>set (map snd rs). clean_name n" by auto
  have code: "map_find (numberName db) c = Some n" if "(c, n, k) \<in> set rs" for c n k using that rows by simp
  moreover have names_back: "map_find (numberName db) i = Some n \<longleftrightarrow> map_find (classCode db) n = Some i" for i n
    using assms(1) unfolding names_ok_def by blast
  ultimately have "fst ` set rs \<subseteq> {..<currentIndex db}" using assms(1) by (fastforce simp: names_ok_def)
  from card_mono[OF _ this] have "length rs \<le> currentIndex db" using distinct_card[OF rs(1)] by simp
  then have len: "0 + length (map snd rs) < 2 ^ 32" using assms(7) by simp
  have "inj_on (\<lambda>r. fst (snd r)) (set rs)"
  proof (rule inj_onI)
    fix x y assume x: "x \<in> set rs" "y \<in> set rs" "fst (snd x) = fst (snd y)"
    obtain c n k where X: "x = (c, n, k)" by (rule prod_cases3)
    obtain c' n' k' where Y: "y = (c', n', k')" by (rule prod_cases3)
    have "map_find (numberName db) c = Some n" "map_find (numberName db) c' = Some n"
      using code[of c n k] code[of c' n' k'] x X Y by simp_all
    with names_back[of c n] names_back[of c' n] have "fst x = fst y" using X Y by simp
    with rs(1) x(1,2) show "x = y" by (simp add: distinct_map inj_on_def)
  qed
  moreover have "distinct rs" using rs(1) by (simp add: distinct_map)
  ultimately have dist: "distinct (map fst (map snd rs))" by (simp add: distinct_map o_def)
  note lines = getlines_code_file[OF names]
  have read: "readRelatedClass (code_file (map snd rs)) empty_maps = empty_maps
    \<lparr>bitypeCastRelatedClass := fold (\<lambda>(n, k). map_insert n k) (map (\<lambda>(n, k). (n, int k)) (map snd rs)) [],
     bitypeClassIndexSet := fold (\<lambda>(i, n). map_insert i n) (map (\<lambda>(i, n, _). (i, n)) (enumerate 0 (map snd rs))) [],
     bitypeClassIndexSet2 := getClassIndex (code_file (map snd rs))\<rparr>"
    unfolding readRelatedClass_def getClassIndex_def lines readRelatedClass_lines[OF clean len] getClassIndex_lines[OF names len]
    by (simp add: empty_maps_def)
  have "map_find (bitypeCastRelatedClass (readRelatedClass (code_file (map snd rs)) empty_maps)) n =
      map_option int (related_number db result n)" for n
    unfolding read by (simp del: map_map add: map_of_fold_insert map_of_map_vals look)
  moreover have "bitypeClassIndexSet2 (readRelatedClass (code_file (map snd rs)) empty_maps) =
      getClassIndex (code_file (map snd rs))" unfolding read by simp
  moreover have idx: "map_find (getClassIndex (code_file (map snd rs))) n = Some i \<longleftrightarrow>
      i < length (map snd rs) \<and> fst (map snd rs ! i) = n" for n i
    unfolding getClassIndex_def lines getClassIndex_lines[OF names len] map_of_fold_insert by (rule enumerate_lookup(1)[OF dist])
  moreover have "map_find (bitypeClassIndexSet (readRelatedClass (code_file (map snd rs)) empty_maps)) i = Some n \<longleftrightarrow>
      i < length (map snd rs) \<and> fst (map snd rs ! i) = n" for n i
    unfolding read using enumerate_lookup(2)[OF dist] by (simp del: map_map add: map_of_fold_insert)
  moreover have "map_has (getClassIndex (code_file (map snd rs))) n \<longleftrightarrow> related_number db result n \<noteq> None" for n
  proof -
    have "map_has (getClassIndex (code_file (map snd rs))) n \<longleftrightarrow>
        (\<exists>i. map_find (getClassIndex (code_file (map snd rs))) n = Some i)" by (rule not_None_eq)
    also have "\<dots> \<longleftrightarrow> n \<in> set (map fst (map snd rs))" unfolding idx in_set_conv_nth by (simp only: length_map) (metis nth_map length_map)
    also have "\<dots> \<longleftrightarrow> map_has (map snd rs) n" unfolding map_of_eq_None_iff by (simp only: set_map not_not)
    finally show ?thesis unfolding look .
  qed
  ultimately show ?thesis using rs(3,4) by blast
qed

section \<open>The file of cast locations\<close>

definition clean_locations :: "class_db \<Rightarrow> bool" where
  "clean_locations db \<longleftrightarrow> (\<forall>l\<in>set (downCastLoc db). clean_name l) \<and> length (downCastLoc db) < 2 ^ 31"

lemma location_lines:
  "fst (fold (\<lambda>tempLoc (out, i). (out @ tempLoc @ '','' @ digits_of i @ newline, i + 1)) ls (out, i)) =
    out @ code_file (map (\<lambda>(i, l). (l, i)) (enumerate i ls))"
  by (induction ls arbitrary: out i) (simp_all add: code_file_def code_line_def)

lemma getDebugInfo_back:
  assumes "\<forall>(n, k)\<in>set rs. clean_name n \<and> k < 2 ^ 31"
  shows "\<exists>m. getDebugInfo (code_file rs) = Inr m \<and> map_find m = map_of (map (\<lambda>(n, k). (n, of_nat k)) rs)"
proof -
  have step: "foldR (\<lambda>I result.
       if I = [] then Inr result
       else let SplitLine = split CHR '','' I in
         bindR (stoi (snd SplitLine)) (\<lambda>codeNum1.
           Inr (map_insert (fst SplitLine) (word_of_int codeNum1) result)))
       (map code_line rs) m = Inr (fold (\<lambda>(n, k). map_insert n k) (map (\<lambda>(n, k). (n, of_nat k)) rs) m)"
    for m :: "(string, 32 word) smap"
    using assms
  proof (induction rs arbitrary: m)
    case (Cons r rs)
    obtain n k where r: "r = (n, k)" by force
    with Cons.prems have n: "clean_name n" "k < 2 ^ 31" by simp_all
    with Cons stoi_digits[OF n(2)] show ?case by (simp add: r split_code_line[OF n(1)] code_line_ne Let_def)
  qed simp
  have "getlines (code_file rs) = map code_line rs" by (rule getlines_code_file) (use assms in auto)
  then show ?thesis by (simp only: getDebugInfo_def step) (simp add: map_of_fold_insert)
qed

lemma location_file:
  assumes "clean_locations db" "sset_ok (downCastLoc db)" "opens f"
  shows "\<exists>file m. outputDownCastLoc opens db f fs = (1, fs(f \<mapsto> file)) \<and> getDebugInfo file = Inr m \<and>
    (\<forall>i<length (downCastLoc db). map_find m (downCastLoc db ! i) = Some (of_nat i))"
proof -
  let ?ls = "downCastLoc db" and ?rs = "map (\<lambda>(i, l). (l, i)) (enumerate 0 (downCastLoc db))"
  have d: "distinct ?ls" by (rule sset_ok_distinct[OF assms(2)])
  have "\<forall>(n, k)\<in>set ?rs. clean_name n \<and> k < 2 ^ 31"
    using assms(1) by (fastforce simp: clean_locations_def in_set_enumerate_eq)
  from getDebugInfo_back[OF this] obtain m where m: "getDebugInfo (code_file ?rs) = Inr m"
    "map_find m = map_of (map (\<lambda>(n, k). (n, of_nat k)) ?rs)" by blast
  have "map_find m (?ls ! i) = Some (of_nat i)" if "i < length ?ls" for i
  proof -
    have "map_of ?rs (?ls ! i) = Some i \<longleftrightarrow> (?ls ! i, i) \<in> set ?rs"
      using nth_eq_iff_index_eq[OF d] by (intro map_of_functional) (auto simp: in_set_enumerate_eq, metis)
    moreover have "(?ls ! i, i) \<in> set ?rs" using that by (force simp: in_set_enumerate_eq)
    ultimately show ?thesis unfolding m(2) map_of_map_vals by simp
  qed
  moreover have "outputDownCastLoc opens db f fs = (1, fs(f \<mapsto> code_file ?rs))"
    using assms(3) location_lines[of ?ls "[]" 0] by (simp add: outputDownCastLoc_def)
  ultimately show ?thesis using m(1) by blast
qed

text \<open>The locations stay a set while the tool runs; only a down-cast adds one.\<close>

lemma class_index_locs: "downCastLoc (snd (class_index n db)) = downCastLoc db"
  by (simp add: class_index_def split: option.split)

lemma class_index_checked_locs:
  "class_index_checked n db = Inr r \<Longrightarrow> downCastLoc (snd r) = downCastLoc db"
  by (auto simp: class_index_checked_def Let_def split: option.splits if_splits)

lemma mark_locs:
  "mark_graph i j db = Inr db' \<Longrightarrow> downCastLoc db' = downCastLoc db"
  "mark_family i j db = Inr db' \<Longrightarrow> downCastLoc db' = downCastLoc db"
  "mark_phantoms i j db = Inr db' \<Longrightarrow> downCastLoc db' = downCastLoc db"
  by (auto simp: mark_graph_def mark_family_def mark_phantoms_def bindR_Inr_iff)

lemma merge_locs: "downCastLoc (merge_relation n bs db) = downCastLoc db"
  by (simp add: merge_relation_def split: option.split)

lemma visit_base_locs:
  assumes "visit_base r i b (db, bs) = Inr t"
  shows "downCastLoc (fst t) = downCastLoc db"
proof -
  obtain j u where ci: "class_index (getName b) db = (j, u)" by force
  have "downCastLoc u = downCastLoc db" using class_index_locs[of "getName b" db] ci by simp
  moreover have "fst t = db \<or> (\<exists>v w x y. mark_graph j i u = Inr v \<and> mark_graph i j v = Inr w \<and> mark_family j i w = Inr x \<and>
      mark_family i j x = Inr y \<and> (fst t = y \<or> (\<exists>z. mark_phantoms j i y = Inr z \<and> mark_phantoms i j z = Inr (fst t))))"
    using assms unfolding visit_base_def prod.case Let_def ci by (auto simp: bindR_Inr_iff split: if_splits)
  ultimately show ?thesis using mark_locs by metis
qed

lemma relate_base_locs:
  assumes "relate_base r i b (db, bs) = Inr t"
  shows "downCastLoc (fst t) = downCastLoc db"
proof -
  obtain j u where ci: "class_index (getName b) db = (j, u)" by force
  have "downCastLoc u = downCastLoc db" using class_index_locs[of "getName b" db] ci by simp
  moreover have "(\<exists>v w x y. mark_graph i i u = Inr v \<and> mark_graph j i v = Inr w \<and> mark_family j i w = Inr x \<and>
      mark_family i j x = Inr y \<and> (fst t = y \<or> (\<exists>z. mark_phantoms i j y = Inr z \<and> mark_phantoms j i z = Inr (fst t))))"
    using assms unfolding relate_base_def prod.case Let_def ci by (auto simp: bindR_Inr_iff split: if_splits)
  ultimately show ?thesis using mark_locs by metis
qed

lemma foldR_locs:
  assumes "foldR f xs s = Inr t" "\<And>x s t. f x s = Inr t \<Longrightarrow> downCastLoc (g t) = downCastLoc (g s)"
  shows "downCastLoc (g t) = downCastLoc (g s)"
  by (rule foldR_inv[where P = "\<lambda>u. downCastLoc (g u) = downCastLoc (g s)", OF assms(1)]) (use assms(2) in auto)

lemma visit_field_locs: "visit_field n FD db = Inr db' \<Longrightarrow> downCastLoc db' = downCastLoc db"
  by (auto simp: visit_field_def Let_def bindR_Inr_iff split: prod.splits if_splits
      dest!: mark_locs class_index_checked_locs)

lemma VisitCXXRecordDecl_locs:
  assumes "VisitCXXRecordDecl r db = Inr db'"
  shows "downCastLoc db' = downCastLoc db"
proof -
  have l: "downCastLoc db' = downCastLoc db" if "visit_layout r db = Inr db'" for db db'
    using that foldR_locs[where g = id and f = "visit_field (getName r)" and xs = "rd_fields (rd_of r)", OF _ visit_field_locs]
    by (auto simp: visit_layout_def Let_def split: if_splits)
  have b: "downCastLoc (fst t) = downCastLoc db" if "foldR (visit_base r i) xs (db, bs) = Inr t" for i xs db bs t
    using foldR_locs[where g = fst, OF that] visit_base_locs by (metis fst_conv prod.collapse)
  have rest: "downCastLoc db' = downCastLoc u" if "bindR (foldR (visit_base r (fst p)) xs (snd p, [])) (\<lambda>(db, bs). Inr (merge_relation n bs db)) = Inr db'"
    "p = class_index n u" for p xs n u
    using that b class_index_locs[of n u] by (fastforce simp: bindR_Inr_iff merge_locs)
  show ?thesis
  proof (cases "rd_has_definition (rd_of r) \<and> \<not> rd_anonymous (rd_of r) \<and> getName r \<noteq> []")
    case True
    with assms obtain u where "visit_layout r db = Inr u" "bindR (foldR (visit_base r (fst (class_index (getName r) u)))
        (CollectAllBases r) (snd (class_index (getName r) u), [])) (\<lambda>(db, bs). Inr (merge_relation (getName r) bs db)) = Inr db'"
      by (auto simp: VisitCXXRecordDecl_def Let_def bindR_Inr_iff case_prod_beta)
    from l[OF this(1)] rest[OF this(2) refl] show ?thesis by simp
  qed (use assms in \<open>auto simp: VisitCXXRecordDecl_def split: if_splits\<close>)
qed

lemma addRelationShip_locs:
  assumes "addRelationShip bs r db = Inr db'"
  shows "downCastLoc db' = downCastLoc db"
proof -
  have b: "downCastLoc (fst t) = downCastLoc db" if "foldR (relate_base r i) xs (db, bs) = Inr t" for i xs db bs t
    using foldR_locs[where g = fst, OF that] relate_base_locs by (metis fst_conv prod.collapse)
  from assms show ?thesis
    using class_index_locs[of "getName r" db]
    by (auto simp: addRelationShip_def Let_def bindR_Inr_iff merge_locs split: prod.splits dest!: b)
qed

lemma relate_hierarchy_locs:
  assumes "relate_hierarchy r db = Inr db'"
  shows "downCastLoc db' = downCastLoc db"
  using assms foldR_locs[where g = id, OF _ addRelationShip_locs]
  by (fastforce simp: relate_hierarchy_def Let_def bindR_Inr_iff dest: addRelationShip_locs)

lemma visit_node_locs:
  assumes "visit_node x db = Inr db'" "sset_ok (downCastLoc db)"
  shows "sset_ok (downCastLoc db')"
proof (cases x)
  case (RecordDecl r)
  with assms VisitCXXRecordDecl_locs[of r db db'] show ?thesis by simp
next
  case (CastNode c)
  have n: "sset_ok (downCastLoc (note_location l db))" for l
    using assms(2) by (simp add: note_location_def split: option.split prod.split)
  have "visit_bitcast_side ty u = Inr v \<Longrightarrow> downCastLoc v = downCastLoc u" for ty u v
    by (auto simp: visit_bitcast_side_def split: clang_type.splits option.splits if_splits dest: addRelationShip_locs)
  with assms n show ?thesis
    by (auto simp: CastNode VisitCastExpr_def visit_BaseToDerived_def visit_DerivedToBase_def visit_BitCast_def Let_def
        bindR_Inr_iff split: cast_kind.splits option.splits dest!: relate_hierarchy_locs)
qed

lemma run_locs: "HandleTopLevelDecl nodes initgraph = Inr db \<Longrightarrow> sset_ok (downCastLoc db)"
  unfolding HandleTopLevelDecl_def
  by (erule foldR_inv) (auto simp: initgraph_def intro: visit_node_locs)

section \<open>The numbers of a run\<close>

lemma set_map_insert: "set (map_insert k v m) \<subseteq> insert (k, v) (set m)"
  by (auto simp: map_insert_def set_insort_key)

definition numbers_upto :: "nat \<Rightarrow> (nat, nat) smap \<Rightarrow> bool" where
  "numbers_upto N m \<longleftrightarrow> smap_ok m \<and> snd ` set m \<subseteq> {..N}"

lemma numbers_upto_insert: "numbers_upto N m \<Longrightarrow> v \<le> N \<Longrightarrow> numbers_upto N (map_insert k v m)"
  using set_map_insert[of k v m] by (fastforce simp: numbers_upto_def)

lemma numbers_upto_fold: "numbers_upto N m \<Longrightarrow> v \<le> N \<Longrightarrow> numbers_upto N (fold (\<lambda>k. map_insert k v) ks m)"
  by (induction ks arbitrary: m) (simp_all add: numbers_upto_insert)

lemma code_class_numbers:
  assumes "numbers_upto N res" "fs < idx" "idx \<le> N" "code_class db Ps c (res, fs, idx) = (res', fs', idx')"
  shows "numbers_upto N res' \<and> fs' < idx' \<and> idx' \<le> Suc idx"
  using assms by (auto simp: code_class_def Let_def intro!: numbers_upto_insert numbers_upto_fold split: if_splits option.splits)

lemma code_fold_numbers:
  assumes "numbers_upto N res" "fs < idx" "idx + length F \<le> Suc N" "fold (code_class db Ps) F (res, fs, idx) = (res', fs', idx')"
  shows "numbers_upto N res' \<and> fs' \<le> N"
  using assms
proof (induction F arbitrary: res fs idx)
  case (Cons c F)
  obtain r f i where c: "code_class db Ps c (res, fs, idx) = (r, f, i)" by (metis prod_cases3)
  have "idx \<le> N" using Cons.prems(3) by simp
  from code_class_numbers[OF Cons.prems(1,2) this c] Cons.prems(3,4) c show ?case by (intro Cons.IH[of r f i]) auto
qed auto

lemma codingFunc_numbers:
  assumes "length (concat Fs) \<le> N" "codingFunc db Fs Ps = (code, related)"
  shows "numbers_upto N code \<and> numbers_upto N related"
proof -
  have "numbers_upto N (fst (fold (code_family db Ps) Fs st)) \<and> numbers_upto N (snd (fold (code_family db Ps) Fs st))"
    if "numbers_upto N (fst st)" "numbers_upto N (snd st)" "length (concat Fs) \<le> N" for st
    using that
  proof (induction Fs arbitrary: st)
    case (Cons F Fs)
    obtain res rel where st: "st = (res, rel)" by force
    obtain r f i where c: "fold (code_class db Ps) F (res, 0, 1) = (r, f, i)" by (metis prod_cases3)
    have "numbers_upto N r \<and> f \<le> N" by (rule code_fold_numbers[OF _ _ _ c]) (use Cons.prems in \<open>simp_all add: st\<close>)
    moreover have "code_family db Ps F st = (r, fold (\<lambda>c. map_insert c f) F rel)" 
      using c by (simp add: code_family_def st)
    ultimately show ?case
      using Cons.IH[of "code_family db Ps F st"] Cons.prems by (simp add: st numbers_upto_fold)
  qed simp
  from this[of "([], [])"] assms show ?thesis by (simp add: codingFunc_def numbers_upto_def)
qed

lemma numbers_upto_short: "numbers_upto N m \<Longrightarrow> N < 2 ^ 31 \<Longrightarrow> short_numbers m"
  by (fastforce simp: numbers_upto_def short_numbers_def)

lemma run_numbers:
  assumes "HandleTopLevelDecl nodes initgraph = Inr db" "currentIndex db < MAX_NUM_CLASS"
    "\<forall>i j. graph db i j \<longrightarrow> graph db j i" "DFS (graph db) (currentIndex db) = Inr Fs"
    "DFS (graph_phantoms db) (currentIndex db) = Inr Ps" "codingFunc db Fs Ps = (code, related)"
  shows "short_numbers code" "short_numbers related" "\<And>F. F \<in> set Fs \<Longrightarrow> family_coded db Ps F (map_find code) (map_find related)"
    "coding_ok Fs Ps" "names_ok db" "\<And>i. i < currentIndex db \<Longrightarrow> \<exists>F\<in>set Fs. i \<in> set F"
proof -
  let ?n = "currentIndex db"
  have s: "names_ok db \<and> rel_of graph_phantoms db \<subseteq> rel_of graph_family db \<and>
      rel_of graph_family db \<subseteq> rel_of graph db \<union> (rel_of graph db)\<inverse>"
    by (rule run_subsets[OF names_ok_init assms(1)]) simp_all
  have ph: "graph_phantoms db i j \<Longrightarrow> graph db i j" for i j
    using matrix_of_rel[of db graph_phantoms "rel_of graph_family db" graph] s assms(3) by blast
  have psym: "\<forall>i j. graph_phantoms db i j \<longrightarrow> graph_phantoms db j i" using run_family_sym[OF assms(1)] by blast
  show ok: "coding_ok Fs Ps" by (rule coding_ok_DFS[OF assms(2,3) psym _ assms(4,5)]) (use ph in blast)
  have all: "set (concat Fs) = {..<?n}" using DFS_components[OF assms(2), of "graph db"] assms(3,4) by auto
  then show "\<And>i. i < ?n \<Longrightarrow> \<exists>F\<in>set Fs. i \<in> set F" by auto
  note all
  moreover have "distinct (concat Fs)" using ok by (simp add: coding_ok_def)
  ultimately have "length (concat Fs) = ?n" using distinct_card[of "concat Fs"] by simp
  then have "numbers_upto ?n code \<and> numbers_upto ?n related" using codingFunc_numbers[OF _ assms(6)] by simp
  moreover have "?n < 2 ^ 31" using assms(2) by (simp add: MAX_NUM_CLASS_def)
  ultimately show "short_numbers code" "short_numbers related" using numbers_upto_short by blast+
  show "\<And>F. F \<in> set Fs \<Longrightarrow> family_coded db Ps F (map_find code) (map_find related)" by (rule codingFunc_spec[OF ok _ assms(6)])
  show "names_ok db" using s by simp
qed

section \<open>From one program to the next\<close>

text \<open>A reader gets the contents of its file, empty for a file that is not there.\<close>

definition contents :: "files \<Rightarrow> string \<Rightarrow> string" where
  "contents fs f = (case fs f of None \<Rightarrow> [] | Some s \<Rightarrow> s)"

text \<open>The compiler is started with the paths of the files in the directory the class finder ran on.\<close>

definition pass_maps :: "files \<Rightarrow> string \<Rightarrow> code_maps" where
  "pass_maps fs directory = InitReadFiles (contents fs (join_path directory ''coding-num.txt''))
     (contents fs (directory @ ''/castrelated-set.txt'')) (contents fs (join_path directory ''safecast.txt'')) empty_maps"

definition clang_maps :: "files \<Rightarrow> string \<Rightarrow> stoi_error + sanitizer_maps" where
  "clang_maps fs directory = read_sanitizer_maps (contents fs (join_path directory ''coding-num.txt''))
     (contents fs (directory @ ''/castrelated-set.txt'')) (contents fs (directory @ ''/downcastLoc.txt''))"

abbreviation visited_nodes :: "(string list \<Rightarrow> ast_node list) \<Rightarrow> string \<Rightarrow> dirent list \<Rightarrow> ast_node list" where
  "visited_nodes parse directory entries \<equiv> parse (snd (getFiles directory (Some entries) []))"

lemma paths_apart:
  "join_path d ''coding-num.txt'' \<noteq> d @ ''/castrelated-set.txt''" "join_path d ''coding-num.txt'' \<noteq> d @ ''/class_alignment.txt''"
  "join_path d ''coding-num.txt'' \<noteq> join_path d ''safecast.txt''" "join_path d ''coding-num.txt'' \<noteq> d @ ''/bases-set.txt''"
  "join_path d ''coding-num.txt'' \<noteq> d @ ''/downcastLoc.txt''" "join_path d ''safecast.txt'' \<noteq> d @ ''/bases-set.txt''"
  "join_path d ''safecast.txt'' \<noteq> d @ ''/downcastLoc.txt''" "d @ ''/castrelated-set.txt'' \<noteq> join_path d ''safecast.txt''"
  by (simp_all add: join_path_def)

text \<open>Each reader works on its own maps.\<close>

lemma fold_keeps: "(\<And>x s. g (f x s) = g s) \<Longrightarrow> g (fold f xs s) = g s"
  by (induction xs arbitrary: s) simp_all

lemma fold_related: "R s t \<Longrightarrow> (\<And>x s t. R s t \<Longrightarrow> R (f x s) (f x t)) \<Longrightarrow> R (fold f xs s) (fold f xs t)"
  by (induction xs arbitrary: s t) simp_all

lemma readCodeMap_keeps:
  "bitypeCastRelatedClass (readCodeMap file u) = bitypeCastRelatedClass u"
  "bitypeClassIndexSet2 (readCodeMap file u) = bitypeClassIndexSet2 u"
  "bitypeClassIndexSet (readCodeMap file u) = bitypeClassIndexSet u"
  "BitypeInheritanceSet (readCodeMap file u) = BitypeInheritanceSet u"
  unfolding readCodeMap_def by (intro fold_keeps; simp add: Let_def split: option.split)+

lemma readRelatedClass_keeps:
  "bitypeCodeMap (readRelatedClass file u) = bitypeCodeMap u"
  "BitypeInheritanceSet (readRelatedClass file u) = BitypeInheritanceSet u"
  unfolding readRelatedClass_def
  by (intro fold_keeps[where g = "\<lambda>p. bitypeCodeMap (fst p)", THEN trans]
      fold_keeps[where g = "\<lambda>p. BitypeInheritanceSet (fst p)", THEN trans]; simp add: Let_def split: option.split prod.split)+

lemma readInheritanceSet_keeps:
  "bitypeCodeMap (readInheritanceSet file u) = bitypeCodeMap u"
  "bitypeCastRelatedClass (readInheritanceSet file u) = bitypeCastRelatedClass u"
  "bitypeClassIndexSet2 (readInheritanceSet file u) = bitypeClassIndexSet2 u"
  "bitypeClassIndexSet (readInheritanceSet file u) = bitypeClassIndexSet u"
  unfolding readInheritanceSet_def by (intro fold_keeps; simp add: Let_def)+

lemma readRelatedClass_own:
  assumes "bitypeCastRelatedClass u = bitypeCastRelatedClass v" "bitypeClassIndexSet2 u = bitypeClassIndexSet2 v"
    "bitypeClassIndexSet u = bitypeClassIndexSet v"
  shows "bitypeCastRelatedClass (readRelatedClass file u) = bitypeCastRelatedClass (readRelatedClass file v)"
    "bitypeClassIndexSet2 (readRelatedClass file u) = bitypeClassIndexSet2 (readRelatedClass file v)"
    "bitypeClassIndexSet (readRelatedClass file u) = bitypeClassIndexSet (readRelatedClass file v)"
proof -
  define R :: "code_maps \<times> nat \<Rightarrow> code_maps \<times> nat \<Rightarrow> bool" where
    "R = (\<lambda>p q. bitypeCastRelatedClass (fst p) = bitypeCastRelatedClass (fst q) \<and>
       bitypeClassIndexSet2 (fst p) = bitypeClassIndexSet2 (fst q) \<and>
       bitypeClassIndexSet (fst p) = bitypeClassIndexSet (fst q) \<and> snd p = snd q)"
  have "R (u, 0) (v, 0)" using assms by (simp add: R_def)
  moreover have "R p q \<Longrightarrow> R (read_related_line I p) (read_related_line I q)" for I p q
    by (cases p; cases q) (auto simp: R_def Let_def split: option.split)
  ultimately have "R (fold read_related_line (getlines file) (u, 0)) (fold read_related_line (getlines file) (v, 0))"
    by (rule fold_related)
  then show "bitypeCastRelatedClass (readRelatedClass file u) = bitypeCastRelatedClass (readRelatedClass file v)"
    "bitypeClassIndexSet2 (readRelatedClass file u) = bitypeClassIndexSet2 (readRelatedClass file v)"
    "bitypeClassIndexSet (readRelatedClass file u) = bitypeClassIndexSet (readRelatedClass file v)"
    unfolding readRelatedClass_def by (simp_all only: R_def)
qed

lemma readInheritanceSet_own:
  assumes "BitypeInheritanceSet u = BitypeInheritanceSet v"
  shows "BitypeInheritanceSet (readInheritanceSet file u) = BitypeInheritanceSet (readInheritanceSet file v)"
  unfolding readInheritanceSet_def
  by (rule fold_related[where R = "\<lambda>u v. BitypeInheritanceSet u = BitypeInheritanceSet v", OF assms]) (simp add: Let_def)

lemma InitReadFiles_maps:
  "bitypeCodeMap (InitReadFiles c r i empty_maps) = bitypeCodeMap (readCodeMap c empty_maps)"
  "bitypeCastRelatedClass (InitReadFiles c r i empty_maps) = bitypeCastRelatedClass (readRelatedClass r empty_maps)"
  "bitypeClassIndexSet2 (InitReadFiles c r i empty_maps) = bitypeClassIndexSet2 (readRelatedClass r empty_maps)"
  "bitypeClassIndexSet (InitReadFiles c r i empty_maps) = bitypeClassIndexSet (readRelatedClass r empty_maps)"
  "BitypeInheritanceSet (InitReadFiles c r i empty_maps) = BitypeInheritanceSet (readInheritanceSet i empty_maps)"
  unfolding InitReadFiles_def
  by (simp_all add: readInheritanceSet_keeps readRelatedClass_keeps readRelatedClass_own[of "readCodeMap c empty_maps" empty_maps]
      readInheritanceSet_own[of "readRelatedClass r (readCodeMap c empty_maps)" empty_maps] readCodeMap_keeps)

section \<open>The run of the class finder\<close>

lemma calculateRelatedClass_keeps [simp]:
  "classCode (calculateRelatedClass db) = classCode db" "numberName (calculateRelatedClass db) = numberName db"
  "currentIndex (calculateRelatedClass db) = currentIndex db" "relations (calculateRelatedClass db) = relations db"
  "downCastVec (calculateRelatedClass db) = downCastVec db" "downCastLoc (calculateRelatedClass db) = downCastLoc db"
  "graph (calculateRelatedClass db) = graph db" "graph_phantoms (calculateRelatedClass db) = graph_phantoms db"
  "graph_family (calculateRelatedClass db) = graph_family db"
  by (simp_all add: calculateRelatedClass_def Let_def)

lemma codingFunc_related: "codingFunc (calculateRelatedClass db) Fs Ps = codingFunc db Fs Ps"
proof -
  have c: "code_class (calculateRelatedClass db) = code_class db" by (intro ext) (simp add: code_class_def)
  show ?thesis unfolding codingFunc_def code_family_def c by (rule refl)
qed

lemma names_ok_related: "names_ok db \<Longrightarrow> names_ok (calculateRelatedClass db)"
  by (simp add: names_ok_def)

lemma number_of_related: "number_of (calculateRelatedClass db) m n = number_of db m n"
  by (simp add: number_of_def)

lemma class_finder_run:
  assumes "class_finder (\<lambda>_. True) parse (Some d) (Some entries) fs0 = Inr (0, fs)"
    "HandleTopLevelDecl (visited_nodes parse d entries) initgraph = Inr db"
    "DFS (graph db) (currentIndex db) = Inr Fs" "DFS (graph_phantoms db) (currentIndex db) = Inr Ps"
    "codingFunc db Fs Ps = (code, related)" and D: "D = calculateRelatedClass db"
    and "currentIndex db < MAX_NUM_CLASS"
  shows "\<exists>fs1 fs2 r. outputCodeResult (\<lambda>_. True) D code (join_path d ''coding-num.txt'') fs0 = Inr fs1 \<and>
    outputCastedRelatedSet (\<lambda>_. True) D related (d @ ''/castrelated-set.txt'') (d @ ''/class_alignment.txt'') fs1 = Inr (r, fs2) \<and>
    fs = snd (outputDownCastLoc (\<lambda>_. True) D (d @ ''/downcastLoc.txt'')
      (snd (outputBases (\<lambda>_. True) D (d @ ''/bases-set.txt'')
        (snd (outputSafeCast (\<lambda>_. True) D (join_path d ''safecast.txt'') fs2)))))"
proof -
  obtain Gs where Gs: "DFS (graph_family db) (currentIndex db) = Inr Gs"
    using DFS_components[OF assms(7), of "graph_family db"] run_family_sym[OF assms(2), of graph_family] by blast
  from assms(1) have "bindR (outputCodeResult (\<lambda>_. True) D code (join_path d ''coding-num.txt'') fs0) (\<lambda>fs.
      bindR (outputCastedRelatedSet (\<lambda>_. True) D related (d @ ''/castrelated-set.txt'') (d @ ''/class_alignment.txt'') fs) (\<lambda>(_, fs).
        Inr (0, snd (outputDownCastLoc (\<lambda>_. True) D (d @ ''/downcastLoc.txt'')
          (snd (outputBases (\<lambda>_. True) D (d @ ''/bases-set.txt'')
            (snd (outputSafeCast (\<lambda>_. True) D (join_path d ''safecast.txt'') fs)))))))) = Inr (0 :: int, fs)"
    by (simp only: class_finder_def option.case option.distinct if_False Let_def case_prod_beta assms(2-5) Gs bindR_simps D
        codingFunc_related calculateRelatedClass_keeps fst_conv snd_conv)
  then show ?thesis by (auto simp: bindR_Inr_iff)
qed

text \<open>What the writers after the two searches leave in the files.\<close>

lemma last_writers:
  assumes "fs = snd (outputDownCastLoc (\<lambda>_. True) D (d @ ''/downcastLoc.txt'')
      (snd (outputBases (\<lambda>_. True) D (d @ ''/bases-set.txt'')
        (snd (outputSafeCast (\<lambda>_. True) D (join_path d ''safecast.txt'') fs2)))))"
    "clean_locations D" "sset_ok (downCastLoc D)"
  shows "fs (join_path d ''coding-num.txt'') = fs2 (join_path d ''coding-num.txt'')"
    "fs (d @ ''/castrelated-set.txt'') = fs2 (d @ ''/castrelated-set.txt'')"
    "fs (join_path d ''safecast.txt'') =
       snd (outputSafeCast (\<lambda>_. True) D (join_path d ''safecast.txt'') fs2) (join_path d ''safecast.txt'')"
    "\<exists>file m. fs (d @ ''/downcastLoc.txt'') = Some file \<and> getDebugInfo file = Inr m \<and>
       (\<forall>i<length (downCastLoc D). map_find m (downCastLoc D ! i) = Some (of_nat i))"
proof -
  note apart = paths_apart[of d] paths_apart[of d, symmetric]
  let ?gs = "snd (outputBases (\<lambda>_. True) D (d @ ''/bases-set.txt'')
    (snd (outputSafeCast (\<lambda>_. True) D (join_path d ''safecast.txt'') fs2)))"
  obtain ls m where l: "outputDownCastLoc (\<lambda>_. True) D (d @ ''/downcastLoc.txt'') ?gs = (1, ?gs(d @ ''/downcastLoc.txt'' \<mapsto> ls))"
    "getDebugInfo ls = Inr m" "\<forall>i<length (downCastLoc D). map_find m (downCastLoc D ! i) = Some (of_nat i)"
    using location_file[OF assms(2,3) TrueI] by blast
  then have fs: "fs = ?gs(d @ ''/downcastLoc.txt'' \<mapsto> ls)" using assms(1) by simp
  then show "\<exists>file m. fs (d @ ''/downcastLoc.txt'') = Some file \<and> getDebugInfo file = Inr m \<and>
       (\<forall>i<length (downCastLoc D). map_find m (downCastLoc D ! i) = Some (of_nat i))"
    using l(2,3) by auto
  show "fs (join_path d ''coding-num.txt'') = fs2 (join_path d ''coding-num.txt'')"
    "fs (d @ ''/castrelated-set.txt'') = fs2 (d @ ''/castrelated-set.txt'')"
    "fs (join_path d ''safecast.txt'') =
       snd (outputSafeCast (\<lambda>_. True) D (join_path d ''safecast.txt'') fs2) (join_path d ''safecast.txt'')"
    unfolding fs by (simp_all add: outputBases_def outputSafeCast_def apart)
qed

lemma tool_tables:
  assumes tool: "class_finder (\<lambda>_. True) parse (Some d) (Some entries) fs0 = Inr (0, fs)"
    and run: "HandleTopLevelDecl (visited_nodes parse d entries) initgraph = Inr db" "currentIndex db < MAX_NUM_CLASS"
      "\<forall>i j. graph db i j \<longrightarrow> graph db j i"
    and split: "DFS (graph db) (currentIndex db) = Inr Fs" "DFS (graph_phantoms db) (currentIndex db) = Inr Ps"
      "codingFunc db Fs Ps = (code, related)"
    and clean: "clean_names db" "clean_locations db"
  shows "\<exists>tables. clang_maps fs d = Inr tables \<and> bitypeClassIndexSet2 (pass_maps fs d) = SanitizerIndex tables \<and>
    (\<forall>n. map_find (bitypeCodeMap (pass_maps fs d)) n = map_option int (number_of db code n) \<and>
       map_find (SanitizerRS tables) n = map_option of_nat (number_of db code n) \<and>
       map_find (bitypeCastRelatedClass (pass_maps fs d)) n =
         map_option int (related_number (calculateRelatedClass db) related n)) \<and>
    (\<forall>n. map_has (SanitizerIndex tables) n \<longleftrightarrow> map_has (bitypeCastRelatedClass (pass_maps fs d)) n) \<and>
    (\<forall>i n. map_find (bitypeClassIndexSet (pass_maps fs d)) i = Some n \<longleftrightarrow> map_find (SanitizerIndex tables) n = Some i) \<and>
    (\<forall>i<length (downCastLoc db). map_find (SanitizerDebug tables) (downCastLoc db ! i) = Some (of_nat i))"
proof -
  let ?D = "calculateRelatedClass db"
  note apart = paths_apart[of d] paths_apart[of d, symmetric]
  note n = run_numbers[OF run split]
  have D: "names_ok ?D" "clean_names ?D" "clean_locations ?D" "sset_ok (downCastLoc ?D)"
    using n(5) clean run_locs[OF run(1)] by (simp_all add: names_ok_related clean_names_def clean_locations_def)
  obtain fs1 fs2 r where o: "outputCodeResult (\<lambda>_. True) ?D code (join_path d ''coding-num.txt'') fs0 = Inr fs1"
    "outputCastedRelatedSet (\<lambda>_. True) ?D related (d @ ''/castrelated-set.txt'') (d @ ''/class_alignment.txt'') fs1 = Inr (r, fs2)"
    and fs: "fs = snd (outputDownCastLoc (\<lambda>_. True) ?D (d @ ''/downcastLoc.txt'')
      (snd (outputBases (\<lambda>_. True) ?D (d @ ''/bases-set.txt'')
        (snd (outputSafeCast (\<lambda>_. True) ?D (join_path d ''safecast.txt'') fs2)))))"
    using class_finder_run[OF tool run(1) split refl run(2)] by blast
  note w = last_writers[OF fs D(3,4)]
  from code_file_tables[OF D(1) n(1) D(2) TrueI o(1)] obtain codes m where
    c: "fs1 = fs0(join_path d ''coding-num.txt'' \<mapsto> codes)" "createCodeMap codes = Inr m"
    "\<And>x. map_find (bitypeCodeMap (readCodeMap codes empty_maps)) x = map_option int (number_of db code x)"
    "\<And>x. map_find m x = map_option of_nat (number_of db code x)" unfolding number_of_related by blast
  have "d @ ''/class_alignment.txt'' \<noteq> d @ ''/castrelated-set.txt''" by simp
  moreover have "currentIndex ?D < 2 ^ 32" using run(2) by (simp add: MAX_NUM_CLASS_def calculateRelatedClass_keeps)
  ultimately obtain rel where
    r: "fs2 (d @ ''/castrelated-set.txt'') = Some rel"
    "\<And>g. g \<noteq> d @ ''/castrelated-set.txt'' \<Longrightarrow> g \<noteq> d @ ''/class_alignment.txt'' \<Longrightarrow> fs2 g = fs1 g"
    "\<And>x. map_find (bitypeCastRelatedClass (readRelatedClass rel empty_maps)) x = map_option int (related_number ?D related x)"
    "bitypeClassIndexSet2 (readRelatedClass rel empty_maps) = getClassIndex rel"
    "\<And>x. map_has (getClassIndex rel) x \<longleftrightarrow> related_number ?D related x \<noteq> None"
    "\<And>i x. map_find (bitypeClassIndexSet (readRelatedClass rel empty_maps)) i = Some x \<longleftrightarrow> map_find (getClassIndex rel) x = Some i"
    using related_file_tables[OF D(1) n(2) D(2) TrueI TrueI _ _ o(2)] by blast
  obtain locs dm where l: "fs (d @ ''/downcastLoc.txt'') = Some locs" "getDebugInfo locs = Inr dm"
    "\<forall>i<length (downCastLoc db). map_find dm (downCastLoc db ! i) = Some (of_nat i)"
    using w(4) by (auto simp: calculateRelatedClass_keeps)
  have f: "contents fs (join_path d ''coding-num.txt'') = codes" "contents fs (d @ ''/castrelated-set.txt'') = rel"
    "contents fs (d @ ''/downcastLoc.txt'') = locs"
    using w(1,2) r(1) r(2)[of "join_path d ''coding-num.txt''"] c(1) l(1) by (simp_all add: contents_def apart)
  have "clang_maps fs d = Inr \<lparr>SanitizerRS = m, SanitizerIndex = getClassIndex rel, SanitizerDebug = dm\<rparr>"
    unfolding clang_maps_def f read_sanitizer_maps_def c(2) l(2) by simp
  then show ?thesis unfolding pass_maps_def f InitReadFiles_maps c(3) r(3,4,6) using c(4) l(3) r(5) by simp
qed

end
