(* ===== verification/WholeChain.thy ===== *)
theory WholeChain
  imports ToolFiles CastVerdict
begin

text \<open>
  The sanitizer as a whole: the class finder runs over the sources and writes its files, the passes and Clang read
  them, the passes give the classes of a module their arrays and record a variable, and the run-time library judges a
  cast of an object in the variable. Code numbers, files and arrays cancel out: the verdict is stated over class names
  and the phantom sets of the class finder.
\<close>

section \<open>The tables of the three programs\<close>

text \<open>
  C17: What the class finder knows is what the compiler sees: after a run over fewer than 35000 classes with all
  hierarchies of casts declared, names and locations without commas and line ends, Clang reads its files without an exception and
  both readers find under every class name exactly the code number and the passes the size of the family the class finder gave the
  class, and the number of every cast location is its rank. The two readers give the same class index to every name; the classes
  with an index are exactly those with the size of a family, and the passes' map from indices back to names is the inverse.
\<close>

theorem finder_tables_arrive:
  assumes "class_finder (\<lambda>_. True) parse (Some d) (Some entries) fs0 = Inr (0, fs)"
    "HandleTopLevelDecl (visited_nodes parse d entries) initgraph = Inr db" "currentIndex db < MAX_NUM_CLASS"
      "declared_casts (visited_nodes parse d entries)"
    "DFS (graph db) (currentIndex db) = Inr Fs" "DFS (graph_phantoms db) (currentIndex db) = Inr Ps"
      "codingFunc db Fs Ps = (code, related)"
    "clean_names db" "clean_locations db"
  shows "\<exists>tables. clang_maps fs d = Inr tables \<and> bitypeClassIndexSet2 (pass_maps fs d) = SanitizerIndex tables \<and>
    (\<forall>n. map_find (bitypeCodeMap (pass_maps fs d)) n = map_option int (number_of db code n) \<and>
       map_find (SanitizerRS tables) n = map_option of_nat (number_of db code n) \<and>
       map_find (bitypeCastRelatedClass (pass_maps fs d)) n =
         map_option int (related_number (calculateRelatedClass db) related n)) \<and>
    (\<forall>n. map_has (SanitizerIndex tables) n \<longleftrightarrow> map_has (bitypeCastRelatedClass (pass_maps fs d)) n) \<and>
    (\<forall>i n. map_find (bitypeClassIndexSet (pass_maps fs d)) i = Some n \<longleftrightarrow> map_find (SanitizerIndex tables) n = Some i) \<and>
    (\<forall>i<length (downCastLoc db). map_find (SanitizerDebug tables) (downCastLoc db ! i) = Some (of_nat i))"
  by (rule tool_tables[OF assms(1-3) graph_symmetric[OF assms(2,4)] assms(5-9)])

section \<open>What an object may be cast to, by name\<close>

definition safe_names :: "data_layout \<Rightarrow> code_maps \<Rightarrow> TypeInfo list \<Rightarrow> ir_struct \<Rightarrow> string set" where
  "safe_names dl u infos ST = insert (class_name ST) (TypeName ` set (relatives infos (class_name ST))) \<union>
     {n. map_has (bitypeCastRelatedClass u) n \<and> (\<exists>z\<in>set (getOffetZeroStruct dl (fst ST) (snd ST) []).
        n = class_name (snd z) \<or> (\<exists>ps. map_find (BitypeInheritanceSet u) (class_name (snd z)) = Some ps \<and> n \<in> set ps))}"

lemma related_codes_iff:
  "c \<in> related_codes u n \<longleftrightarrow> map_has (bitypeCastRelatedClass u) n \<and> map_find (bitypeCodeMap u) n = Some c"
  by (auto simp: related_codes_def related_code_def split: option.splits)

lemma inherited_codes_iff:
  "c \<in> inherited_codes u n \<longleftrightarrow>
     (\<exists>ps. map_find (BitypeInheritanceSet u) n = Some ps \<and> (\<exists>m\<in>set ps. c \<in> related_codes u m))"
  by (auto simp: inherited_codes_def split: option.splits)

lemma safe_codes_names:
  "c \<in> safe_codes dl u infos ST \<longleftrightarrow> (\<exists>n\<in>safe_names dl u infos ST. map_find (bitypeCodeMap u) n = Some c)"
  unfolding safe_codes_def safe_names_def Un_iff UN_iff code_of_def
  by (auto simp: related_codes_iff inherited_codes_iff split_beta) force+

section \<open>Numbers and phantom sets\<close>

definition same_family :: "class_db \<Rightarrow> nat list list \<Rightarrow> string \<Rightarrow> string \<Rightarrow> bool" where
  "same_family db Fs n m \<longleftrightarrow> (\<exists>F\<in>set Fs. \<exists>i\<in>set F. \<exists>j\<in>set F.
     map_find (classCode db) n = Some i \<and> map_find (classCode db) m = Some j)"

definition phantom_names :: "class_db \<Rightarrow> nat list list \<Rightarrow> string \<Rightarrow> string \<Rightarrow> bool" where
  "phantom_names db Ps n m \<longleftrightarrow> (\<exists>i j. map_find (classCode db) n = Some i \<and> map_find (classCode db) m = Some j \<and>
     same_phantom Ps i j)"

lemma number_of_iff: "number_of db m n = Some k \<longleftrightarrow> (\<exists>i. map_find (classCode db) n = Some i \<and> map_find m i = Some k)"
  by (auto simp: number_of_def bind_eq_Some_conv)

lemma number_bounds:
  assumes "family_coded db Ps F (map_find code) (map_find related)" "i \<in> set F" "map_find code i = Some k"
  shows "1 \<le> k \<and> (\<exists>m. k \<le> m \<and> (\<forall>j\<in>set F. map_find related j = Some m))"
  using assms unfolding family_coded_def by blast

lemma numbers_tell_phantoms:
  assumes "coding_ok Fs Ps" "\<And>F. F \<in> set Fs \<Longrightarrow> family_coded db Ps F (map_find code) (map_find related)"
    "\<And>i. i < currentIndex db \<Longrightarrow> \<exists>F\<in>set Fs. i \<in> set F" "names_ok db" "number_of db code m = Some k"
    "number_of db code n = Some k \<Longrightarrow> same_family db Fs n m"
  shows "number_of db code n = Some k \<longleftrightarrow> phantom_names db Ps n m"
proof
  assume n: "number_of db code n = Some k"
  from assms(6)[OF this] obtain F i j where F: "F \<in> set Fs" "i \<in> set F" "j \<in> set F"
    "map_find (classCode db) n = Some i" "map_find (classCode db) m = Some j" by (auto simp: same_family_def)
  with n assms(5) have "map_find code i = Some k" "map_find code j = Some k" by (auto simp: number_of_iff)
  with assms(2)[OF F(1)] F(2,3) have "same_phantom Ps i j" unfolding family_coded_def by (metis option.distinct(1))
  with F(4,5) show "phantom_names db Ps n m" by (auto simp: phantom_names_def)
next
  assume "phantom_names db Ps n m"
  then obtain i j where p: "map_find (classCode db) n = Some i" "map_find (classCode db) m = Some j" "same_phantom Ps i j"
    by (auto simp: phantom_names_def)
  then have "j < currentIndex db" using assms(4) by (auto simp: names_ok_def)
  with assms(3) obtain F where F: "F \<in> set Fs" "j \<in> set F" by blast
  have ji: "same_phantom Ps j i" by (rule same_phantom_sym[OF p(3)])
  have "i \<in> set F" by (rule phantom_in_family[OF assms(1) F ji])
  moreover have "map_find code j = Some k" using assms(5) p(2) by (auto simp: number_of_iff)
  ultimately have "map_find code i = Some k"
    using assms(2)[OF F(1)] F(2) ji unfolding family_coded_def by (metis option.distinct(1))
  with p(1) show "number_of db code n = Some k" by (auto simp: number_of_iff)
qed

section \<open>The verdict\<close>

lemma array_typeD: "array_type u n Types = Some ST \<Longrightarrow> class_name ST = n \<and> (\<exists>f i. class_entry u ST = Some (f, i))"
  by (auto simp: array_type_def dest!: find_SomeD)

lemma class_entry_family: "class_entry u ST = Some (f, i) \<Longrightarrow> map_find (bitypeCastRelatedClass u) (class_name ST) = Some f"
  by (auto simp: class_entry_def split: if_splits option.splits)

lemma emitted_code:
  assumes "emit_reference_cast clang b tables X = [call]" "dest_class X = Some D"
  shows "\<exists>code. map_find (SanitizerRS tables) (rd_name D) = Some code"
  using assms by (auto simp: emit_reference_cast_def split: if_splits option.splits)

lemma verdict_by_number:
  assumes tool: "class_finder (\<lambda>_. True) parse (Some d) (Some entries) fs0 = Inr (0, fs)"
    and run: "HandleTopLevelDecl (visited_nodes parse d entries) initgraph = Inr db" "currentIndex db < MAX_NUM_CLASS"
      "\<forall>i j. graph db i j \<longrightarrow> graph db j i" "clean_names db" "clean_locations db"
    and split: "DFS (graph db) (currentIndex db) = Inr Fs" "DFS (graph_phantoms db) (currentIndex db) = Inr Ps"
    and clang: "clang_maps fs d = Inr tables" "emit_reference_cast copts False tables X = [call]" "dest_class X = Some D"
      "\<not> has_offset X"
    and arrays: "array_type (pass_maps fs d) n Types = Some ST"
      "\<And>bytes. array_of (getAllClassSafeCast dl (pass_maps fs d) P m Types fresh_util) n = Some bytes \<Longrightarrow> array_of V n = Some bytes"
      "loaded rodata at V"
    and object: "a \<noteq> 0" "map_find (GlobalVariableMap V) n = Some g" "ref_of s a = at g"
    and family: "same_family db Fs n (rd_name D)" and num: "codingFunc db Fs Ps = (num, related)"
  shows "\<exists>z. number_of db num (rd_name D) = Some z \<and> run_check rodata a q call s =
    (if \<exists>C\<in>safe_names dl (pass_maps fs d) (module_infos dl Types) ST. number_of db num C = Some z
     then Inr s else print_confusion_inline (debugIndex call) s)"
proof -
  let ?u = "pass_maps fs d" and ?D = "rd_name D"
  note c = num
  note r = run_numbers[OF run(1-3) split c]
  obtain tables' where "clang_maps fs d = Inr tables'" and t': "\<And>x. map_find (bitypeCodeMap ?u) x = map_option int (number_of db num x)"
    "\<And>x. map_find (SanitizerRS tables') x = map_option of_nat (number_of db num x)"
    "\<And>x. map_find (bitypeCastRelatedClass ?u) x = map_option int (related_number (calculateRelatedClass db) related x)"
    using tool_tables[OF tool run(1-3) split c run(4,5)] by blast
  then have "tables' = tables" using clang(1) by simp
  note t = t'[unfolded this]
  obtain f i where e: "class_entry ?u ST = Some (f, i)" "class_name ST = n" using array_typeD[OF arrays(1)] by blast
  obtain z where z: "number_of db num ?D = Some z" "map_find (SanitizerRS tables) ?D = Some (word_of_int (int z))"
    using emitted_code[OF clang(2,3)] t(2)[of ?D] by auto
  obtain F x y where F: "F \<in> set Fs" "x \<in> set F" "y \<in> set F" "map_find (classCode db) n = Some x" "map_find (classCode db) ?D = Some y"
    using family by (auto simp: same_family_def)
  obtain w where w: "f = int w" "number_of db related n = Some w"
    using class_entry_family[OF e(1)] t(3)[of n] by (auto simp: e(2) related_number_def number_of_related split: option.splits if_splits)
  have rx: "map_find related x = Some w" using w(2) F(4) by (simp add: number_of_iff)
  then have short: "f < 2 ^ 31" using r(2) by (auto simp: w(1) short_numbers_def dest!: map_of_SomeD)
  have "map_find num y = Some z" using z(1) F(5) by (simp add: number_of_iff)
  from number_bounds[OF r(3)[OF F(1)] F(3) this] F(2) rx have bounds: "1 \<le> int z" "int z \<le> f" by (auto simp: w(1))
  have pos: "\<forall>m c. map_find (bitypeCodeMap ?u) m = Some c \<longrightarrow> 1 \<le> c"
  proof (intro allI impI)
    fix m c assume "map_find (bitypeCodeMap ?u) m = Some c"
    then obtain v i where v: "c = int v" "map_find (classCode db) m = Some i" "map_find num i = Some v"
      using t(1)[of m] by (auto simp: number_of_iff)
    then have "i < currentIndex db" using r(5) by (auto simp: names_ok_def)
    with r(6) obtain G where "G \<in> set Fs" "i \<in> set G" by blast
    from number_bounds[OF r(3)[OF this(1)] this(2) v(3)] v(1) show "1 \<le> c" by simp
  qed
  have "int z \<in> safe_codes dl ?u (module_infos dl Types) ST \<longleftrightarrow>
      (\<exists>C\<in>safe_names dl ?u (module_infos dl Types) ST. number_of db num C = Some z)"
    unfolding safe_codes_names t(1) by auto
  with z(1) object_verdict[OF arrays(1) e(1) pos arrays(2,3) object clang(2-4) z(2) bounds short]
  show ?thesis by simp
qed

text \<open>The verdict over the phantom sets, when the classes with a code are in the family of the destination.\<close>

lemma verdict_by_phantom:
  assumes tool: "class_finder (\<lambda>_. True) parse (Some d) (Some entries) fs0 = Inr (0, fs)"
    and run: "HandleTopLevelDecl (visited_nodes parse d entries) initgraph = Inr db" "currentIndex db < MAX_NUM_CLASS"
      "\<forall>i j. graph db i j \<longrightarrow> graph db j i" "clean_names db" "clean_locations db"
    and split: "DFS (graph db) (currentIndex db) = Inr Fs" "DFS (graph_phantoms db) (currentIndex db) = Inr Ps"
    and clang: "clang_maps fs d = Inr tables" "emit_reference_cast copts False tables X = [call]" "dest_class X = Some D"
      "\<not> has_offset X"
    and arrays: "array_type (pass_maps fs d) n Types = Some ST"
      "\<And>bytes. array_of (getAllClassSafeCast dl (pass_maps fs d) P m Types fresh_util) n = Some bytes \<Longrightarrow> array_of V n = Some bytes"
      "loaded rodata at V"
    and object: "a \<noteq> 0" "map_find (GlobalVariableMap V) n = Some g" "ref_of s a = at g"
    and family: "same_family db Fs n (rd_name D)"
      "\<forall>C\<in>safe_names dl (pass_maps fs d) (module_infos dl Types) ST.
         map_has (bitypeCodeMap (pass_maps fs d)) C \<longrightarrow> same_family db Fs C (rd_name D)"
  shows "run_check rodata a q call s =
    (if \<exists>C\<in>safe_names dl (pass_maps fs d) (module_infos dl Types) ST. phantom_names db Ps C (rd_name D)
     then Inr s else print_confusion_inline (debugIndex call) s)"
proof -
  let ?u = "pass_maps fs d" and ?D = "rd_name D"
  obtain num related where c: "codingFunc db Fs Ps = (num, related)" by force
  note r = run_numbers[OF run(1-3) split c]
  have t: "map_find (bitypeCodeMap ?u) x = map_option int (number_of db num x)" for x
    using tool_tables[OF tool run(1-3) split c run(4,5)] by blast
  from verdict_by_number[OF tool run split clang arrays object family(1) c] obtain z where
    z: "number_of db num ?D = Some z" and v: "run_check rodata a q call s =
      (if \<exists>C\<in>safe_names dl ?u (module_infos dl Types) ST. number_of db num C = Some z
       then Inr s else print_confusion_inline (debugIndex call) s)" by blast
  have "(\<exists>C\<in>safe_names dl ?u (module_infos dl Types) ST. number_of db num C = Some z) \<longleftrightarrow>
      (\<exists>C\<in>safe_names dl ?u (module_infos dl Types) ST. phantom_names db Ps C ?D)"
    using numbers_tell_phantoms[OF r(4,3,6,5) z] family(2) t by (intro bex_cong refl) simp
  then show ?thesis unfolding v by simp
qed

text \<open>
  C1: From the sources to the verdict: the class finder runs over the sources (fewer than 35000 classes, names
  without commas and line ends, every hierarchy of a cast declared) and writes its files; the passes read them, give the classes of a module
  their arrays and emit the code that records a variable of whole 8-byte slots (less than \<open>2 ^ 32\<close> bytes, below the
  address \<open>2 ^ 48\<close>), which the loaded program has run; Clang reads the files and emits the check of a static cast.

  Two conditions: the cast keeps the address (the base lies at offset 0 of the derived class, \<open>\<not> has_offset X\<close>),
  and the object's class as well as every class with a code number that the object counts as lie in the family of the destination
  (code numbers of different families may be equal). Then the check of a cast of an object in the variable returns
  normally exactly if the object's class, one of its parents and phantom types, or a related class that lies or is
  inherited at offset 0 in it (\<open>safe_names\<close>) is the destination or in the phantom set of the destination; otherwise a type
  confusion is reported.
\<close>

theorem program_cast_verdict:
  assumes tool: "class_finder (\<lambda>_. True) parse (Some d) (Some entries) fs0 = Inr (0, fs)"
    and nodes: "HandleTopLevelDecl (visited_nodes parse d entries) initgraph = Inr db" "currentIndex db < MAX_NUM_CLASS"
      "declared_casts (visited_nodes parse d entries)" "clean_names db" "clean_locations db"
    and split: "DFS (graph db) (currentIndex db) = Inr Fs" "DFS (graph_phantoms db) (currentIndex db) = Inr Ps"
    and clang: "clang_maps fs d = Inr tables" "emit_reference_cast copts False tables X = [call]" "dest_class X = Some D"
      "\<not> has_offset X"
    and arrays: "array_type (pass_maps fs d) n Types = Some ST"
      "insertUpdate M Prefix ty E ts (ConstLen N)
         (getAllClassSafeCast dl (pass_maps fs d) P m Types fresh_util) = Some (code, V)"
    and exec: "loaded rodata at V" "os_ok os" "rt_reachable os rodata s" "exec_code os at p l code s = Some (Inr s')"
    and variable: "variable_alloc ty" "smap_ok E" "\<forall>k\<in>fst ` set E. 8 * k < unat ts" "8 dvd unat ts" "8 dvd unat p"
      "unat ts * unat N < 2 ^ 32" "0 < unat p" "unat p + unat ts * unat N \<le> 2 ^ 48"
    and object: "(k, S) \<in> set E" "S \<noteq> []" "set_names S = n" "j < unat N" "a = p + of_nat (unat ts * j + 8 * k)"
    and family: "same_family db Fs n (rd_name D)"
      "\<forall>C\<in>safe_names dl (pass_maps fs d) (module_infos dl Types) ST.
         map_has (bitypeCodeMap (pass_maps fs d)) C \<longrightarrow> same_family db Fs C (rd_name D)"
  shows "run_check rodata a q call s' =
    (if \<exists>C\<in>safe_names dl (pass_maps fs d) (module_infos dl Types) ST. phantom_names db Ps C (rd_name D)
     then Inr s' else print_confusion_inline (debugIndex call) s')"
proof -
  note v = variable_recorded[OF arrays(2) exec(2-4) variable object(1,2,4)]
  obtain g where g: "map_find (GlobalVariableMap V) n = Some g" "ref_of s' a = at g" using v(3) object(3,5) by blast
  have "a \<noteq> 0" using v(2) object(5) by simp
  from verdict_by_phantom[OF tool nodes(1,2) graph_symmetric[OF nodes(1,3)] nodes(4,5) split clang arrays(1) v(1) exec(1)
      this g family] show ?thesis .
qed

text \<open>
  C2: The same for a heap block: after the emitted code has recorded a block of \<open>len\<close> elements, with the length known
  only at run time, the check of a cast of an object in any element of it passes exactly if one of the classes the
  object counts as is the destination or in the phantom set of the destination; otherwise a type confusion is reported.
  The conditions are those of the variable: the cast keeps the address, and the object's class as well as every
  class with a code number that the object counts as lie in the family of the destination.
\<close>

theorem heap_cast_verdict:
  assumes tool: "class_finder (\<lambda>_. True) parse (Some d) (Some entries) fs0 = Inr (0, fs)"
    and nodes: "HandleTopLevelDecl (visited_nodes parse d entries) initgraph = Inr db" "currentIndex db < MAX_NUM_CLASS"
      "declared_casts (visited_nodes parse d entries)" "clean_names db" "clean_locations db"
    and split: "DFS (graph db) (currentIndex db) = Inr Fs" "DFS (graph_phantoms db) (currentIndex db) = Inr Ps"
    and clang: "clang_maps fs d = Inr tables" "emit_reference_cast copts False tables X = [call]" "dest_class X = Some D"
      "\<not> has_offset X"
    and arrays: "array_type (pass_maps fs d) n Types = Some ST"
      "insertUpdate M Prefix ty E ts l
         (getAllClassSafeCast dl (pass_maps fs d) P m Types fresh_util) = Some (code, V)"
    and exec: "loaded rodata at V" "os_ok os" "rt_reachable os rodata s" "exec_code os at p N code s = Some (Inr s')"
    and block: "ty = HEAPALLOC \<or> ty = REALLOC" "smap_ok E" "\<forall>k\<in>fst ` set E. 8 * k < unat ts" "8 dvd unat ts" "8 dvd unat p"
      "unat ts * unat len < 2 ^ 32" "0 < unat p" "unat p + unat ts * unat len \<le> 2 ^ 48" "len = ucast (len_value N l)"
    and object: "(k, S) \<in> set E" "S \<noteq> []" "set_names S = n" "j < unat (len :: u32)" "a = p + of_nat (unat ts * j + 8 * k)"
    and family: "same_family db Fs n (rd_name D)"
      "\<forall>C\<in>safe_names dl (pass_maps fs d) (module_infos dl Types) ST.
         map_has (bitypeCodeMap (pass_maps fs d)) C \<longrightarrow> same_family db Fs C (rd_name D)"
  shows "run_check rodata a q call s' =
    (if \<exists>C\<in>safe_names dl (pass_maps fs d) (module_infos dl Types) ST. phantom_names db Ps C (rd_name D)
     then Inr s' else print_confusion_inline (debugIndex call) s')"
proof -
  note v = block_object_recorded[OF arrays(2) exec(2-4) block(1,9,2-8) object(1,2,4)]
  obtain g where g: "map_find (GlobalVariableMap V) n = Some g" "ref_of s' a = at g" using v(3) object(3,5) by blast
  have "a \<noteq> 0" using v(2) object(5) by simp
  from verdict_by_phantom[OF tool nodes(1,2) graph_symmetric[OF nodes(1,3)] nodes(4,5) split clang arrays(1) v(1) exec(1)
      this g family] show ?thesis .
qed

section \<open>No false alarms\<close>

text \<open>The bases the class finder recorded for a class arrive in the set the passes read for it.\<close>

definition clean_relations :: "class_db \<Rightarrow> bool" where
  "clean_relations db \<longleftrightarrow> (\<forall>(c, bs)\<in>set (relations db). \<forall>n\<in>set (c # bs). clean_name n \<and> n \<noteq> [])"

lemma related_classes:
  "set (castrelatedClass (calculateRelatedClass db)) = set (castrelatedClass db) \<union> set (downCastVec db) \<union>
     set (basedCastClass db) \<union> {c. \<exists>bs. (c, bs) \<in> set (relations db) \<and> set bs \<inter> set (basedCastClass db) \<noteq> {}}"
proof -
  have ins: "set (fold set_insert xs m) = set xs \<union> set m" for xs and m :: "string sset"
    by (induction xs arbitrary: m) auto
  have inner: "set (fold (\<lambda>(t, bases) related. if t \<in> set related then related
      else if b \<in> set bases then set_insert t related else related) rs m) =
    set m \<union> {c. \<exists>bs. (c, bs) \<in> set rs \<and> b \<in> set bs}" for b rs and m :: "string sset"
    by (induction rs arbitrary: m) (auto split: if_splits)
  have "set (fold (\<lambda>b related. fold (\<lambda>(t, bases) related. if t \<in> set related then related
      else if b \<in> set bases then set_insert t related else related) rs (set_insert b related)) Bs m) =
    set m \<union> set Bs \<union> {c. \<exists>bs. (c, bs) \<in> set rs \<and> set bs \<inter> set Bs \<noteq> {}}" for rs Bs and m :: "string sset"
    by (induction Bs arbitrary: m) (auto simp: inner)
  then show ?thesis by (auto simp: calculateRelatedClass_def ins)
qed

lemma tool_inheritance:
  assumes tool: "class_finder (\<lambda>_. True) parse (Some d) (Some entries) fs0 = Inr (0, fs)"
    and run: "HandleTopLevelDecl (visited_nodes parse d entries) initgraph = Inr db" "currentIndex db < MAX_NUM_CLASS"
      "\<forall>i j. graph db i j \<longrightarrow> graph db j i" "clean_names db" "clean_locations db" "clean_relations db"
    and split: "DFS (graph db) (currentIndex db) = Inr Fs" "DFS (graph_phantoms db) (currentIndex db) = Inr Ps"
    and c: "c \<in> set (castrelatedClass (calculateRelatedClass db))" "map_find (relations db) c = Some bs"
    and "D \<in> set bs" "D \<in> set (downCastVec db)"
  shows "\<exists>ps. map_find (BitypeInheritanceSet (pass_maps fs d)) c = Some ps \<and> D \<in> set ps"
proof -
  let ?R = "calculateRelatedClass db" and ?f = "join_path d ''safecast.txt''"
  obtain num related where cf: "codingFunc db Fs Ps = (num, related)" by force
  have R: "clean_locations ?R" "sset_ok (downCastLoc ?R)" "smap_ok (relations ?R)"
    using run(5) run_locs[OF run(1)] run_numbers(5)[OF run(1-3) split cf] by (simp_all add: clean_locations_def names_ok_def)
  obtain fs2 where fs: "fs = snd (outputDownCastLoc (\<lambda>_. True) ?R (d @ ''/downcastLoc.txt'')
      (snd (outputBases (\<lambda>_. True) ?R (d @ ''/bases-set.txt'') (snd (outputSafeCast (\<lambda>_. True) ?R ?f fs2)))))"
    using class_finder_run[OF tool run(1) split cf refl run(2)] by blast
  note w = last_writers(3)[OF fs R(1,2)]
  have clean: "\<forall>(c, bs)\<in>set (relations ?R). \<forall>n\<in>set (c # bs). clean_name n \<and> n \<noteq> []"
    using run(6) by (simp add: clean_relations_def)
  obtain v gs where o: "outputSafeCast (\<lambda>_. True) ?R ?f fs2 = (v, gs)" by force
  have "map_find (relations ?R) c = Some bs" using c(2) by simp
  from safecast_sets_back[OF TrueI R(3) o clean c(1) this] obtain ls where "gs ?f = Some ls"
    and i: "map_option set (map_find (BitypeInheritanceSet (readInheritanceSet ls empty_maps)) c) =
      (if set bs \<inter> set (downCastVec ?R) = {} then None else Some (insert c (set bs \<inter> set (downCastVec ?R))))" by blast
  then have "contents fs ?f = ls" using w by (simp add: o contents_def)
  moreover have "set bs \<inter> set (downCastVec ?R) \<noteq> {}" using assms(12,13) by auto
  ultimately show ?thesis using i assms(12,13) by (auto simp: pass_maps_def InitReadFiles_maps)
qed

lemma coded_is_related:
  assumes run: "HandleTopLevelDecl nodes initgraph = Inr db" "currentIndex db < MAX_NUM_CLASS"
    "\<forall>i j. graph db i j \<longrightarrow> graph db j i"
    and split: "DFS (graph db) (currentIndex db) = Inr Fs" "DFS (graph_phantoms db) (currentIndex db) = Inr Ps"
      "codingFunc db Fs Ps = (num, related)"
    and D: "number_of db num D = Some z" "D \<in> set (downCastVec db)"
  shows "related_number (calculateRelatedClass db) related D \<noteq> None"
proof -
  note r = run_numbers[OF run split]
  obtain y where y: "map_find (classCode db) D = Some y" "map_find num y = Some z" using D(1) by (auto simp: number_of_iff)
  then have "y < currentIndex db" using r(5) by (auto simp: names_ok_def)
  with r(6) obtain F where F: "F \<in> set Fs" "y \<in> set F" by blast
  from number_bounds[OF r(3)[OF F(1)] F(2) y(2)] F(2) obtain m where "1 \<le> m" "map_find related y = Some m" by auto
  with y(1) have "number_of db related D = Some m" "0 < m" by (auto simp: number_of_iff)
  with D(2) show ?thesis by (simp add: related_number_def number_of_related related_classes)
qed

text \<open>
  C3: No false alarm for bases in one family: under the circumstances of the variable above, if the cast keeps the address and the
  class of the object lies in the family of the destination, the check of a cast of a recorded object never reports
  anything when the destination is the class of the object itself, or a class that the class finder recorded as a base of it or of a
  tracked object at offset 0 in it, provided the destination and another of these bases are the two sides of casts in
  the sources (the target of one down-cast, the operand's class of one). Where the families differ an alarm can be
  false: the array of a class is as long as its own family asks for and larger inherited codes are dropped.
\<close>

theorem base_cast_never_reported:
  assumes tool: "class_finder (\<lambda>_. True) parse (Some d) (Some entries) fs0 = Inr (0, fs)"
    and nodes: "HandleTopLevelDecl (visited_nodes parse d entries) initgraph = Inr db" "currentIndex db < MAX_NUM_CLASS"
      "declared_casts (visited_nodes parse d entries)" "clean_names db" "clean_locations db"
    and split: "DFS (graph db) (currentIndex db) = Inr Fs" "DFS (graph_phantoms db) (currentIndex db) = Inr Ps"
    and clang: "clang_maps fs d = Inr tables" "emit_reference_cast copts False tables X = [call]" "dest_class X = Some D"
      "\<not> has_offset X"
    and arrays: "array_type (pass_maps fs d) n Types = Some ST"
      "insertUpdate M Prefix ty E ts (ConstLen N)
         (getAllClassSafeCast dl (pass_maps fs d) P m Types fresh_util) = Some (code, V)"
    and exec: "loaded rodata at V" "os_ok os" "rt_reachable os rodata s" "exec_code os at p l code s = Some (Inr s')"
    and variable: "variable_alloc ty" "smap_ok E" "\<forall>k\<in>fst ` set E. 8 * k < unat ts" "8 dvd unat ts" "8 dvd unat p"
      "unat ts * unat N < 2 ^ 32" "0 < unat p" "unat p + unat ts * unat N \<le> 2 ^ 48"
    and object: "(k, S) \<in> set E" "S \<noteq> []" "set_names S = n" "j < unat N" "a = p + of_nat (unat ts * j + 8 * k)"
    and family: "same_family db Fs n (rd_name D)"
    and known: "rd_name D = n \<or> (\<exists>z\<in>set (getOffetZeroStruct dl (fst ST) (snd ST) []). \<exists>bs B.
      map_find (relations db) (class_name (snd z)) = Some bs \<and> rd_name D \<in> set bs \<and> B \<in> set bs \<and>
      rd_name D \<in> set (downCastVec db) \<and> B \<in> set (basedCastClass db))" "clean_relations db"
  shows "run_check rodata a q call s' = Inr s'"
proof -
  note run = nodes(1,2) graph_symmetric[OF nodes(1,3)] nodes(4,5)
  let ?u = "pass_maps fs d" and ?D = "rd_name D"
  obtain num related where c: "codingFunc db Fs Ps = (num, related)" by force
  note r = variable_recorded[OF arrays(2) exec(2-4) variable object(1,2,4)]
  obtain g where g: "map_find (GlobalVariableMap V) n = Some g" "ref_of s' a = at g" using r(3) object(3,5) by blast
  have "a \<noteq> 0" using r(2) object(5) by simp
  from verdict_by_number[OF tool run split clang arrays(1) r(1) exec(1) this g family c] obtain z where
    z: "number_of db num ?D = Some z" and v: "run_check rodata a q call s' =
      (if \<exists>C\<in>safe_names dl ?u (module_infos dl Types) ST. number_of db num C = Some z
       then Inr s' else print_confusion_inline (debugIndex call) s')" by blast
  have "?D \<in> safe_names dl ?u (module_infos dl Types) ST"
    using known(1)
  proof
    assume "?D = n"
    then show ?thesis using array_typeD[OF arrays(1)] by (simp add: safe_names_def)
  next
    assume "\<exists>z\<in>set (getOffetZeroStruct dl (fst ST) (snd ST) []). \<exists>bs B.
      map_find (relations db) (class_name (snd z)) = Some bs \<and> ?D \<in> set bs \<and> B \<in> set bs \<and>
      ?D \<in> set (downCastVec db) \<and> B \<in> set (basedCastClass db)"
    then obtain x bs B where x: "x \<in> set (getOffetZeroStruct dl (fst ST) (snd ST) [])"
      "map_find (relations db) (class_name (snd x)) = Some bs" "?D \<in> set bs" "B \<in> set bs"
      "?D \<in> set (downCastVec db)" "B \<in> set (basedCastClass db)" by blast
    have "class_name (snd x) \<in> set (castrelatedClass (calculateRelatedClass db))"
      using map_of_SomeD[OF x(2)] x(4,6) unfolding related_classes by blast
    from tool_inheritance[OF tool run known(2) split this x(2,3,5)] obtain ps where
      "map_find (BitypeInheritanceSet ?u) (class_name (snd x)) = Some ps" "?D \<in> set ps" by blast
    moreover have "map_find (bitypeCastRelatedClass ?u) ?D =
        map_option int (related_number (calculateRelatedClass db) related ?D)"
      using tool_tables[OF tool run(1-3) split c run(4,5)] by blast
    with coded_is_related[OF run(1-3) split c z x(5)] have "map_has (bitypeCastRelatedClass ?u) ?D" by simp
    ultimately show ?thesis using x(1) unfolding safe_names_def by blast
  qed
  with z v show ?thesis by auto
qed

section \<open>Example: a base, a derived class and a cast\<close>

definition chain_files :: files where
  "chain_files = (case class_finder (\<lambda>_. True) (\<lambda>_. demo_declared) (Some ''d'') (Some []) (\<lambda>_. None) of
     Inl _ \<Rightarrow> (\<lambda>_. None) | Inr (_, fs) \<Rightarrow> fs)"

lemma chain_tool:
  "case class_finder (\<lambda>_. True) (\<lambda>_. demo_declared) (Some ''d'') (Some []) (\<lambda>_. None) of
     Inl _ \<Rightarrow> False
   | Inr (r, fs) \<Rightarrow> r = 0 \<and> fs ''d/coding-num.txt'' = Some (''D,1'' @ newline) \<and>
       fs ''d/castrelated-set.txt'' = Some (''B,1'' @ newline @ ''D,1'' @ newline) \<and>
       fs ''d/safecast.txt'' = Some (''D'' @ newline) \<and>
       fs ''d/downcastLoc.txt'' = Some (''a.cpp:12,0'' @ newline)"
  by code_simp

lemma chain_db:
  "case run_ok demo_declared of None \<Rightarrow> False
   | Some db \<Rightarrow> classCode db = [(''B'', 0), (''D'', 1)] \<and> downCastLoc db = [''a.cpp:12''] \<and>
       relations db = [(''D'', [''B''])] \<and> downCastVec db = [''D''] \<and> basedCastClass db = [''B'']"
  by code_simp

lemma chain_pass_maps:
  "InitReadFiles (''D,1'' @ newline) (''B,1'' @ newline @ ''D,1'' @ newline) (''D'' @ newline) empty_maps =
   \<lparr>bitypeCodeMap = [(''D'', 1)], bitypeCastRelatedClass = [(''B'', 1), (''D'', 1)],
    bitypeClassIndexSet = [(0, ''B''), (1, ''D'')], bitypeClassIndexSet2 = [(''B'', 0), (''D'', 1)],
    BitypeInheritanceSet = [], BitypeInheritanceAllSet = []\<rparr>"
  by code_simp

lemma chain_clang_maps:
  "read_sanitizer_maps (''D,1'' @ newline) (''B,1'' @ newline @ ''D,1'' @ newline) (''a.cpp:12,0'' @ newline) =
   Inr \<lparr>SanitizerRS = [(''D'', 1)], SanitizerIndex = [(''B'', 0), (''D'', 1)], SanitizerDebug = [(''a.cpp:12'', 0)]\<rparr>"
  by code_simp

text \<open>The tables, a module with one class, its arrays and the code that records a variable of the class.\<close>

abbreviation chain_maps :: code_maps where
  "chain_maps \<equiv> \<lparr>bitypeCodeMap = [(''D'', 1)], bitypeCastRelatedClass = [(''B'', 1), (''D'', 1)],
    bitypeClassIndexSet = [(0, ''B''), (1, ''D'')], bitypeClassIndexSet2 = [(''B'', 0), (''D'', 1)],
    BitypeInheritanceSet = [], BitypeInheritanceAllSet = []\<rparr>"

abbreviation chain_tables :: sanitizer_maps where
  "chain_tables \<equiv> \<lparr>SanitizerRS = [(''D'', 1)], SanitizerIndex = [(''B'', 0), (''D'', 1)], SanitizerDebug = [(''a.cpp:12'', 0)]\<rparr>"

lemma chain_finder: "class_finder (\<lambda>_. True) (\<lambda>_. demo_declared) (Some ''d'') (Some []) (\<lambda>_. None) = Inr (0, chain_files)"
  and chain_read: "pass_maps chain_files ''d'' = chain_maps" "clang_maps chain_files ''d'' = Inr chain_tables"
proof -
  obtain r fs where f: "class_finder (\<lambda>_. True) (\<lambda>_. demo_declared) (Some ''d'') (Some []) (\<lambda>_. None) = Inr (r, fs)"
    using chain_tool by (cases "class_finder (\<lambda>_. True) (\<lambda>_. demo_declared) (Some ''d'') (Some []) (\<lambda>_. None)") auto
  note t = chain_tool[unfolded f sum.case prod.case]
  have fs: "chain_files = fs" by (simp add: chain_files_def f)
  show "class_finder (\<lambda>_. True) (\<lambda>_. demo_declared) (Some ''d'') (Some []) (\<lambda>_. None) = Inr (0, chain_files)"
    using t unfolding f fs by (simp only:)
  have c: "contents chain_files ''d/coding-num.txt'' = ''D,1'' @ newline"
    "contents chain_files ''d/castrelated-set.txt'' = ''B,1'' @ newline @ ''D,1'' @ newline"
    "contents chain_files ''d/safecast.txt'' = ''D'' @ newline" "contents chain_files ''d/downcastLoc.txt'' = ''a.cpp:12,0'' @ newline"
    using t unfolding fs contents_def by (simp_all only: option.case)
  have p: "join_path ''d'' ''coding-num.txt'' = ''d/coding-num.txt''" "join_path ''d'' ''safecast.txt'' = ''d/safecast.txt''"
    "''d'' @ ''/castrelated-set.txt'' = ''d/castrelated-set.txt''" "''d'' @ ''/downcastLoc.txt'' = ''d/downcastLoc.txt''"
    by (simp_all add: join_path_def)
  show "pass_maps chain_files ''d'' = chain_maps" unfolding pass_maps_def p c by (rule chain_pass_maps)
  show "clang_maps chain_files ''d'' = Inr chain_tables" unfolding clang_maps_def p c by (rule chain_clang_maps)
qed

definition chain_module :: "string \<Rightarrow> ir_struct list" where
  "chain_module n = [(tracked 3 n, [IntegerTy 64])]"

definition chain_slots :: "string \<Rightarrow> struct_slots" where
  "chain_slots n = [(0, [(3, (tracked 3 n, [IntegerTy 64]))])]"

abbreviation chain_arrays :: "string \<Rightarrow> bitype_util" where
  "chain_arrays n \<equiv> getAllClassSafeCast demo_layout chain_maps ''bitype'' ''m'' (chain_module n) fresh_util"

lemma chain_vars:
  "GlobalVariableMap (chain_arrays ''B'') = [(''B'', 0)] \<and> moduleGlobals (chain_arrays ''B'') = [(''bitypem.B'', [0, 0, 0])]"
  "GlobalVariableMap (chain_arrays ''D'') = [(''D'', 0)] \<and> moduleGlobals (chain_arrays ''D'') = [(''bitypem.D'', [1, 0, 1])]"
  by code_simp+

lemma chain_types:
  "array_type chain_maps ''B'' (chain_module ''B'') = Some (tracked 3 ''B'', [IntegerTy 64])"
  "array_type chain_maps ''D'' (chain_module ''D'') = Some (tracked 3 ''D'', [IntegerTy 64])"
  "set_names [(3, (tracked 3 ''B'', [IntegerTy 64]))] = ''B''" "set_names [(3, (tracked 3 ''D'', [IntegerTy 64]))] = ''D''"
  by code_simp+

lemma chain_emitted:
  assumes "set_names [(3, (tracked 3 n, [IntegerTy 64]))] = n" "GlobalVariableMap A = [(n, 0)]"
  shows "insertUpdate (inlining False demo_env) ''bitype'' STACKALLOC (chain_slots n) 8 (ConstLen 1) A =
     Some ([CallDirectUpdate 0 0 0], A)"
proof -
  have "global_for M Prefix [(3, (tracked 3 n, [IntegerTy 64]))] A = Some (Some 0, A)" for M Prefix
    unfolding global_for_def assms by simp
  then show ?thesis
    by (simp add: insertUpdate_def emit_elements.simps[of _ _ _ _ _ _ 0] emit_elements.simps[of _ _ _ _ _ _ 1] chain_slots_def
      entry_offset_def count_code_def)
      (simp add: demo_env_def)
qed

lemma chain_block_emitted:
  assumes "set_names [(3, (tracked 3 n, [IntegerTy 64]))] = n" "GlobalVariableMap A = [(n, 0)]"
  shows "insertUpdate (inlining False demo_env) ''bitype'' HEAPALLOC (chain_slots n) 8 RunLen A =
     Some ([CallUpdateObjTrace 0 0 8 RunLen 0, CallUpdateArraySize RunLen], A)"
proof -
  have "global_for M Prefix [(3, (tracked 3 n, [IntegerTy 64]))] A = Some (Some 0, A)" for M Prefix
    unfolding global_for_def assms by simp
  then show ?thesis
    by (simp add: insertUpdate_def chain_slots_def entry_offset_def count_code_def) (simp add: demo_env_def)
qed

definition chain_rodata :: "8 word list \<Rightarrow> addr \<Rightarrow> u8" where
  "chain_rodata bytes x = (if x < 4099 then bytes ! unat (x - 4096) else 0)"

lemma chain_loaded:
  assumes "moduleGlobals A = [(g, [x, y, z])]"
  shows "loaded (chain_rodata [x, y, z]) (\<lambda>_. 4096) A"
  unfolding loaded_def assms by (auto simp: chain_rodata_def less_Suc_eq numeral_3_eq_3)

definition chain_cast :: downcast where
  "chain_cast = \<lparr>dest_class = Some (demo_info ''D'' 16), has_offset = False, cast_loc = Some (''a.cpp'', 12)\<rparr>"

definition chain_call :: check_call where
  "chain_call = \<lparr>FunName = ''__bitype_cast_verification'', Address1 = SourceAddr, Address = SourceAddr, byteIndex = 0,
     safeCode = 1, debugIndex = 0\<rparr>"

lemma chain_check:
  "emit_reference_cast \<lparr>SanOptsBitype = True, CPlusPlus = True, ClBitypeDynamicCast = False,
    ClHandlePlacementNew = False, ClHandleReinterpretCast = False\<rparr> False chain_tables chain_cast = [chain_call]"
  by code_simp

lemma chain_ran:
  obtains db where "HandleTopLevelDecl demo_declared initgraph = Inr db" "currentIndex db < MAX_NUM_CLASS"
    "\<forall>i j. graph db i j \<longrightarrow> graph db j i" "clean_names db" "clean_locations db"
    "DFS (graph db) (currentIndex db) = Inr [[0, 1]]" "DFS (graph_phantoms db) (currentIndex db) = Inr [[0], [1]]"
    "classCode db = [(''B'', 0), (''D'', 1)]" "clean_relations db"
proof -
  obtain db where o: "run_ok demo_declared = Some db" using demo_declared_run by (auto split: option.splits)
  note t = demo_declared_run[unfolded o option.case] chain_db[unfolded o option.case]
  from o have r: "HandleTopLevelDecl demo_declared initgraph = Inr db" by (rule run_okD)
  have sym: "\<forall>i j. graph db i j \<longrightarrow> graph db j i" by (rule graph_symmetric[OF r demo_declared_casts])
  have "clean_names db" using t(1) by (auto simp: clean_names_def clean_name_def)
  moreover have "clean_locations db" "clean_relations db"
    using t(2) by (auto simp: clean_locations_def clean_relations_def clean_name_def)
  ultimately show ?thesis using that[OF r] sym t by (simp add: MAX_NUM_CLASS_def)
qed

lemma chain_unsafe:
  "''D'' \<notin> safe_names demo_layout chain_maps (module_infos demo_layout (chain_module ''B'')) (tracked 3 ''B'', [IntegerTy 64])"
proof -
  have "map TypeName (relatives (module_infos demo_layout (chain_module ''B'')) ''B'') = [''B'', ''B'']"
    "map (\<lambda>z. class_name (snd z)) (getOffetZeroStruct demo_layout (tracked 3 ''B'') [IntegerTy 64] []) = [''B'']"
    "class_name (tracked 3 ''B'', [IntegerTy 64]) = ''B''"
    by code_simp+
  note names = this
  have r: "TypeName ` set (relatives (module_infos demo_layout (chain_module ''B'')) ''B'') = {''B''}"
    unfolding set_map[symmetric] names(1) by simp
  have z: "class_name (snd z) = ''B''" if "z \<in> set (getOffetZeroStruct demo_layout (tracked 3 ''B'') [IntegerTy 64] [])" for z
  proof -
    have "class_name (snd z) \<in> set (map (\<lambda>z. class_name (snd z)) (getOffetZeroStruct demo_layout (tracked 3 ''B'') [IntegerTy 64] []))"
      using that by (simp only: set_map) (rule imageI)
    then show ?thesis unfolding names(2) by simp
  qed
  show ?thesis
  proof
    assume "''D'' \<in> safe_names demo_layout chain_maps (module_infos demo_layout (chain_module ''B'')) (tracked 3 ''B'', [IntegerTy 64])"
    then consider "''D'' = ''B''" | z where "z \<in> set (getOffetZeroStruct demo_layout (tracked 3 ''B'') [IntegerTy 64] [])"
        "''D'' = class_name (snd z) \<or> (\<exists>ps. map_find (BitypeInheritanceSet chain_maps) (class_name (snd z)) = Some ps \<and> ''D'' \<in> set ps)"
      unfolding safe_names_def fst_conv snd_conv names(3) r by blast
    then show False
    proof cases
      case (2 z)
      then show False unfolding z[OF 2(1)] by simp
    qed simp
  qed
qed

lemma finder_tables_arrive_witness:
  "map_find (bitypeCodeMap (pass_maps chain_files ''d'')) ''D'' = Some 1 \<and>
     (\<exists>tables. clang_maps chain_files ''d'' = Inr tables \<and> map_find (SanitizerRS tables) ''D'' = Some 1 \<and>
        bitypeClassIndexSet2 (pass_maps chain_files ''d'') = SanitizerIndex tables)"
proof -
  obtain db where db: "HandleTopLevelDecl demo_declared initgraph = Inr db" "currentIndex db < MAX_NUM_CLASS"
    "\<forall>i j. graph db i j \<longrightarrow> graph db j i" "clean_names db" "clean_locations db"
    "DFS (graph db) (currentIndex db) = Inr [[0, 1]]" "DFS (graph_phantoms db) (currentIndex db) = Inr [[0], [1]]"
    by (rule chain_ran)
  obtain num related where "codingFunc db [[0, 1]] [[0], [1]] = (num, related)" by force
  from finder_tables_arrive[OF chain_finder db(1,2) demo_declared_casts db(6,7) this db(4,5)] show ?thesis by (auto simp: chain_read)
qed

text \<open>An object of class \<open>B\<close> is cast to \<open>D\<close>: reported.\<close>

lemma program_cast_verdict_witness:
  "\<exists>s. exec_code linux_os (\<lambda>_. 4096) 8 1 [CallDirectUpdate 0 0 0] boot_state = Some (Inr s) \<and>
     run_check (chain_rodata [0, 0, 0]) 8 8 chain_call s = print_confusion_inline 0 s"
proof -
  obtain s where s: "exec_code linux_os (\<lambda>_. 4096) 8 1 [CallDirectUpdate 0 0 0] boot_state = Some (Inr s)"
    using demo_run by blast
  obtain db where db: "HandleTopLevelDecl demo_declared initgraph = Inr db" "currentIndex db < MAX_NUM_CLASS"
    "\<forall>i j. graph db i j \<longrightarrow> graph db j i" "clean_names db" "clean_locations db"
    "DFS (graph db) (currentIndex db) = Inr [[0, 1]]" "DFS (graph_phantoms db) (currentIndex db) = Inr [[0], [1]]"
    "classCode db = [(''B'', 0), (''D'', 1)]" "clean_relations db"
    by (rule chain_ran)
  have fam: "same_family db [[0, 1]] ''B'' ''D''" "same_family db [[0, 1]] ''D'' ''D''"
    by (simp_all add: same_family_def db(8))
  have ph: "phantom_names db [[0], [1]] C ''D'' \<longleftrightarrow> C = ''D''" for C
    by (auto simp: phantom_names_def db(8) same_phantom_def split: if_splits)
  note e = chain_emitted[OF chain_types(3) conjunct1[OF chain_vars(1)]]
  note l = chain_loaded[OF conjunct2[OF chain_vars(1)]]
  let ?safe = "safe_names demo_layout chain_maps (module_infos demo_layout (chain_module ''B'')) (tracked 3 ''B'', [IntegerTy 64])"
  have "run_check (chain_rodata [0, 0, 0]) 8 8 chain_call s =
    (if \<exists>C\<in>?safe. phantom_names db [[0], [1]] C (rd_name (demo_info ''D'' 16)) then Inr s
     else print_confusion_inline (debugIndex chain_call) s)"
    by (rule program_cast_verdict[OF chain_finder db(1,2) demo_declared_casts db(4-7) chain_read(2) chain_check,
        where D = "demo_info ''D'' 16", unfolded chain_read, OF _ _ chain_types(1) e l linux_os_ok boot_reachable s disjI1[OF refl],
        where k = 0 and j = 0])
      (use fam chain_types in \<open>simp_all add: chain_slots_def smap_ok_def chain_cast_def demo_info_def\<close>)
  moreover have "\<not> (\<exists>C\<in>?safe. phantom_names db [[0], [1]] C (rd_name (demo_info ''D'' 16)))"
    using ph chain_unsafe by (auto simp: demo_info_def)
  ultimately show ?thesis using s by (auto simp: chain_call_def)
qed

text \<open>The second of two objects of class \<open>B\<close> in a heap block is cast to \<open>D\<close>: reported.\<close>

lemma heap_cast_verdict_witness:
  "\<exists>s. exec_code linux_os (\<lambda>_. 4096) 8 2 [CallUpdateObjTrace 0 0 8 RunLen 0, CallUpdateArraySize RunLen]
       boot_state = Some (Inr s) \<and>
     run_check (chain_rodata [0, 0, 0]) 16 16 chain_call s = print_confusion_inline 0 s"
proof -
  obtain s where s: "exec_code linux_os (\<lambda>_. 4096) 8 2 [CallUpdateObjTrace 0 0 8 RunLen 0, CallUpdateArraySize RunLen]
       boot_state = Some (Inr s)"
    using demo_block_run[of RunLen] by (auto simp: len_value_def)
  obtain db where db: "HandleTopLevelDecl demo_declared initgraph = Inr db" "currentIndex db < MAX_NUM_CLASS"
    "\<forall>i j. graph db i j \<longrightarrow> graph db j i" "clean_names db" "clean_locations db"
    "DFS (graph db) (currentIndex db) = Inr [[0, 1]]" "DFS (graph_phantoms db) (currentIndex db) = Inr [[0], [1]]"
    "classCode db = [(''B'', 0), (''D'', 1)]" "clean_relations db"
    by (rule chain_ran)
  have fam: "same_family db [[0, 1]] ''B'' ''D''" "same_family db [[0, 1]] ''D'' ''D''"
    by (simp_all add: same_family_def db(8))
  have ph: "phantom_names db [[0], [1]] C ''D'' \<longleftrightarrow> C = ''D''" for C
    by (auto simp: phantom_names_def db(8) same_phantom_def split: if_splits)
  have u: "unat (2 :: u32) = 2" "unat (8 :: u32) = 8" by simp_all
  note e = chain_block_emitted[OF chain_types(3) conjunct1[OF chain_vars(1)]]
  note l = chain_loaded[OF conjunct2[OF chain_vars(1)]]
  let ?safe = "safe_names demo_layout chain_maps (module_infos demo_layout (chain_module ''B'')) (tracked 3 ''B'', [IntegerTy 64])"
  have "run_check (chain_rodata [0, 0, 0]) 16 16 chain_call s =
    (if \<exists>C\<in>?safe. phantom_names db [[0], [1]] C (rd_name (demo_info ''D'' 16)) then Inr s
     else print_confusion_inline (debugIndex chain_call) s)"
    by (rule heap_cast_verdict[OF chain_finder db(1,2) demo_declared_casts db(4-7) chain_read(2) chain_check,
        where D = "demo_info ''D'' 16", unfolded chain_read, OF _ _ chain_types(1) e l linux_os_ok boot_reachable s disjI1[OF refl],
        where k = 0 and j = 1 and len = 2])
      (use fam chain_types in \<open>simp_all add: u chain_slots_def smap_ok_def chain_cast_def demo_info_def len_value_def\<close>)
  moreover have "\<not> (\<exists>C\<in>?safe. phantom_names db [[0], [1]] C (rd_name (demo_info ''D'' 16)))"
    using ph chain_unsafe by (auto simp: demo_info_def)
  ultimately show ?thesis using s by (auto simp: chain_call_def)
qed

text \<open>An object of class \<open>D\<close> is cast to \<open>D\<close>: not reported.\<close>

lemma base_cast_never_reported_witness:
  "\<exists>s. exec_code linux_os (\<lambda>_. 4096) 8 1 [CallDirectUpdate 0 0 0] boot_state = Some (Inr s) \<and>
     run_check (chain_rodata [1, 0, 1]) 8 8 chain_call s = Inr s"
proof -
  obtain s where s: "exec_code linux_os (\<lambda>_. 4096) 8 1 [CallDirectUpdate 0 0 0] boot_state = Some (Inr s)"
    using demo_run by blast
  obtain db where db: "HandleTopLevelDecl demo_declared initgraph = Inr db" "currentIndex db < MAX_NUM_CLASS"
    "\<forall>i j. graph db i j \<longrightarrow> graph db j i" "clean_names db" "clean_locations db"
    "DFS (graph db) (currentIndex db) = Inr [[0, 1]]" "DFS (graph_phantoms db) (currentIndex db) = Inr [[0], [1]]"
    "classCode db = [(''B'', 0), (''D'', 1)]" "clean_relations db"
    by (rule chain_ran)
  have fam: "same_family db [[0, 1]] ''D'' ''D''" by (simp add: same_family_def db(8))
  note e = chain_emitted[OF chain_types(4) conjunct1[OF chain_vars(2)]]
  note l = chain_loaded[OF conjunct2[OF chain_vars(2)]]
  have "run_check (chain_rodata [1, 0, 1]) 8 8 chain_call s = Inr s"
    by (rule base_cast_never_reported[OF chain_finder db(1,2) demo_declared_casts db(4-7) chain_read(2) chain_check,
        where D = "demo_info ''D'' 16", unfolded chain_read, OF _ _ chain_types(2) e l linux_os_ok boot_reachable s disjI1[OF refl],
        where k = 0 and j = 0])
      (use fam chain_types db(9) in \<open>simp_all add: chain_slots_def smap_ok_def chain_cast_def demo_info_def\<close>)
  with s show ?thesis by blast
qed

end
