(* ===== verification/Spec2Isabelle.thy ===== *)
theory Spec2Isabelle
  imports RuntimeProps ClassCodes FilesRoundtrip HeapProps HeapRecord WholeChain
begin

text \<open>
  Bitype: a type-confusion sanitizer in a fork of LLVM and Clang.

  The sanitizer has four stages. A class finder (\<open>FindClassDecls.cpp\<close>) visits the program's declarations
  and casts, relates classes that are cast to each other, splits them into families and gives every
  down-cast target a code number inside its family; it writes these tables to files. Clang reads the files
  (\<open>SanitizerRelation.cpp\<close>) and puts a check at every down-cast. Two LLVM passes read them too
  (\<open>BitypeUtil.cpp\<close>), give every class of the module an array with a bit for each class its objects may be
  cast to, find the objects inside each variable and heap block with the target's data layout, and insert
  code that records where objects begin and end. The run-time library (\<open>bitype.cpp\<close>) keeps the recorded objects
  in a two-level shadow table and judges casts by the bit of the target in the array of the object.

  Theories, in the order of the data flow:

  \<^item> \<open>Bitype_Prelude\<close>: ordered maps and sets of the C++ library, the contract of a first-wins map, loops that
    may abort, searches in lists.
  \<^item> \<open>Runtime\<close>, \<open>RuntimeTables\<close>, \<open>RuntimeSpec\<close>, \<open>RuntimeProps\<close>: the run-time library over words of memory; the
    invariant of the two-level table; the contract of a shadow table (locale) with its interpretation; the properties.
    The program is a sequence of calls (\<open>rt_step\<close>, \<open>rt_reachable\<close>).
  \<^item> \<open>ClassGraph\<close>, \<open>ClassFamilies\<close>, \<open>ClassTables\<close>, \<open>ClassProps\<close>, \<open>ClassCodes\<close>: the visitor's tables and matrices, the
    depth-first search, the numbering, the phantom sets, and what they mean after a whole run.
  \<^item> \<open>ClassOutput\<close>, \<open>StrRef\<close>, \<open>CodeFiles\<close>, \<open>FilesRoundtrip\<close>, \<open>TypeNames\<close>: the files as written, the string operations
    and parsers of their readers, the round trips, and the normalisation of type names.
  \<^item> \<open>DataLayout\<close>, \<open>LayoutProps\<close>: LLVM's data layout as far as the passes use it: the description parser, sizes,
    alignments, structure layouts, and their correctness within the bounds where no size wraps around.
  \<^item> \<open>SubObjects\<close>, \<open>SafeCode\<close>, \<open>SafeProps\<close>: the tracked objects inside a value, the closure of parents and phantom
    types, the sets of code numbers and the arrays.
  \<^item> \<open>TraceCode\<close>, \<open>TraceInline\<close>, \<open>TraceRecord\<close>: the tracing code as a list of instructions and its effect; inlined
    updates against calls; what the code of a variable records and forgets.
  \<^item> \<open>ClangCast\<close>, \<open>CastVerdict\<close>: the checks and marks Clang's code generator emits, and the chain from the array of a
    class over the record of an object, in a variable or a heap block, to the verdict on a cast of it.
  \<^item> \<open>ToolFiles\<close>, \<open>WholeChain\<close>: a whole run of the class finder as its readers see it, and the sanitizer as a whole, from
    the sources to the verdict on a cast of an object in a variable or a heap block: code numbers, files and arrays
    cancel out, for casts that keep the address and classes of one family; code numbers of different families may
    be equal.
  \<^item> \<open>PassIR\<close>, \<open>StackSafety\<close>: functions as blocks of numbered instructions, and the pass's questions about them
    (\<open>isSafeStackAlloca\<close>, \<open>findAllocaForValue\<close>), against the flow of addresses they look for; the two ways out of a
    function that \<open>isSafeStackAlloca\<close> allows are exceptions of the specification, by name.
  \<^item> \<open>StackPass\<close>, \<open>StackTrace\<close>: the pass over variables and globals (\<open>BitypePass.cpp\<close>). What it does to the module is
    a list of effects (code at a place, values replaced); the properties say what code a variable gets and where.
  \<^item> \<open>HeapPass\<close>, \<open>HeapProps\<close>, \<open>HeapRecord\<close>: the pass over heap objects and checks (\<open>BitypeInitializePass.cpp\<close>): the
    compile-time verification, the inlined checks, the code of allocations and releases, and a block's life:
    its objects are recorded, and forgotten when it is released.

  Conventions. Machine integers are words where the code can wrap around (addresses, table indices,
  loop counters, offsets of elements); sizes of types are \<open>nat\<close> with the wrap-around at \<open>2 ^ 64\<close> and the narrowing
  to \<open>unsigned\<close> written out (\<open>wrap64\<close>, \<open>mod 2 ^ 32\<close>), as is that of the readers' line counters; counts of
  classes, which the class finder bounds, are \<open>nat\<close>. A loop that may not end is a partial function whose \<open>None\<close> is not
  returning; errors are the left of a sum. \<open>visit_types\<close> has the call stack of a recursion as an argument, so
  its termination is proved and no fuel is needed anywhere. In the passes \<open>None\<close> is that the compiler does not go
  on: it crashes on a null pointer or does not get out of a loop.

  Parameters: the operating system's \<open>mmap\<close> (\<open>os\<close>, with \<open>os_ok\<close> stating that mappings do not overlap), the
  constants of the loaded program (\<open>rodata\<close>) and the addresses of its global variables (\<open>at\<close>);
  for the passes LLVM's call graph and dominator tree, its knowledge of allocation functions and the demangler.

  Not modelled: \<open>getLookUpStart\<close>, \<open>getLookUpSecondLevelGlobal\<close> and \<open>InitType\<close>, which declare variables and build type
  objects of LLVM; command-line options and the paths of files; progress output and the statistics printed at
  exit; Clang's syntax trees, whose visits are inputs of the class finder; the optimiser, code generators and
  front end as imported from upstream, beyond the parts of the data layout and of string references used here.
\<close>

end
